(* ===== verification/Prelude.thy ===== *)
theory Prelude
  imports Main "HOL-Library.Word" "HOL-Library.Sublist"
begin

text \<open>
  What every component shares: the machine types of the firmware (a 32-bit ARM target), C strings
  and the \<open>string.h\<close> functions the sources call, the decimal conversions and the truncating
  \<open>snprintk\<close> of the C formatting library, the \<open>errno.h\<close> numbers, and the generic lemmas.
\<close>

unbundle bit_operations_syntax

section \<open>Types\<close>

type_synonym u8 = "8 word"
type_synonym u16 = "16 word"
type_synonym u32 = "32 word"
type_synonym u64 = "64 word"

named_theorems fw_defs \<open>definitions of straight-line firmware helpers, unfolded by the component proofs\<close>
named_theorems hist_simps \<open>what a call leaves in the observations made of the call history\<close>

section \<open>Bytes and characters\<close>

text \<open>\<open>char\<close> and \<open>uint8_t\<close> are both one byte; a C cast between them is one of these.\<close>

definition byte_of_char :: "char \<Rightarrow> u8" where
  "byte_of_char c = word_of_nat (of_char c)"

definition char_of_byte :: "u8 \<Rightarrow> char" where
  "char_of_byte b = char_of (unat b)"

abbreviation to_bytes :: "string \<Rightarrow> u8 list" where
  "to_bytes \<equiv> List.map byte_of_char"

abbreviation to_chars :: "u8 list \<Rightarrow> string" where
  "to_chars \<equiv> List.map char_of_byte"

lemma char_of_byte_of_char [simp]: "char_of_byte (byte_of_char c) = c"
proof -
  have "of_char c < (256::nat)"
    by (rule nat_of_char_less_256)
  then have "unat (word_of_nat (of_char c) :: u8) = of_char c"
    by (simp add: unat_of_nat)
  then show ?thesis
    by (simp add: char_of_byte_def byte_of_char_def)
qed

lemma byte_of_char_of_byte [simp]: "byte_of_char (char_of_byte b) = b"
proof -
  have "unat b < 256"
    using unsigned_less [of b, where ?'a = nat] by simp
  then show ?thesis
    by (simp add: char_of_byte_def byte_of_char_def)
qed

lemma to_chars_to_bytes [simp]: "to_chars (to_bytes s) = s"
  by (induction s) simp_all

lemma to_bytes_to_chars [simp]: "to_bytes (to_chars bs) = bs"
  by (induction bs) simp_all

section \<open>C strings\<close>

text \<open>
  A \<open>char *\<close> is the string of the characters from where it points up to the terminating NUL;
  reading at the end gives the NUL. Pointers into a buffer are suffixes of its contents.
\<close>

abbreviation NUL :: char where "NUL \<equiv> CHR 0x00"
abbreviation CR :: char where "CR \<equiv> CHR 0x0D"
abbreviation LF :: char where "LF \<equiv> CHR 0x0A"
abbreviation TAB :: char where "TAB \<equiv> CHR 0x09"
abbreviation SP :: char where "SP \<equiv> CHR 0x20"
abbreviation CRLF :: string where "CRLF \<equiv> [CR, LF]"

definition c_str :: "string \<Rightarrow> string" where
  "c_str buf = takeWhile (\<lambda>c. c \<noteq> NUL) buf"

definition char_at :: "string \<Rightarrow> nat \<Rightarrow> char" where
  "char_at s i = (if i < length s then s ! i else NUL)"

text \<open>\<open>strncmp(a, b, n) == 0\<close>: the first \<open>n\<close> characters agree, the comparison stopping at a NUL.\<close>

definition strncmp_eq :: "string \<Rightarrow> string \<Rightarrow> nat \<Rightarrow> bool" where
  "strncmp_eq a b n \<longleftrightarrow> take n a = take n b"

text \<open>\<open>strstr(hay, needle)\<close>: the suffix of \<open>hay\<close> that starts with the first \<open>needle\<close>.\<close>

fun strstr :: "string \<Rightarrow> string \<Rightarrow> string option" where
  "strstr [] needle = (if needle = [] then Some [] else None)"
| "strstr (c # cs) needle = (if prefix needle (c # cs) then Some (c # cs) else strstr cs needle)"

lemma strstr_Some: "strstr hay needle = Some s \<Longrightarrow> suffix s hay \<and> prefix needle s"
  by (induction hay) (auto split: if_splits intro: suffix_ConsI)

lemma strstr_length: "strstr hay needle = Some s \<Longrightarrow> length s \<le> length hay"
  using strstr_Some suffix_length_le by blast

lemma strstr_None: "strstr hay needle = None \<longleftrightarrow> \<not> sublist needle hay"
  by (induction hay) (auto simp: sublist_Cons_right)

lemma char_at_simps [simp]:
  "char_at [] i = NUL"
  "char_at (c # s) 0 = c"
  "char_at (c # s) (Suc i) = char_at s i"
  by (auto simp: char_at_def)

lemma c_str_no_nul: "NUL \<notin> set (c_str buf)"
  by (auto simp: c_str_def dest: set_takeWhileD)

lemma c_str_id: "NUL \<notin> set s \<Longrightarrow> c_str s = s"
  by (auto simp: c_str_def takeWhile_eq_all_conv)

lemma c_str_append: "NUL \<notin> set s \<Longrightarrow> c_str (s @ t) = s @ c_str t"
  by (induction s) (auto simp: c_str_def)

lemma c_str_prefix: "prefix (c_str s) s"
  by (simp add: c_str_def takeWhile_is_prefix)

section \<open>Decimal conversions\<close>

definition digit :: "nat \<Rightarrow> char" where
  "digit d = char_of (48 + d)"

text \<open>\<open>%u\<close>.\<close>

fun dec :: "nat \<Rightarrow> string" where
  "dec n = (if n < 10 then [digit n] else dec (n div 10) @ [digit (n mod 10)])"

declare dec.simps [simp del]

text \<open>\<open>%d\<close> and \<open>%lld\<close>.\<close>

definition dec_int :: "int \<Rightarrow> string" where
  "dec_int i = (if i < 0 then CHR ''-'' # dec (nat (- i)) else dec (nat i))"

definition digit_val :: "char \<Rightarrow> nat" where
  "digit_val c = of_char c - 48"

definition undec :: "string \<Rightarrow> nat" where
  "undec s = foldl (\<lambda>v c. v * 10 + digit_val c) 0 s"

definition is_digit :: "char \<Rightarrow> bool" where
  "is_digit c \<longleftrightarrow> 48 \<le> (of_char c :: nat) \<and> (of_char c :: nat) \<le> 57"

lemma digit_val_digit [simp]: "d < 10 \<Longrightarrow> digit_val (digit d) = d"
  by (simp add: digit_val_def digit_def)

lemma is_digit_digit [simp]: "d < 10 \<Longrightarrow> is_digit (digit d)"
  by (simp add: is_digit_def digit_def)

lemma undec_dec [simp]: "undec (dec n) = n"
proof (induction n rule: dec.induct)
  case (1 n)
  show ?case
    by (cases "n < 10") (use 1 in \<open>simp_all add: dec.simps [of n] undec_def\<close>)
qed

lemma dec_digits: "c \<in> set (dec n) \<Longrightarrow> is_digit c"
proof (induction n rule: dec.induct)
  case (1 n)
  then show ?case
    by (cases "n < 10") (auto simp: dec.simps [of n])
qed

lemma dec_inj [simp]: "dec m = dec n \<longleftrightarrow> m = n"
  by (metis undec_dec)

lemma dec_length: "n < 10 ^ k \<Longrightarrow> 0 < k \<Longrightarrow> length (dec n) \<le> k"
proof (induction n arbitrary: k rule: dec.induct)
  case (1 n)
  show ?case
  proof (cases "n < 10")
    case True
    then show ?thesis using "1.prems" by (simp add: dec.simps [of n])
  next
    case False
    with "1.prems" obtain j where k: "k = Suc j" and "0 < j"
      by (cases k; cases "k - 1") auto
    with "1.prems" have "n div 10 < 10 ^ j"
      by (simp add: less_mult_imp_div_less mult.commute)
    with "1.IH" [OF False] \<open>0 < j\<close> have "length (dec (n div 10)) \<le> j" by blast
    with False k show ?thesis by (simp add: dec.simps [of n])
  qed
qed

lemma dec_int_length: "\<bar>i\<bar> < 10 ^ k \<Longrightarrow> 0 < k \<Longrightarrow> length (dec_int i) \<le> Suc k"
proof -
  assume a: "\<bar>i\<bar> < 10 ^ k" and k: "0 < k"
  have "nat \<bar>i\<bar> < 10 ^ k"
    using a by (simp add: nat_less_iff)
  then have "length (dec (nat \<bar>i\<bar>)) \<le> k"
    using k by (rule dec_length)
  then show ?thesis
    by (cases "i < 0") (simp_all add: dec_int_def)
qed

lemma dec_int_length_nonneg: "0 \<le> i \<Longrightarrow> i < 10 ^ k \<Longrightarrow> 0 < k \<Longrightarrow> length (dec_int i) \<le> k"
  by (simp add: dec_int_def dec_length nat_less_iff)

lemma digit_not_nul: "is_digit c \<Longrightarrow> c \<noteq> NUL"
  by (auto simp: is_digit_def)

lemma dec_no_nul [simp]: "NUL \<notin> set (dec n)"
  using dec_digits digit_not_nul by blast

lemma dec_int_no_nul [simp]: "NUL \<notin> set (dec_int i)"
  by (auto simp: dec_int_def)

section \<open>Big-endian numbers\<close>

text \<open>The \<open>k\<close> big-endian bytes of a number, and the number they stand for.\<close>

definition be_bytes :: "nat \<Rightarrow> nat \<Rightarrow> u8 list" where
  "be_bytes k n = map (\<lambda>i. word_of_nat (n div 256 ^ (k - 1 - i))) [0..<k]"

definition be_nat :: "u8 list \<Rightarrow> nat" where
  "be_nat bs = foldl (\<lambda>v b. v * 256 + unat b) 0 bs"

lemma length_be_bytes [simp]: "length (be_bytes k n) = k"
  by (simp add: be_bytes_def)

lemma be_bytes_0 [simp]: "be_bytes 0 n = []"
  by (simp add: be_bytes_def)

lemma be_bytes_Suc: "be_bytes (Suc k) n = be_bytes k (n div 256) @ [word_of_nat n]"
proof -
  have "n div 256 ^ (k - i) = n div 256 div 256 ^ (k - 1 - i)" if "i < k" for i
  proof -
    have "k - i = Suc (k - 1 - i)" using that by simp
    then show ?thesis by (simp add: div_mult2_eq)
  qed
  then show ?thesis by (simp add: be_bytes_def)
qed

lemma be_bytes_2: "be_bytes 2 n = [word_of_nat (n div 256), word_of_nat n]"
  by (simp add: numeral_2_eq_2 be_bytes_Suc)

lemma be_nat_be_bytes: "n < 256 ^ k \<Longrightarrow> be_nat (be_bytes k n) = n"
proof (induction k arbitrary: n)
  case (Suc k)
  then have "n div 256 < 256 ^ k" by (simp add: less_mult_imp_div_less mult.commute)
  with Suc.IH have "be_nat (be_bytes k (n div 256)) = n div 256" by blast
  moreover have "unat (word_of_nat n :: u8) = n mod 256" by (simp add: unat_of_nat)
  ultimately show ?case by (simp add: be_bytes_Suc be_nat_def)
qed (simp add: be_nat_def)

section \<open>The formatter\<close>

text \<open>
  \<open>snprintk(buf, n, ...)\<close>, Zephyr's \<open>snprintf\<close>: it returns the length of the whole text and
  leaves its first \<open>n - 1\<close> characters and a NUL in the buffer. The argument is the whole text;
  the result is the return value and the C string now in the buffer.
\<close>

definition snprintk :: "nat \<Rightarrow> string \<Rightarrow> int \<times> string" where
  "snprintk n text = (int (length text), take (n - 1) text)"

definition bool_text :: "bool \<Rightarrow> string" where
  "bool_text b = (if b then ''true'' else ''false'')"

lemma bool_text_length: "length (bool_text b) \<le> 5"
  by (simp add: bool_text_def)

lemma bool_text_no_nul [simp]: "NUL \<notin> set (bool_text b)"
  by (simp add: bool_text_def)

section \<open>Error numbers\<close>

definition ENOENT :: nat where [fw_defs]: "ENOENT = 2"
definition EIO :: nat where [fw_defs]: "EIO = 5"
definition EAGAIN :: nat where [fw_defs]: "EAGAIN = 11"
definition ENOMEM :: nat where [fw_defs]: "ENOMEM = 12"
definition EBUSY :: nat where [fw_defs]: "EBUSY = 16"
definition ENODEV :: nat where [fw_defs]: "ENODEV = 19"
definition ENOTDIR :: nat where [fw_defs]: "ENOTDIR = 20"
definition EISDIR :: nat where [fw_defs]: "EISDIR = 21"
definition EINVAL :: nat where [fw_defs]: "EINVAL = 22"
definition ECONNRESET :: nat where [fw_defs]: "ECONNRESET = 104"
definition EALREADY :: nat where [fw_defs]: "EALREADY = 120"
definition EMSGSIZE :: nat where [fw_defs]: "EMSGSIZE = 122"
definition ENOTSUP :: nat where [fw_defs]: "ENOTSUP = 134"

text \<open>\<open>-E\<close> as an \<open>int\<close> return value.\<close>

definition err :: "nat \<Rightarrow> int" where
  "err e = - int e"

lemma err_less_0 [simp]: "err e < 0 \<longleftrightarrow> 0 < e"
  by (simp add: err_def)

lemma err_eq [simp]: "err a = err b \<longleftrightarrow> a = b"
  by (simp add: err_def)

lemma err_eq_0 [simp]: "err e = 0 \<longleftrightarrow> e = 0" "0 = err e \<longleftrightarrow> e = 0"
  by (simp_all add: err_def)

lemma err_ge_0 [simp]: "0 \<le> err e \<longleftrightarrow> e = 0" "err e \<le> 0"
  by (simp_all add: err_def)

lemma errno_pos [simp]: "0 < ENOENT" "0 < EIO" "0 < EAGAIN" "0 < ENOMEM" "0 < EBUSY" "0 < ENODEV"
  "0 < ENOTDIR" "0 < EISDIR" "0 < EINVAL" "0 < ECONNRESET" "0 < EALREADY" "0 < EMSGSIZE" "0 < ENOTSUP"
  by (simp_all add: fw_defs)

lemma errno_nonzero [simp]: "ENOENT \<noteq> 0" "EIO \<noteq> 0" "EAGAIN \<noteq> 0" "ENOMEM \<noteq> 0" "EBUSY \<noteq> 0"
  "ENODEV \<noteq> 0" "ENOTDIR \<noteq> 0" "EISDIR \<noteq> 0" "EINVAL \<noteq> 0" "ECONNRESET \<noteq> 0" "EALREADY \<noteq> 0"
  "EMSGSIZE \<noteq> 0" "ENOTSUP \<noteq> 0"
  by (simp_all add: fw_defs)

lemmas errno_defs = ENOENT_def EIO_def EAGAIN_def ENOMEM_def EBUSY_def ENODEV_def ENOTDIR_def
  EISDIR_def EINVAL_def ECONNRESET_def EALREADY_def EMSGSIZE_def ENOTSUP_def

section \<open>Ranges of C integers\<close>

text \<open>\<open>int\<close> and \<open>int32_t\<close>, and \<open>long long\<close>.\<close>

definition is_int32 :: "int \<Rightarrow> bool" where
  "is_int32 i \<longleftrightarrow> - (2 ^ 31) \<le> i \<and> i < 2 ^ 31"

definition is_int64 :: "int \<Rightarrow> bool" where
  "is_int64 i \<longleftrightarrow> - (2 ^ 63) \<le> i \<and> i < 2 ^ 63"

lemma is_int32_length: "is_int32 i \<Longrightarrow> length (dec_int i) \<le> 11"
  using dec_int_length [of i 10] by (auto simp: is_int32_def abs_if)

lemma is_int64_length: "is_int64 i \<Longrightarrow> length (dec_int i) \<le> 20"
  using dec_int_length [of i 19] by (auto simp: is_int64_def abs_if)

lemma is_int32_err: "e < 2 ^ 31 \<Longrightarrow> is_int32 (err e)"
  by (simp add: is_int32_def err_def)

lemma is_int32_simps [simp]: "is_int32 0" "is_int32 (err EINVAL)" "is_int32 (err ENODEV)"
  "is_int32 (err EMSGSIZE)" "is_int32 (err ENOTSUP)" "is_int32 (err EALREADY)"
  by (simp_all add: is_int32_def err_def errno_defs)

section \<open>Generic lemmas\<close>

lemma take_drop_append: "n \<le> m \<Longrightarrow> take n (take m xs) @ take (m - n) (drop n xs) = take m xs"
  by (metis append_take_drop_id drop_take take_take min.absorb1)

lemma prefix_take_append: "prefix p (drop n xs) \<Longrightarrow> prefix (take n xs @ p) xs"
  by (metis append_take_drop_id same_prefix_prefix)

lemma sum_case_if: "(case (if b then x else y) of Inl e \<Rightarrow> f e | Inr v \<Rightarrow> g v) =
    (if b then (case x of Inl e \<Rightarrow> f e | Inr v \<Rightarrow> g v) else (case y of Inl e \<Rightarrow> f e | Inr v \<Rightarrow> g v))"
  by simp

end
