(* ===== verification/Zephyr.thy ===== *)
theory Zephyr
  imports Prelude
begin

text \<open>
  The world the firmware runs in. Zephyr's kernel, CAN driver, LittleFS, sockets and USB stack are
  not part of the repository, so they are parameters: an \<open>env\<close> is a record of functions that say
  what each call returns, and a call may return anything that depends on everything the firmware
  has done before. What it has done is the history, the list of the calls made so far with their
  results, oldest first; every operation of the model takes the history and returns it extended.
  An environment is thus an arbitrary deterministic outside world, adversarial unless a theorem
  names a contract it keeps.

  The contracts the code relies on are the locales \<open>sockets\<close>, \<open>message_queue\<close> and \<open>littlefs\<close>
  (documented behaviour of the API); each is interpreted on a reference environment below, so
  the contracts can be met.
\<close>

section \<open>Data of the Zephyr API\<close>

text \<open>\<open>struct can_frame\<close> of a classical CAN controller; \<open>fr_data\<close> is its array of 8 bytes.\<close>

record can_frame =
  fr_id :: u32
  fr_dlc :: u8
  fr_flags :: u8
  fr_data :: "u8 list"

datatype can_state =
    CAN_STATE_ERROR_ACTIVE | CAN_STATE_ERROR_WARNING | CAN_STATE_ERROR_PASSIVE
  | CAN_STATE_BUS_OFF | CAN_STATE_STOPPED | CAN_STATE_OTHER int

definition CAN_MODE_NORMAL :: u32 where [fw_defs]: "CAN_MODE_NORMAL = 0"
definition CAN_MODE_LOOPBACK :: u32 where [fw_defs]: "CAN_MODE_LOOPBACK = 1"
definition CAN_MODE_LISTENONLY :: u32 where [fw_defs]: "CAN_MODE_LISTENONLY = 2"
definition CAN_FRAME_IDE :: u8 where [fw_defs]: "CAN_FRAME_IDE = 1"
definition CAN_FRAME_RTR :: u8 where [fw_defs]: "CAN_FRAME_RTR = 2"
definition CAN_STD_ID_MASK :: int where [fw_defs]: "CAN_STD_ID_MASK = 0x7ff"
definition CAN_EXT_ID_MASK :: int where [fw_defs]: "CAN_EXT_ID_MASK = 0x1fffffff"
definition CAN_MAX_DLC :: nat where [fw_defs]: "CAN_MAX_DLC = 8"

record statvfs =
  f_frsize :: u32
  f_blocks :: u32
  f_bfree :: u32

datatype dirent_type = FS_DIR_ENTRY_FILE | FS_DIR_ENTRY_DIR

record dirent =
  de_type :: dirent_type
  de_size :: nat

datatype open_mode = FS_O_READ | FS_O_CREATE_TRUNC_WRITE

record net_if_addr =
  ifa_is_used :: bool
  ifa_autoconf :: bool
  ifa_preferred :: bool
  ifa_addr :: u32

datatype mutex = Can_lock | Storage_lock
datatype thread = Can_tx_thread | Ws_thread | Http_thread | Mdns_thread
datatype work = Network_work | Watchdog_work | Http_start_work
datatype usb_call = Add_lang | Add_mfr | Add_product | Add_serial | Add_configuration
  | Register_classes | Set_code_triple | Set_self_powered | Usbd_init | Register_cb | Usbd_enable

section \<open>Calls and histories\<close>

text \<open>
  A socket call that fails carries its \<open>errno\<close>, a positive number: \<open>Inl errno\<close>. A receive gives the
  bytes it stored, none when the peer has closed.
\<close>

datatype call =
    K_mutex_lock mutex
  | K_mutex_unlock mutex
  | K_thread_create thread
  | K_thread_start thread
  | K_sleep_ms nat
  | K_uptime int
  | K_work_init work
  | K_work_schedule work nat
  | K_work_reschedule work nat
  | K_work_cancel work
  | K_work_submit work
  | K_reboot
  | Can_set_mode u32 int
  | Can_start int
  | Can_stop int
  | Can_set_bitrate u32 int
  | Can_add_rx_filter int
  | Can_get_state int
  | Can_send can_frame int
  | Fs_mount int
  | Fs_statvfs int
  | Fs_stat string int
  | Fs_mkdir string int
  | Fs_open string open_mode int
  | Fs_read nat "int + u8 list"
  | Fs_write "u8 list" int
  | Fs_sync int
  | Fs_close
  | Sock_socket "nat + int"
  | Sock_bind int "nat option"
  | Sock_listen int "nat option"
  | Sock_accept int "nat + int"
  | Sock_send int "u8 list" "nat + nat"
  | Sock_sendto int "u8 list" "nat option"
  | Sock_recv int nat "nat + u8 list"
  | Sock_poll int "nat + bool"
  | Sock_close int
  | Net_if_up
  | Net_if_down
  | Net_mgmt_init_callback
  | Net_mgmt_add_callback
  | Usb_call usb_call int
  | Gpio_set bool
  | Gpio_toggle

type_synonym hist = "call list"

record env =
  env_uptime_us :: "hist \<Rightarrow> int"
  env_can_ready :: "hist \<Rightarrow> bool"
  env_can_set_mode :: "hist \<Rightarrow> u32 \<Rightarrow> int"
  env_can_start :: "hist \<Rightarrow> int"
  env_can_stop :: "hist \<Rightarrow> int"
  env_can_set_bitrate :: "hist \<Rightarrow> u32 \<Rightarrow> int"
  env_can_add_rx_filter :: "hist \<Rightarrow> int"
  env_can_get_state :: "hist \<Rightarrow> int \<times> can_state \<times> u8 \<times> u8"
  env_can_send :: "hist \<Rightarrow> can_frame \<Rightarrow> int"
  env_fs_mount :: "hist \<Rightarrow> int"
  env_fs_statvfs :: "hist \<Rightarrow> int \<times> statvfs"
  env_fs_stat :: "hist \<Rightarrow> string \<Rightarrow> int \<times> dirent"
  env_fs_mkdir :: "hist \<Rightarrow> string \<Rightarrow> int"
  env_fs_open :: "hist \<Rightarrow> string \<Rightarrow> open_mode \<Rightarrow> int"
  env_fs_read :: "hist \<Rightarrow> nat \<Rightarrow> int + u8 list"
  env_fs_write :: "hist \<Rightarrow> u8 list \<Rightarrow> int"
  env_fs_sync :: "hist \<Rightarrow> int"
  env_socket :: "hist \<Rightarrow> nat + int"
  env_bind :: "hist \<Rightarrow> nat option"
  env_listen :: "hist \<Rightarrow> nat option"
  env_accept :: "hist \<Rightarrow> nat + int"
  env_send :: "hist \<Rightarrow> int \<Rightarrow> u8 list \<Rightarrow> nat + nat"
  env_sendto :: "hist \<Rightarrow> u8 list \<Rightarrow> nat option"
  env_recv :: "hist \<Rightarrow> int \<Rightarrow> nat \<Rightarrow> nat + u8 list"
  env_poll :: "hist \<Rightarrow> int \<Rightarrow> nat + bool"
  env_net_if :: "hist \<Rightarrow> bool"
  env_ipv4 :: "hist \<Rightarrow> net_if_addr list option"
  env_usb :: "hist \<Rightarrow> usb_call \<Rightarrow> int"
  env_gpio_ready :: "hist \<Rightarrow> bool"
  env_gpio_configure :: "hist \<Rightarrow> int"

section \<open>Socket calls and what is observed of them\<close>

definition zsock_send :: "env \<Rightarrow> int \<Rightarrow> u8 list \<Rightarrow> hist \<Rightarrow> (nat + nat) \<times> hist" where
  "zsock_send E fd bs h = (let r = env_send E h fd bs in (r, h @ [Sock_send fd bs r]))"

definition zsock_recv :: "env \<Rightarrow> int \<Rightarrow> nat \<Rightarrow> hist \<Rightarrow> (nat + u8 list) \<times> hist" where
  "zsock_recv E fd n h = (let r = env_recv E h fd n in (r, h @ [Sock_recv fd n r]))"

definition zsock_close :: "int \<Rightarrow> hist \<Rightarrow> hist" where
  "zsock_close fd h = h @ [Sock_close fd]"

text \<open>The bytes the stack has accepted for \<open>fd\<close>, and the bytes it has delivered from it.\<close>

fun sent_by :: "int \<Rightarrow> call \<Rightarrow> u8 list" where
  "sent_by fd (Sock_send fd' bs (Inr n)) = (if fd' = fd then take n bs else [])"
| "sent_by fd _ = []"

definition sent :: "int \<Rightarrow> hist \<Rightarrow> u8 list" where
  "sent fd h = concat (map (sent_by fd) h)"

fun recvd_by :: "int \<Rightarrow> call \<Rightarrow> u8 list" where
  "recvd_by fd (Sock_recv fd' n (Inr bs)) = (if fd' = fd then bs else [])"
| "recvd_by fd _ = []"

definition recvd :: "int \<Rightarrow> hist \<Rightarrow> u8 list" where
  "recvd fd h = concat (map (recvd_by fd) h)"

definition closes :: "int \<Rightarrow> hist \<Rightarrow> nat" where
  "closes fd h = length (filter (\<lambda>c. c = Sock_close fd) h)"

lemma sent_append [hist_simps, simp]: "sent fd (h @ h') = sent fd h @ sent fd h'"
  by (simp add: sent_def)

lemma sent_Nil [hist_simps, simp]: "sent fd [] = []"
  by (simp add: sent_def)

lemma sent_Cons [hist_simps, simp]: "sent fd (c # h) = sent_by fd c @ sent fd h"
  by (simp add: sent_def)

lemma recvd_append [hist_simps, simp]: "recvd fd (h @ h') = recvd fd h @ recvd fd h'"
  by (simp add: recvd_def)

lemma recvd_Nil [hist_simps, simp]: "recvd fd [] = []"
  by (simp add: recvd_def)

lemma recvd_Cons [hist_simps, simp]: "recvd fd (c # h) = recvd_by fd c @ recvd fd h"
  by (simp add: recvd_def)

lemma closes_append [hist_simps, simp]: "closes fd (h @ h') = closes fd h + closes fd h'"
  by (simp add: closes_def)

lemma closes_Nil [hist_simps, simp]: "closes fd [] = 0"
  by (simp add: closes_def)

lemma closes_Cons [hist_simps, simp]:
  "closes fd (c # h) = (if c = Sock_close fd then Suc (closes fd h) else closes fd h)"
  by (simp add: closes_def)

text \<open>The history has been extended by calls of one kind only.\<close>

definition extends :: "(call \<Rightarrow> bool) \<Rightarrow> hist \<Rightarrow> hist \<Rightarrow> bool" where
  "extends P h h' \<longleftrightarrow> (\<exists>cs. h' = h @ cs \<and> list_all P cs)"

lemma extends_refl [simp]: "extends P h h"
  by (simp add: extends_def)

lemma extends_append: "list_all P cs \<Longrightarrow> extends P h (h @ cs)"
  by (auto simp: extends_def)

lemma extends_trans: "extends P h h' \<Longrightarrow> extends P h' h'' \<Longrightarrow> extends P h h''"
  by (auto simp: extends_def)

lemma extends_snoc: "extends P h h' \<Longrightarrow> list_all P cs \<Longrightarrow> extends P h (h' @ cs)"
  by (auto simp: extends_def)

lemma extends_shift: "extends P (h @ cs) h' \<Longrightarrow> list_all P cs \<Longrightarrow> extends P h h'"
  by (auto simp: extends_def)

lemma extends_mono: "extends P h h' \<Longrightarrow> (\<And>c. P c \<Longrightarrow> R c) \<Longrightarrow> extends R h h'"
  by (auto simp: extends_def list_all_iff)

lemma extends_keeps:
  assumes "extends P h h'" and f: "\<And>h c. P c \<Longrightarrow> f (h @ [c]) = f h"
  shows "f h' = f h"
proof -
  obtain cs where "h' = h @ cs" "list_all P cs"
    using assms(1) by (auto simp: extends_def)
  then show ?thesis
  proof (induction cs arbitrary: h' rule: rev_induct)
    case (snoc c cs)
    then show ?case using f [of c "h @ cs"] by simp
  qed simp
qed

section \<open>The contract of the sockets\<close>

text \<open>
  What POSIX promises of \<open>send\<close> and \<open>recv\<close>: at most the bytes asked for are taken or stored, and
  a failure sets a positive \<open>errno\<close>.
\<close>

locale sockets =
  fixes E :: env
  assumes send_len: "env_send E h fd bs = Inr n \<Longrightarrow> n \<le> length bs"
    and send_errno: "env_send E h fd bs = Inl e \<Longrightarrow> 0 < e"
    and recv_len: "env_recv E h fd m = Inr bs \<Longrightarrow> length bs \<le> m"
    and recv_errno: "env_recv E h fd m = Inl e \<Longrightarrow> 0 < e"

text \<open>
  The file calls of LittleFS: a read stores at most what was asked for and fails with a negative
  number, a write takes at most what it was given.
\<close>

locale littlefs =
  fixes E :: env
  assumes fs_read_len: "env_fs_read E h m = Inr bs \<Longrightarrow> length bs \<le> m"
    and fs_read_err: "env_fs_read E h m = Inl e \<Longrightarrow> e < 0"
    and fs_write_len: "env_fs_write E h bs \<le> int (length bs)"

text \<open>The C types of what the driver and the clock return.\<close>

locale can_driver =
  fixes E :: env
  assumes driver_ret: "is_int32 (fst (env_can_get_state E h))" "is_int32 (env_can_stop E h)"
      "is_int32 (env_can_set_mode E h mode)" "is_int32 (env_can_set_bitrate E h bitrate)"
      "is_int32 (env_can_start E h)"
    and uptime: "is_int64 (env_uptime_us E h)"

section \<open>Message queues\<close>

text \<open>
  \<open>k_msgq\<close>: a queue object of type \<open>'q\<close> with the calls the firmware makes on it, all without waiting.
  \<open>mq_get\<close> gives \<open>None\<close> for the non-zero return of an empty queue.
\<close>

record 'q msgq_api =
  mq_put :: "can_frame \<Rightarrow> 'q \<Rightarrow> int \<times> 'q"
  mq_get :: "'q \<Rightarrow> (can_frame \<times> 'q) option"
  mq_purge :: "'q \<Rightarrow> 'q"
  mq_used :: "'q \<Rightarrow> nat"
  mq_free :: "'q \<Rightarrow> nat"

text \<open>The documented contract: a bounded first-in first-out queue; \<open>contents\<close> is what it holds.\<close>

locale message_queue =
  fixes Q :: "'q msgq_api" and contents :: "'q \<Rightarrow> can_frame list" and cap :: nat
  assumes put_room: "length (contents q) < cap \<Longrightarrow>
      fst (mq_put Q f q) = 0 \<and> contents (snd (mq_put Q f q)) = contents q @ [f]"
    and put_full: "cap \<le> length (contents q) \<Longrightarrow>
      fst (mq_put Q f q) < 0 \<and> contents (snd (mq_put Q f q)) = contents q"
    and put_ret_int: "is_int32 (fst (mq_put Q f q))"
    and get_empty: "contents q = [] \<Longrightarrow> mq_get Q q = None"
    and get_head: "contents q = f # fs \<Longrightarrow> \<exists>q'. mq_get Q q = Some (f, q') \<and> contents q' = fs"
    and purge_empty: "contents (mq_purge Q q) = []"
    and used_length: "mq_used Q q = length (contents q)"
    and free_length: "mq_free Q q = cap - length (contents q)"
begin

lemma put_fst: "fst (mq_put Q f q) = 0 \<longleftrightarrow> length (contents q) < cap"
  using put_room [of q f] put_full [of q f] by (cases "length (contents q) < cap") auto

lemma put_ret: "fst (mq_put Q f q) < 0 \<longleftrightarrow> cap \<le> length (contents q)"
  using put_room [of q f] put_full [of q f] by (cases "length (contents q) < cap") auto

lemma put_contents: "contents (snd (mq_put Q f q)) =
    (if length (contents q) < cap then contents q @ [f] else contents q)"
  using put_room [of q f] put_full [of q f] by simp

lemma get_Some: "mq_get Q q = Some (f, q') \<Longrightarrow> contents q = f # contents q'"
  using get_empty [of q] get_head [of q] by (cases "contents q") force+

lemma get_None: "mq_get Q q = None \<longleftrightarrow> contents q = []"
  using get_empty [of q] get_head [of q] by (cases "contents q") force+

lemma put_bounded: "length (contents q) \<le> cap \<Longrightarrow> length (contents (snd (mq_put Q f q))) \<le> cap"
  by (simp add: put_contents)

end

text \<open>The reference queue: the list of its frames, with \<open>-ENOMSG\<close> (35) when it is full.\<close>

definition list_msgq :: "nat \<Rightarrow> can_frame list msgq_api" where
  "list_msgq cap = \<lparr>
     mq_put = (\<lambda>f q. if length q < cap then (0, q @ [f]) else (-35, q)),
     mq_get = (\<lambda>q. case q of [] \<Rightarrow> None | f # fs \<Rightarrow> Some (f, fs)),
     mq_purge = (\<lambda>q. []),
     mq_used = length,
     mq_free = (\<lambda>q. cap - length q) \<rparr>"

interpretation list_q: message_queue "list_msgq cap" "\<lambda>q. q" cap for cap
  by unfold_locales (auto simp: list_msgq_def is_int32_def)

section \<open>A reference environment\<close>

text \<open>
  A board on which every call succeeds: the controller and the file system accept everything,
  a socket takes whole buffers, and \<open>inp\<close> gives what the peer has still to send at each point.
  It meets the contracts, and the concrete runs of the development use it.
\<close>

definition board :: "(hist \<Rightarrow> u8 list) \<Rightarrow> env" where
  "board inp = \<lparr>
     env_uptime_us = (\<lambda>h. 1000),
     env_can_ready = (\<lambda>h. True),
     env_can_set_mode = (\<lambda>h m. 0),
     env_can_start = (\<lambda>h. 0),
     env_can_stop = (\<lambda>h. 0),
     env_can_set_bitrate = (\<lambda>h b. 0),
     env_can_add_rx_filter = (\<lambda>h. 0),
     env_can_get_state = (\<lambda>h. (0, CAN_STATE_ERROR_ACTIVE, 0, 0)),
     env_can_send = (\<lambda>h f. 0),
     env_fs_mount = (\<lambda>h. 0),
     env_fs_statvfs = (\<lambda>h. (0, \<lparr>f_frsize = 4096, f_blocks = 1024, f_bfree = 1000\<rparr>)),
     env_fs_stat = (\<lambda>h p. (0, \<lparr>de_type = (if p = ''/lfs/user'' then FS_DIR_ENTRY_DIR
                                  else FS_DIR_ENTRY_FILE), de_size = 5\<rparr>)),
     env_fs_mkdir = (\<lambda>h p. 0),
     env_fs_open = (\<lambda>h p m. 0),
     env_fs_read = (\<lambda>h n. Inr []),
     env_fs_write = (\<lambda>h bs. int (length bs)),
     env_fs_sync = (\<lambda>h. 0),
     env_socket = (\<lambda>h. Inr 3),
     env_bind = (\<lambda>h. None),
     env_listen = (\<lambda>h. None),
     env_accept = (\<lambda>h. Inr 4),
     env_send = (\<lambda>h fd bs. Inr (length bs)),
     env_sendto = (\<lambda>h bs. None),
     env_recv = (\<lambda>h fd n. Inr (take n (inp h))),
     env_poll = (\<lambda>h fd. Inr True),
     env_net_if = (\<lambda>h. True),
     env_ipv4 = (\<lambda>h. Some [\<lparr>ifa_is_used = True, ifa_autoconf = True, ifa_preferred = True,
                             ifa_addr = 0xA9FE0102\<rparr>]),
     env_usb = (\<lambda>h c. 0),
     env_gpio_ready = (\<lambda>h. True),
     env_gpio_configure = (\<lambda>h. 0) \<rparr>"

interpretation board_sockets: sockets "board inp" for inp
  by unfold_locales (auto simp: board_def)

interpretation board_can: can_driver "board inp" for inp
  by unfold_locales (auto simp: board_def is_int64_def)

interpretation board_fs: littlefs "board inp" for inp
  by unfold_locales (auto simp: board_def)

end
