(* ===== verification/UsbDevice.thy ===== *)
theory UsbDevice
  imports Zephyr
begin

text \<open>
  The start of the USB device, \<open>usb_descriptors.c\<close>: the calls into the USB device stack in their order, each
  checked but the two that cannot fail. The reference is a list of calls run up to the first error.
\<close>

section \<open>The code\<close>

definition usbd_call :: "env \<Rightarrow> usb_call \<Rightarrow> hist \<Rightarrow> int \<times> hist" where
  "usbd_call E c h = (let r = env_usb E h c in (r, h @ [Usb_call c r]))"

text \<open>The context of the device, or \<open>NULL\<close>.\<close>

definition usb_device_init :: "env \<Rightarrow> hist \<Rightarrow> bool \<times> hist" where
  "usb_device_init E h =
     (let (err, h) = usbd_call E Add_lang h in
      if err \<noteq> 0 then (False, h)
      else let (err, h) = usbd_call E Add_mfr h in
      if err \<noteq> 0 then (False, h)
      else let (err, h) = usbd_call E Add_product h in
      if err \<noteq> 0 then (False, h)
      else let (err, h) = usbd_call E Add_serial h in
      if err \<noteq> 0 then (False, h)
      else let (err, h) = usbd_call E Add_configuration h in
      if err \<noteq> 0 then (False, h)
      else let (err, h) = usbd_call E Register_classes h in
      if err \<noteq> 0 then (False, h)
      else let (_, h) = usbd_call E Set_code_triple h;
               (_, h) = usbd_call E Set_self_powered h;
               (err, h) = usbd_call E Usbd_init h in
      if err \<noteq> 0 then (False, h)
      else (True, h))"

section \<open>The reference\<close>

definition usb_plan :: "(usb_call \<times> bool) list" where
  "usb_plan = [(Add_lang, True), (Add_mfr, True), (Add_product, True), (Add_serial, True), (Add_configuration, True),
     (Register_classes, True), (Set_code_triple, False), (Set_self_powered, False), (Usbd_init, True)]"

fun run_plan :: "env \<Rightarrow> (usb_call \<times> bool) list \<Rightarrow> hist \<Rightarrow> bool \<times> hist" where
  "run_plan E [] h = (True, h)"
| "run_plan E ((c, checked) # plan) h =
     (let r = env_usb E h c; h1 = h @ [Usb_call c r] in
      if checked \<and> r \<noteq> 0 then (False, h1) else run_plan E plan h1)"

fun step_ok :: "usb_call \<times> bool \<Rightarrow> call \<Rightarrow> bool" where
  "step_ok (c, checked) (Usb_call c' r) \<longleftrightarrow> c' = c \<and> (checked \<longrightarrow> r = 0)"
| "step_ok _ _ \<longleftrightarrow> False"

lemma usb_device_init_plan: "usb_device_init E h = run_plan E usb_plan h"
  by (simp add: usb_device_init_def usb_plan_def usbd_call_def Let_def)

lemma run_plan_steps:
  "run_plan E plan h = (ok, h') \<Longrightarrow>
    \<exists>cs. h' = h @ cs \<and>
      (if ok then list_all2 step_ok plan cs
       else \<exists>k c r. k < length plan \<and> plan ! k = (c, True) \<and> r \<noteq> 0 \<and>
         (\<exists>ds. cs = ds @ [Usb_call c r] \<and> list_all2 step_ok (take k plan) ds))"
proof (induction E plan h rule: run_plan.induct)
  case (2 E c checked plan h)
  let ?r = "env_usb E h c"
  show ?case
  proof (cases "checked \<and> ?r \<noteq> 0")
    case True
    then have "ok = False" "h' = h @ [Usb_call c ?r]" using 2(2) by (auto simp: Let_def)
    then show ?thesis
      using True by (intro exI [of _ "[Usb_call c ?r]"]) (auto intro!: exI [of _ "0 :: nat"])
  next
    case False
    then have s: "step_ok (c, checked) (Usb_call c ?r)" by simp
    have "run_plan E plan (h @ [Usb_call c ?r]) = (ok, h')" using 2(2) False by (simp add: Let_def)
    from 2(1) [OF refl refl False this] obtain cs where cs: "h' = h @ Usb_call c ?r # cs"
      "if ok then list_all2 step_ok plan cs
       else \<exists>k c r. k < length plan \<and> plan ! k = (c, True) \<and> r \<noteq> 0 \<and>
         (\<exists>ds. cs = ds @ [Usb_call c r] \<and> list_all2 step_ok (take k plan) ds)"
      by auto
    show ?thesis
    proof (cases ok)
      case True
      then show ?thesis using cs s by (intro exI [of _ "Usb_call c ?r # cs"]) simp
    next
      case nok: False
      then obtain k c' r' ds where "k < length plan" "plan ! k = (c', True)" "r' \<noteq> 0"
        "cs = ds @ [Usb_call c' r']" "list_all2 step_ok (take k plan) ds"
        using cs(2) by auto
      then show ?thesis
        using cs(1) s nok
        by (intro exI [of _ "Usb_call c ?r # cs"]) (auto intro!: exI [of _ "Suc k"])
    qed
  qed
qed simp

section \<open>Properties\<close>

text \<open>
  The device is returned exactly when the nine calls of the plan have been made in order and all the checked
  ones succeeded; otherwise the last call made is the first checked one that failed, and nothing is called after it.
\<close>

theorem usb_init_in_order:
  assumes "usb_device_init E h = (ok, h')"
  shows "\<exists>cs. h' = h @ cs \<and>
    (if ok then list_all2 step_ok usb_plan cs
     else \<exists>k c r. k < 9 \<and> usb_plan ! k = (c, True) \<and> r \<noteq> 0 \<and>
       (\<exists>ds. cs = ds @ [Usb_call c r] \<and> list_all2 step_ok (take k usb_plan) ds))"
proof -
  have l: "length usb_plan = 9" by (simp add: usb_plan_def)
  show ?thesis using run_plan_steps [OF assms [unfolded usb_device_init_plan]] unfolding l .
qed

theorem usb_init_in_order_witness:
  "\<exists>cs. usb_device_init (board (\<lambda>h. [])) [] = (True, cs) \<and> list_all2 step_ok usb_plan cs"
proof -
  obtain ok h' where i: "usb_device_init (board (\<lambda>h. [])) [] = (ok, h')" by force
  have "fst (usb_device_init (board (\<lambda>h. [])) []) = True" by code_simp
  then have "ok = True" using i by simp
  then show ?thesis using usb_init_in_order [OF i] i by auto
qed

end
