(* ===== verification/Sha1.thy ===== *)
theory Sha1
  imports Prelude
begin

text \<open>
  The SHA-1 of \<open>http_server.c\<close> (used for \<open>Sec-WebSocket-Accept\<close>): the context, the compression
  of a block with its 80-word schedule, the streaming \<open>init\<close>, \<open>update\<close> and \<open>final\<close>. The
  reference is FIPS 180-4 over a whole padded message; the streaming interface is a locale,
  interpreted on the model's functions.
\<close>

section \<open>The code\<close>

record sha1_ctx =
  sha_state :: "u32 list"
  sha_bit_count :: u64
  sha_buffer :: "u8 list"

definition sha1_rol :: "u32 \<Rightarrow> nat \<Rightarrow> u32" where
  "sha1_rol value bits = push_bit bits value OR drop_bit (32 - bits) value"

text \<open>The loops that fill \<open>w[0..15]\<close> from the block and \<open>w[16..79]\<close> from the words before.\<close>

definition sha1_load :: "u8 list \<Rightarrow> nat \<Rightarrow> u32" where
  "sha1_load block i =
     push_bit 24 (ucast (block ! (i * 4))) OR
     push_bit 16 (ucast (block ! (i * 4 + 1))) OR
     push_bit 8 (ucast (block ! (i * 4 + 2))) OR
     ucast (block ! (i * 4 + 3))"

definition sha1_expand :: "u32 list \<Rightarrow> nat \<Rightarrow> u32 list" where
  "sha1_expand w i =
     w @ [sha1_rol (w ! (i - 3) XOR w ! (i - 8) XOR w ! (i - 14) XOR w ! (i - 16)) 1]"

definition sha1_schedule :: "u8 list \<Rightarrow> u32 list" where
  "sha1_schedule block = foldl sha1_expand (map (sha1_load block) [0..<16]) [16..<80]"

text \<open>One iteration of the main loop over the five working variables.\<close>

type_synonym vars = "u32 \<times> u32 \<times> u32 \<times> u32 \<times> u32"

definition sha1_round :: "u32 list \<Rightarrow> vars \<Rightarrow> nat \<Rightarrow> vars" where
  "sha1_round w s i =
     (let (a, b, c, d, e) = s;
          (f, k) = (if i < 20 then ((b AND c) OR (NOT b AND d), 0x5a827999)
                    else if i < 40 then (b XOR c XOR d, 0x6ed9eba1)
                    else if i < 60 then ((b AND c) OR (b AND d) OR (c AND d), 0x8f1bbcdc)
                    else (b XOR c XOR d, 0xca62c1d6));
          temp = sha1_rol a 5 + f + e + k + w ! i
      in (temp, a, sha1_rol b 30, c, d))"

definition sha1_transform :: "sha1_ctx \<Rightarrow> u8 list \<Rightarrow> sha1_ctx" where
  "sha1_transform ctx block =
     (let w = sha1_schedule block;
          st = sha_state ctx;
          (a, b, c, d, e) =
            foldl (sha1_round w) (st ! 0, st ! 1, st ! 2, st ! 3, st ! 4) [0..<80]
      in ctx\<lparr>sha_state := [st ! 0 + a, st ! 1 + b, st ! 2 + c, st ! 3 + d, st ! 4 + e]\<rparr>)"

definition sha1_init :: sha1_ctx where
  "sha1_init = \<lparr>
     sha_state = [0x67452301, 0xefcdab89, 0x98badcfe, 0x10325476, 0xc3d2e1f0],
     sha_bit_count = 0,
     sha_buffer = replicate 64 0 \<rparr>"

definition sha1_index :: "sha1_ctx \<Rightarrow> nat" where
  "sha1_index ctx = unat (sha_bit_count ctx) div 8 mod 64"

text \<open>
  The loop of \<open>sha1_update\<close>. \<open>index\<close> stays below 64: the code computes it modulo the size of the
  buffer and resets it at 64 (the loop would not progress with \<open>index = 64\<close>; the model stops there).
\<close>

function sha1_update_loop :: "sha1_ctx \<Rightarrow> nat \<Rightarrow> u8 list \<Rightarrow> sha1_ctx" where
  "sha1_update_loop ctx index data =
     (if data = [] \<or> 64 \<le> index then ctx
      else let space = 64 - index;
               chunk = min (length data) space;
               buffer = take index (sha_buffer ctx) @ take chunk data @
                        drop (index + chunk) (sha_buffer ctx);
               ctx1 = ctx\<lparr>sha_buffer := buffer\<rparr>;
               index1 = index + chunk;
               data1 = drop chunk data
           in if index1 = 64 then sha1_update_loop (sha1_transform ctx1 buffer) 0 data1
              else sha1_update_loop ctx1 index1 data1)"
  by pat_completeness auto
termination
  by (relation "measure (\<lambda>(ctx, index, data). length data)") (auto simp: Let_def)

declare sha1_update_loop.simps [simp del]

text \<open>
  The bit count has 64 bits, but \<open>len * 8U\<close> is a product of \<open>size_t\<close>, 32 bits on this target: it wraps for a
  piece of 512 MiB or more.
\<close>

definition sha1_update :: "sha1_ctx \<Rightarrow> u8 list \<Rightarrow> sha1_ctx" where
  "sha1_update ctx data =
     (let index = unat (sha_bit_count ctx) div 8 mod 64;
          ctx1 = ctx\<lparr>sha_bit_count := sha_bit_count ctx + ucast (word_of_nat (length data) * 8 :: u32)\<rparr>
      in sha1_update_loop ctx1 index data)"

lemma sha1_transform_frame [simp]:
  "sha_bit_count (sha1_transform ctx block) = sha_bit_count ctx"
  "sha_buffer (sha1_transform ctx block) = sha_buffer ctx"
  "length (sha_state (sha1_transform ctx block)) = 5"
  by (simp_all add: sha1_transform_def Let_def split: prod.splits)

lemma sha1_update_loop_bit_count [simp]:
  "sha_bit_count (sha1_update_loop ctx index data) = sha_bit_count ctx"
proof (induction ctx index data rule: sha1_update_loop.induct)
  case (1 ctx index data)
  then show ?case
    by (subst sha1_update_loop.simps) (auto simp: Let_def)
qed

lemma bits_of_piece: "n < 2 ^ 29 \<Longrightarrow> ucast (word_of_nat n * 8 :: u32) = (word_of_nat n * 8 :: u64)"
proof -
  assume n: "n < 2 ^ 29"
  have "ucast (word_of_nat (8 * n) :: u32) = (word_of_nat (take_bit 32 (8 * n)) :: u64)"
    by (simp only: unsigned_of_nat) simp
  also have "take_bit 32 (8 * n) = 8 * n" using n by (simp add: take_bit_eq_mod)
  finally show ?thesis by (simp add: mult.commute)
qed

lemma sha1_update_bit_count [simp]:
  "length data < 2 ^ 29 \<Longrightarrow> sha_bit_count (sha1_update ctx data) = sha_bit_count ctx + word_of_nat (length data) * 8"
  by (simp add: sha1_update_def Let_def bits_of_piece)

text \<open>A piece of 512 MiB is not counted at all.\<close>

lemma sha1_update_wraps: "length data = 2 ^ 29 \<Longrightarrow> sha_bit_count (sha1_update ctx data) = sha_bit_count ctx"
  by (simp add: sha1_update_def Let_def)

lemma div_8_add: "(n + 8) div 8 = Suc (n div 8)" for n :: nat
  by arith

text \<open>One zero byte brings the padding one step nearer.\<close>

lemma pad_step:
  assumes "i < 64" and "i \<noteq> (56::nat)"
  shows "(120 - i) mod 64 = Suc ((120 - (i + 1) mod 64) mod 64)"
proof -
  consider "i < 56" | "56 < i" "i < 63" | "i = 63"
    using assms by linarith
  then show ?thesis
  proof cases
    case 1
    then have "120 - i = 64 + (56 - i)" "120 - (i + 1) mod 64 = 64 + (55 - i)" by simp_all
    with 1 show ?thesis by (simp only: mod_add_self1) simp
  next
    case 2
    then show ?thesis by simp
  qed simp
qed

lemma index_add_8: "unat (x + 8 :: u64) div 8 mod 64 = (unat x div 8 + 1) mod 64"
proof (cases "unat x + 8 < 2 ^ 64")
  case True
  then have "unat (x + 8) = unat x + 8"
    by (simp add: unat_word_ariths)
  then show ?thesis by (simp add: div_8_add)
next
  case False
  have "unat x < 2 ^ 64"
    using unsigned_less [of x, where ?'a = nat] by simp
  with False obtain r where r: "unat x = 8 * (2 ^ 61 - 1) + r" "r < 8"
    using that [of "unat x - 8 * (2 ^ 61 - 1)"] by auto
  then have "unat (x + 8) = r"
    by (simp add: unat_word_ariths mod_if)
  moreover have "unat x div 8 = 2 ^ 61 - 1"
    using r by simp
  ultimately show ?thesis
    using r by simp
qed

text \<open>The loop of \<open>sha1_final\<close> that feeds zero bytes until the index is 56.\<close>

function sha1_pad :: "sha1_ctx \<Rightarrow> sha1_ctx" where
  "sha1_pad ctx =
     (if unat (sha_bit_count ctx) div 8 mod 64 = 56 then ctx
      else sha1_pad (sha1_update ctx [0]))"
  by pat_completeness auto
termination
proof (relation "measure (\<lambda>ctx. (120 - unat (sha_bit_count ctx) div 8 mod 64) mod 64)", goal_cases)
  case 1
  then show ?case by simp
next
  case (2 ctx)
  let ?i = "unat (sha_bit_count ctx) div 8 mod 64"
  have "?i < 64" by simp
  have n: "unat (sha_bit_count ctx + 8) div 8 mod 64 = (?i + 1) mod 64"
    by (simp add: index_add_8 mod_Suc_eq)
  have "(120 - (?i + 1) mod 64) mod 64 < (120 - ?i) mod 64"
    using pad_step [OF \<open>?i < 64\<close>] 2 by simp
  then show ?case
    using n by simp
qed

declare sha1_pad.simps [simp del]

definition sha1_digest :: "u32 list \<Rightarrow> u8 list" where
  "sha1_digest st = concat (map (\<lambda>i.
     [ucast (drop_bit 24 (st ! i)), ucast (drop_bit 16 (st ! i)),
      ucast (drop_bit 8 (st ! i)), ucast (st ! i)]) [0..<5])"

definition sha1_final :: "sha1_ctx \<Rightarrow> u8 list" where
  "sha1_final ctx =
     (let bits = sha_bit_count ctx;
          ctx1 = sha1_update ctx [0x80];
          ctx2 = sha1_pad ctx1;
          len_buf = map (\<lambda>j. ucast (drop_bit ((7 - j) * 8) bits)) [0..<8];
          ctx3 = sha1_update ctx2 len_buf
      in sha1_digest (sha_state ctx3))"

section \<open>The reference: FIPS 180-4\<close>

text \<open>
  The standard over a whole message: the message schedule by its recurrence, the functions Ch,
  Parity and Maj with exclusive or, rotation from the word library, and the padding in one piece.
\<close>

fun fips_W :: "u8 list \<Rightarrow> nat \<Rightarrow> u32" where
  "fips_W M t =
     (if t < 16 then word_rcat (take 4 (drop (4 * t) M))
      else word_rotl 1 (fips_W M (t - 3) XOR fips_W M (t - 8) XOR fips_W M (t - 14) XOR
                        fips_W M (t - 16)))"

declare fips_W.simps [simp del]

definition fips_f :: "nat \<Rightarrow> u32 \<Rightarrow> u32 \<Rightarrow> u32 \<Rightarrow> u32" where
  "fips_f t x y z =
     (if t < 20 then (x AND y) XOR (NOT x AND z)
      else if 40 \<le> t \<and> t < 60 then (x AND y) XOR (x AND z) XOR (y AND z)
      else x XOR y XOR z)"

definition fips_K :: "nat \<Rightarrow> u32" where
  "fips_K t = [0x5a827999, 0x6ed9eba1, 0x8f1bbcdc, 0xca62c1d6] ! (t div 20)"

definition fips_step :: "u8 list \<Rightarrow> vars \<Rightarrow> nat \<Rightarrow> vars" where
  "fips_step M s t =
     (case s of (a, b, c, d, e) \<Rightarrow>
        (word_rotl 5 a + fips_f t b c d + e + fips_K t + fips_W M t, a, word_rotl 30 b, c, d))"

definition fips_block :: "u32 list \<Rightarrow> u8 list \<Rightarrow> u32 list" where
  "fips_block H M =
     (case foldl (fips_step M) (H ! 0, H ! 1, H ! 2, H ! 3, H ! 4) [0..<80] of
        (a, b, c, d, e) \<Rightarrow> [H ! 0 + a, H ! 1 + b, H ! 2 + c, H ! 3 + d, H ! 4 + e])"

definition fips_H0 :: "u32 list" where
  "fips_H0 = [0x67452301, 0xefcdab89, 0x98badcfe, 0x10325476, 0xc3d2e1f0]"

function blocks64 :: "u8 list \<Rightarrow> u8 list list" where
  "blocks64 m = (if length m < 64 then [] else take 64 m # blocks64 (drop 64 m))"
  by pat_completeness auto
termination
  by (relation "measure length") auto

declare blocks64.simps [simp del]

definition fips_pad :: "u8 list \<Rightarrow> u8 list" where
  "fips_pad m = m @ [0x80] @ replicate ((119 - length m mod 64) mod 64) 0 @
     be_bytes 8 (8 * length m)"

definition fips_sha1 :: "u8 list \<Rightarrow> u8 list" where
  "fips_sha1 m =
     concat (map (\<lambda>x. be_bytes 4 (unat x)) (foldl fips_block fips_H0 (blocks64 (fips_pad m))))"

section \<open>The compression function implements the standard\<close>

lemma bit_ge_length: "LENGTH('a) \<le> j \<Longrightarrow> \<not> bit x j" for x :: "'a::len word"
  using bit_imp_le_length leD by blast

lemma sha1_rol_rotl:
  assumes n: "0 < n" "n < 32"
  shows "sha1_rol x n = word_rotl n x"
proof (rule bit_word_eqI)
  fix k :: nat
  assume "k < LENGTH(32)"
  then have k: "k < 32" by simp
  have l: "bit (sha1_rol x n) k \<longleftrightarrow> n \<le> k \<and> bit x (k - n) \<or> bit x (k + (32 - n))"
    using k by (simp add: sha1_rol_def bit_simps add.commute)
  have r: "bit (word_rotl n x) k \<longleftrightarrow> bit x ((k + (32 - n)) mod 32)"
  proof -
    have L: "LENGTH(32) = 32" by simp
    show ?thesis
      unfolding bit_word_rotl_iff L using k n by (simp only: mod_less simp_thms)
  qed
  show "bit (sha1_rol x n) k = bit (word_rotl n x) k"
  proof (cases "k < n")
    case True
    then have "(k + (32 - n)) mod 32 = k + (32 - n)" using n by simp
    with True show ?thesis by (simp only: l r) simp
  next
    case False
    then have "k + (32 - n) = 32 + (k - n)" "k - n < 32" using n k by simp_all
    then have "(k + (32 - n)) mod 32 = k - n" "\<not> bit x (k + (32 - n))"
      by (simp_all only: mod_add_self1 mod_less) (simp add: bit_ge_length)
    with False show ?thesis by (simp only: l r) simp
  qed
qed

lemma ch_xor: "(b AND c) OR (NOT b AND d) = (b AND c) XOR (NOT b AND d)" for b :: u32
  by (rule bit_word_eqI) (auto simp: bit_simps)

lemma maj_xor: "(b AND c) OR (b AND d) OR (c AND d) = (b AND c) XOR (b AND d) XOR (c AND d)"
  for b :: u32
  by (rule bit_word_eqI) (auto simp: bit_simps)

lemma sha1_round_fips:
  assumes "i < 80" and "w ! i = fips_W M i"
  shows "sha1_round w s i = fips_step M s i"
proof -
  have "i div 20 = (if i < 20 then 0 else if i < 40 then 1 else if i < 60 then 2 else 3)"
    using assms(1) by auto
  then show ?thesis
    using assms
    by (auto simp: sha1_round_def fips_step_def fips_f_def fips_K_def sha1_rol_rotl ch_xor maj_xor
        split: prod.splits)
qed

lemma rcat4: "length xs = 4 \<Longrightarrow> word_rcat xs =
    push_bit 24 (ucast (xs ! 0)) OR push_bit 16 (ucast (xs ! 1)) OR
    push_bit 8 (ucast (xs ! 2)) OR (ucast (xs ! 3) :: u32)" for xs :: "u8 list"
proof (rule bit_word_eqI)
  fix k :: nat
  assume l: "length xs = 4" and "k < LENGTH(32)"
  then have k: "k < 32" by simp
  have b: "\<And>x :: u8. \<And>j. 8 \<le> j \<Longrightarrow> \<not> bit x j"
    by (rule bit_ge_length) simp
  have h: "bit (horner_sum uint 256 (rev xs) :: int) k \<longleftrightarrow>
      k div 8 < 4 \<and> bit (rev xs ! (k div 8)) (k - 8 * (k div 8))"
    using bit_horner_sum_uint_exp_iff [of "rev xs" k] l by (simp add: minus_mult_div_eq_mod)
  consider "k div 8 = 0" "k < 8" | "k div 8 = 1" "8 \<le> k" "k < 16"
    | "k div 8 = 2" "16 \<le> k" "k < 24" | "k div 8 = 3" "24 \<le> k"
    using k by fastforce
  then show "bit (word_rcat xs :: u32) k = bit (push_bit 24 (ucast (xs ! 0)) OR
      push_bit 16 (ucast (xs ! 1)) OR push_bit 8 (ucast (xs ! 2)) OR (ucast (xs ! 3) :: u32)) k"
    using l k by cases (simp_all add: word_rcat_def bit_simps h rev_nth b less_diff_conv2)
qed

lemma sha1_load_fips:
  assumes "length M = 64" and "i < 16"
  shows "sha1_load M i = fips_W M i"
proof -
  have "length (take 4 (drop (4 * i) M)) = 4"
    using assms by simp
  from rcat4 [OF this] show ?thesis
    using assms by (simp add: fips_W.simps [of M i] sha1_load_def mult.commute)
qed

lemma sha1_schedule_upto:
  assumes "length M = 64" and "16 \<le> k" and "k \<le> 80"
  shows "foldl sha1_expand (map (sha1_load M) [0..<16]) [16..<k] = map (fips_W M) [0..<k]"
  using assms(2,3)
proof (induction k rule: dec_induct)
  case base
  then show ?case
    using assms(1) by (auto simp: sha1_load_fips simp del: upt_rec_numeral)
next
  case (step k)
  then have "foldl sha1_expand (map (sha1_load M) [0..<16]) [16..<k] = map (fips_W M) [0..<k]"
    by simp
  with step show ?case
    by (simp add: sha1_expand_def fips_W.simps [of M k] sha1_rol_rotl
        del: upt_rec_numeral upt_Suc add: upt_Suc_append)
qed

lemma sha1_schedule_fips: "length M = 64 \<Longrightarrow> sha1_schedule M = map (fips_W M) [0..<80]"
  unfolding sha1_schedule_def by (rule sha1_schedule_upto) simp_all

lemma sha1_rounds_fips:
  "length M = 64 \<Longrightarrow> k \<le> 80 \<Longrightarrow>
     foldl (sha1_round (sha1_schedule M)) s [0..<k] = foldl (fips_step M) s [0..<k]"
  by (induction k) (simp_all add: sha1_round_fips sha1_schedule_fips)

lemma sha1_transform_fips:
  "length M = 64 \<Longrightarrow> sha_state (sha1_transform ctx M) = fips_block (sha_state ctx) M"
  using sha1_rounds_fips [of M 80]
  by (simp add: sha1_transform_def fips_block_def Let_def del: upt_rec_numeral split: prod.split)

section \<open>Streaming\<close>

text \<open>
  The context after the bytes \<open>full @ rest\<close>: the state is that of the full blocks and the buffer
  starts with the rest.
\<close>

definition sha1_holds :: "sha1_ctx \<Rightarrow> u8 list \<Rightarrow> u8 list \<Rightarrow> bool" where
  "sha1_holds ctx full rest \<longleftrightarrow>
     64 dvd length full \<and> length rest < 64 \<and> length (sha_buffer ctx) = 64 \<and>
     take (length rest) (sha_buffer ctx) = rest \<and>
     sha_state ctx = foldl fips_block fips_H0 (blocks64 full)"

definition sha1_repr :: "sha1_ctx \<Rightarrow> u8 list \<Rightarrow> bool" where
  "sha1_repr ctx d \<longleftrightarrow>
     sha_bit_count ctx = word_of_nat (8 * length d) \<and>
     (\<exists>full rest. d = full @ rest \<and> sha1_holds ctx full rest)"

lemma blocks64_append: "64 dvd length xs \<Longrightarrow> blocks64 (xs @ ys) = blocks64 xs @ blocks64 ys"
proof (induction xs rule: blocks64.induct)
  case (1 xs)
  show ?case
  proof (cases "xs = []")
    case True
    then show ?thesis by (simp add: blocks64.simps [of "[]"])
  next
    case False
    with "1.prems" have l: "64 \<le> length xs" "64 dvd length (drop 64 xs)"
      by (auto simp: dvd_imp_le dvd_diff_nat)
    then show ?thesis
      using "1.IH" by (simp add: blocks64.simps [of xs] blocks64.simps [of "xs @ ys"])
  qed
qed

lemma blocks64_one: "length b = 64 \<Longrightarrow> blocks64 b = [b]"
  by (simp add: blocks64.simps [of b] blocks64.simps [of "[]"])

lemma sha1_holds_init: "sha1_holds sha1_init [] []"
  by (simp add: sha1_holds_def sha1_init_def fips_H0_def blocks64.simps [of "[]"])

lemma sha1_repr_init: "sha1_repr sha1_init []"
  using sha1_holds_init by (auto simp: sha1_repr_def) (simp add: sha1_init_def)

lemma sha1_update_loop_holds:
  "sha1_holds ctx full rest \<Longrightarrow> index = length rest \<Longrightarrow>
     \<exists>full' rest'. full @ rest @ data = full' @ rest' \<and>
       sha1_holds (sha1_update_loop ctx index data) full' rest'"
proof (induction ctx index data arbitrary: full rest rule: sha1_update_loop.induct)
  case (1 ctx index data)
  let ?chunk = "min (length data) (64 - index)"
  let ?buf = "take index (sha_buffer ctx) @ take ?chunk data @ drop (index + ?chunk) (sha_buffer ctx)"
  let ?ctx1 = "ctx\<lparr>sha_buffer := ?buf\<rparr>"
  have h: "64 dvd length full" "length rest < 64" "length (sha_buffer ctx) = 64"
    "take index (sha_buffer ctx) = rest" "sha_state ctx = foldl fips_block fips_H0 (blocks64 full)"
    using "1.prems" by (auto simp: sha1_holds_def)
  show ?case
  proof (cases "data = []")
    case True
    with "1.prems" show ?thesis by (subst sha1_update_loop.simps) auto
  next
    case False
    have i: "index < 64" using "1.prems" h by simp
    have bl: "length ?buf = 64" using h i "1.prems" by simp
    show ?thesis
    proof (cases "index + ?chunk = 64")
      case True
      let ?b = "rest @ take ?chunk data"
      have b: "?buf = ?b" "length ?b = 64"
        using True h "1.prems" by simp_all
      then have "sha1_holds (sha1_transform ?ctx1 ?b) (full @ ?b) []"
        using h by (simp add: sha1_holds_def sha1_transform_fips blocks64_append blocks64_one)
      from "1.IH"(1) [OF _ refl refl refl refl refl refl True, of "full @ ?b" "[]"] this b(1) False i
      obtain full' rest' where "(full @ ?b) @ [] @ drop ?chunk data = full' @ rest'"
        "sha1_holds (sha1_update_loop (sha1_transform ?ctx1 ?buf) 0 (drop ?chunk data)) full' rest'"
        by auto
      then show ?thesis
        using True False i by (subst sha1_update_loop.simps) (auto simp: Let_def)
    next
      case less: False
      let ?r = "rest @ take ?chunk data"
      have "sha1_holds ?ctx1 full ?r" "index + ?chunk = length ?r"
        using h bl less i "1.prems" by (auto simp: sha1_holds_def)
      with "1.IH"(2) [OF _ refl refl refl refl refl refl less, of full ?r] False i
      obtain full' rest' where "full @ ?r @ drop ?chunk data = full' @ rest'"
        "sha1_holds (sha1_update_loop ?ctx1 (index + ?chunk) (drop ?chunk data)) full' rest'"
        by auto
      then show ?thesis
        using less False i by (subst sha1_update_loop.simps) (auto simp: Let_def)
    qed
  qed
qed

lemma index_of_length: "unat (word_of_nat (8 * n) :: u64) div 8 mod 64 = n mod 64"
proof -
  have "8 * n mod 2 ^ 64 = 8 * (n mod 2 ^ 61)"
    using mult_mod_right [of 8 n "2 ^ 61"] by simp
  moreover have "unat (word_of_nat m :: u64) = m mod 2 ^ 64" for m
    by (simp add: unat_of_nat)
  ultimately have "unat (word_of_nat (8 * n) :: u64) = 8 * (n mod 2 ^ 61)"
    by (simp only:)
  then have "unat (word_of_nat (8 * n) :: u64) div 8 mod 64 = n mod 2 ^ 61 mod 64"
    by (simp only:) simp
  also have "\<dots> = n mod 64"
    by (rule mod_mod_cancel) simp
  finally show ?thesis .
qed

lemma sha1_holds_rest: "sha1_holds ctx full rest \<Longrightarrow> length (full @ rest) mod 64 = length rest"
  by (auto simp: sha1_holds_def elim!: dvdE)

lemma sha1_repr_update: "sha1_repr ctx d \<Longrightarrow> length x < 2 ^ 29 \<Longrightarrow> sha1_repr (sha1_update ctx x) (d @ x)"
proof -
  assume r: "sha1_repr ctx d" and l: "length x < 2 ^ 29"
  then obtain full rest where d: "d = full @ rest" and h: "sha1_holds ctx full rest"
    and bc: "sha_bit_count ctx = word_of_nat (8 * length d)"
    by (auto simp: sha1_repr_def)
  let ?ctx1 = "ctx\<lparr>sha_bit_count := sha_bit_count ctx + ucast (word_of_nat (length x) * 8 :: u32)\<rparr>"
  have h1: "sha1_holds ?ctx1 full rest"
    using h by (simp add: sha1_holds_def)
  have "unat (sha_bit_count ctx) div 8 mod 64 = length d mod 64"
    unfolding bc by (rule index_of_length)
  then have i: "unat (sha_bit_count ctx) div 8 mod 64 = length rest"
    using sha1_holds_rest [OF h] d by simp
  from sha1_update_loop_holds [OF h1 i, of x] obtain full' rest' where
    "full @ rest @ x = full' @ rest'" "sha1_holds (sha1_update ctx x) full' rest'"
    unfolding sha1_update_def Let_def by blast
  moreover have "sha_bit_count (sha1_update ctx x) = word_of_nat (8 * length (d @ x))"
    using l by (simp add: bc algebra_simps)
  ultimately show ?thesis
    using d by (auto simp: sha1_repr_def)
qed

lemma sha1_repr_pad:
  "sha1_repr ctx d \<Longrightarrow> sha1_repr (sha1_pad ctx) (d @ replicate ((120 - length d mod 64) mod 64) 0)"
proof (induction ctx arbitrary: d rule: sha1_pad.induct)
  case (1 ctx)
  have i: "unat (sha_bit_count ctx) div 8 mod 64 = length d mod 64"
    using "1.prems" by (simp only: sha1_repr_def index_of_length)
  show ?case
  proof (cases "length d mod 64 = 56")
    case True
    then show ?thesis using "1.prems" i by (simp add: sha1_pad.simps [of ctx])
  next
    case False
    let ?k = "\<lambda>n. (120 - n mod 64) mod 64"
    have "sha1_repr (sha1_pad (sha1_update ctx [0])) ((d @ [0]) @ replicate (?k (length (d @ [0]))) 0)"
      using False i by (intro "1.IH" sha1_repr_update "1.prems") simp_all
    moreover have "?k (length d) = Suc (?k (length (d @ [0])))"
      using pad_step [of "length d mod 64"] False by (simp add: mod_Suc_eq)
    ultimately show ?thesis
      using False i by (simp add: sha1_pad.simps [of ctx])
  qed
qed

lemma be_bytes_drop_bit:
  "map (\<lambda>j. ucast (drop_bit ((7 - j) * 8) (word_of_nat n :: u64))) [0..<8] = be_bytes 8 n"
proof -
  have "ucast (drop_bit (k * 8) (word_of_nat n :: u64)) = (word_of_nat (n div 256 ^ k) :: u8)"
    if "k < 8" for k
  proof (rule bit_word_eqI)
    fix i :: nat
    assume "i < LENGTH(8)"
    then have i: "i < 8" by simp
    have "(256::nat) ^ k = 2 ^ (k * 8)" by (simp add: mult.commute [of k] power_mult)
    then have "(word_of_nat (n div 256 ^ k) :: u8) = word_of_nat (drop_bit (k * 8) n)"
      by (simp add: drop_bit_eq_div)
    then show "bit (ucast (drop_bit (k * 8) (word_of_nat n :: u64)) :: u8) i =
        bit (word_of_nat (n div 256 ^ k) :: u8) i"
      using i that by (simp add: bit_simps)
  qed
  then show ?thesis
    by (simp add: be_bytes_def)
qed

lemma digest_bytes: "[ucast (drop_bit 24 x), ucast (drop_bit 16 x), ucast (drop_bit 8 x), ucast x]
    = be_bytes 4 (unat (x :: u32))"
proof -
  have "ucast (drop_bit k x) = (word_of_nat (unat x div 2 ^ k) :: u8)" for k
  proof (rule bit_word_eqI)
    fix i :: nat
    assume "i < LENGTH(8)"
    then show "bit (ucast (drop_bit k x) :: u8) i = bit (word_of_nat (unat x div 2 ^ k) :: u8) i"
      by (simp add: bit_simps flip: drop_bit_eq_div)
  qed
  from this [of 24] this [of 16] this [of 8] this [of 0] have "ucast (drop_bit 24 x) =
      (word_of_nat (unat x div 256 ^ 3) :: u8)" "ucast (drop_bit 16 x) =
      (word_of_nat (unat x div 256 ^ 2) :: u8)" "ucast (drop_bit 8 x) =
      (word_of_nat (unat x div 256) :: u8)" "ucast x = (word_of_nat (unat x) :: u8)"
    by simp_all
  moreover have "[0..<4] = [0, 1, 2, 3 :: nat]"
    by (simp add: upt_rec)
  ultimately show ?thesis
    by (simp add: be_bytes_def)
qed

lemma foldl_fips_block_length: "length H = 5 \<Longrightarrow> length (foldl fips_block H bs) = 5"
  by (induction bs arbitrary: H) (simp_all add: fips_block_def split: prod.split)

lemma sha1_digest_bytes: "length st = 5 \<Longrightarrow>
    sha1_digest st = concat (map (\<lambda>x. be_bytes 4 (unat x)) st)"
proof -
  assume "length st = 5"
  then have "map (\<lambda>x. be_bytes 4 (unat x)) st = map (\<lambda>i. be_bytes 4 (unat (st ! i))) [0..<5]"
    by (intro nth_equalityI) simp_all
  then show ?thesis
    by (simp only: sha1_digest_def digest_bytes)
qed

lemma pad_total: "(n + 9 + (119 - n mod 64) mod 64) mod 64 = 0" for n :: nat
proof -
  define q r where "q = n div 64" and "r = n mod 64"
  then have n: "n = 64 * q + r" and r: "r < 64"
    by simp_all
  show ?thesis
  proof (cases "r \<le> 55")
    case True
    then have "119 - r = 64 + (55 - r)" by simp
    then have "(119 - r) mod 64 = 55 - r" by (simp only: mod_add_self1) simp
    then have "n + 9 + (119 - n mod 64) mod 64 = 64 * (q + 1)"
      using True by (simp add: n r_def [symmetric])
    then show ?thesis by (simp only: mod_mult_self1_is_0)
  next
    case False
    then have "(119 - r) mod 64 = 119 - r" using r by simp
    then have "n + 9 + (119 - n mod 64) mod 64 = 64 * (q + 2)"
      using False r by (simp add: r_def [symmetric]) (simp add: n)
    then show ?thesis by (simp only: mod_mult_self1_is_0)
  qed
qed

lemma sha1_final_fips:
  assumes "sha1_repr ctx d"
  shows "sha1_final ctx = fips_sha1 d"
proof -
  let ?pad = "d @ [0x80] @ replicate ((119 - length d mod 64) mod 64) 0"
  have bc: "sha_bit_count ctx = word_of_nat (8 * length d)"
    using assms by (simp add: sha1_repr_def)
  have k: "(120 - length (d @ [0x80 :: u8]) mod 64) mod 64 = (119 - length d mod 64) mod 64"
    by (cases "length d mod 64 = 63") (auto simp: mod_Suc)
  have "sha1_repr (sha1_pad (sha1_update ctx [0x80])) ?pad"
    using sha1_repr_pad [OF sha1_repr_update [OF assms, of "[0x80]"]] by (simp only: k append_assoc) simp
  from sha1_repr_update [OF this, of "be_bytes 8 (8 * length d)"]
  have "sha1_repr (sha1_update (sha1_pad (sha1_update ctx [0x80])) (be_bytes 8 (8 * length d)))
      (fips_pad d)"
    by (simp add: fips_pad_def be_bytes_def)
  moreover have "length (fips_pad d) mod 64 = 0"
    using pad_total [of "length d"] by (simp add: fips_pad_def be_bytes_def add.commute add.assoc)
  ultimately obtain full rest where fr: "fips_pad d = full @ rest"
    "sha1_holds (sha1_update (sha1_pad (sha1_update ctx [0x80])) (be_bytes 8 (8 * length d))) full rest"
    "length (full @ rest) mod 64 = 0"
    by (auto simp: sha1_repr_def)
  then have "rest = []"
    using sha1_holds_rest [OF fr(2)] by simp
  moreover have "sha1_final ctx =
      sha1_digest (sha_state (sha1_update (sha1_pad (sha1_update ctx [0x80])) (be_bytes 8 (8 * length d))))"
    unfolding sha1_final_def Let_def bc be_bytes_drop_bit by (rule refl)
  moreover have "length (foldl fips_block fips_H0 bs) = 5" for bs
    by (rule foldl_fips_block_length) (simp add: fips_H0_def)
  ultimately show ?thesis
    using fr by (simp add: sha1_holds_def fips_sha1_def sha1_digest_bytes)
qed

section \<open>The streaming interface\<close>

text \<open>
  What a client of a streaming hash relies on: however the message is cut into updates, each shorter than
  \<open>max_piece\<close>, the digest is the reference hash of the whole message.
\<close>

locale streaming_hash =
  fixes init :: 'c and update :: "'c \<Rightarrow> u8 list \<Rightarrow> 'c" and final :: "'c \<Rightarrow> u8 list"
    and absorbed :: "'c \<Rightarrow> u8 list \<Rightarrow> bool" and hash :: "u8 list \<Rightarrow> u8 list"
    and max_piece :: nat
  assumes absorbed_init: "absorbed init []"
    and absorbed_update: "absorbed c d \<Longrightarrow> length x < max_piece \<Longrightarrow> absorbed (update c x) (d @ x)"
    and final_hash: "absorbed c d \<Longrightarrow> final c = hash d"
begin

lemma absorbed_updates:
  "absorbed c d \<Longrightarrow> list_all (\<lambda>x. length x < max_piece) xs \<Longrightarrow> absorbed (foldl update c xs) (d @ concat xs)"
  by (induction xs arbitrary: c d) (use absorbed_update in \<open>fastforce simp flip: append_assoc\<close>)+

lemma stream_hash: "list_all (\<lambda>x. length x < max_piece) xs \<Longrightarrow> final (foldl update init xs) = hash (concat xs)"
  using final_hash [OF absorbed_updates [OF absorbed_init]] by simp

lemma two_updates:
  "length x < max_piece \<Longrightarrow> length y < max_piece \<Longrightarrow> final (update (update init x) y) = hash (x @ y)"
  using stream_hash [of "[x, y]"] by simp

end

interpretation sha1: streaming_hash sha1_init sha1_update sha1_final sha1_repr fips_sha1 "2 ^ 29"
  by unfold_locales (rule sha1_repr_init, erule (1) sha1_repr_update, erule sha1_final_fips)

lemma length_fips_sha1 [simp]: "length (fips_sha1 m) = 20"
proof -
  have "length (concat (map (\<lambda>x. be_bytes 4 (unat x)) H)) = 4 * length H" for H :: "u32 list"
    by (induction H) simp_all
  then show ?thesis
    by (simp add: fips_sha1_def foldl_fips_block_length fips_H0_def)
qed

section \<open>Property\<close>

text \<open>
  C15: hashing a message in any pieces with \<open>sha1_init\<close>, \<open>sha1_update\<close> and \<open>sha1_final\<close> gives the
  SHA-1 of FIPS 180-4 of the whole message, as long as each piece is shorter than 512 MiB (the count of
  its bits is computed in 32 bits).
\<close>

theorem sha1_is_fips:
  assumes "list_all (\<lambda>chunk. length chunk < 2 ^ 29) chunks"
  shows "sha1_final (foldl sha1_update sha1_init chunks) = fips_sha1 (concat chunks)"
  using assms by (rule sha1.stream_hash)

theorem sha1_is_fips_witness:
  "sha1_final (foldl sha1_update sha1_init [replicate 70 0x61, [], to_bytes ''bc'']) =
     fips_sha1 (replicate 70 0x61 @ to_bytes ''bc'')"
  using sha1_is_fips [of "[replicate 70 0x61, [], to_bytes ''bc'']"] by simp

end
