(* ===== verification/Base64.thy ===== *)
theory Base64
  imports Prelude
begin

text \<open>
  \<open>base64_encode_small\<close> of \<open>http_server.c\<close> with its bounds check on the destination, and the
  decoder of RFC 4648 as the reference it is inverse to.
\<close>

section \<open>The code\<close>

definition base64_alphabet :: string where
  "base64_alphabet = ''ABCDEFGHIJKLMNOPQRSTUVWXYZabcdefghijklmnopqrstuvwxyz0123456789+/''"

definition base64_char :: "u32 \<Rightarrow> char" where
  "base64_char v = base64_alphabet ! unat (v AND 0x3f)"

text \<open>
  The loop over \<open>src\<close> in steps of three: \<open>src\<close> is what is left of it, \<open>dst\<close> what has been written,
  so \<open>out\<close> is the length of \<open>dst\<close> and \<open>remain\<close> that of \<open>src\<close>.
\<close>

function base64_loop :: "u8 list \<Rightarrow> nat \<Rightarrow> string \<Rightarrow> int \<times> string" where
  "base64_loop src dst_len dst =
     (if src = [] then (0, dst)
      else let remain = length src;
               value0 = push_bit 16 (ucast (src ! 0)) :: u32;
               value1 = (if 1 < remain then value0 OR push_bit 8 (ucast (src ! 1)) else value0);
               value2 = (if 2 < remain then value1 OR ucast (src ! 2) else value1)
           in if dst_len \<le> length dst + 4 then (err ENOMEM, dst)
              else base64_loop (drop 3 src) dst_len
                (dst @ [base64_char (drop_bit 18 value2),
                        base64_char (drop_bit 12 value2),
                        if 1 < remain then base64_char (drop_bit 6 value2) else CHR ''='',
                        if 2 < remain then base64_char value2 else CHR ''='']))"
  by pat_completeness auto
termination
  by (relation "measure (\<lambda>(src, dst_len, dst). length src)") auto

declare base64_loop.simps [simp del]

definition base64_encode_small :: "u8 list \<Rightarrow> nat \<Rightarrow> int \<times> string" where
  "base64_encode_small src dst_len = base64_loop src dst_len []"

section \<open>The reference decoder\<close>

definition base64_val :: "char \<Rightarrow> nat" where
  "base64_val c = length (takeWhile (\<lambda>x. x \<noteq> c) base64_alphabet)"

definition group_bytes :: "nat \<Rightarrow> u8 list" where
  "group_bytes v = [word_of_nat (v div 65536), word_of_nat (v div 256), word_of_nat v]"

text \<open>
  Four characters carry 24 bits; a final group padded with one or two \<open>=\<close> carries two bytes or one.
  Anything else is not the encoding of a byte string.
\<close>

fun base64_decode :: "string \<Rightarrow> u8 list option" where
  "base64_decode [] = Some []"
| "base64_decode (a # b # c # d # rest) =
     (let val = (\<lambda>x. if x = CHR ''='' then 0 else base64_val x);
          v = val a * 262144 + val b * 4096 + val c * 64 + val d
      in if rest = [] \<and> d = CHR ''='' then
           Some (take (if c = CHR ''='' then 1 else 2) (group_bytes v))
         else if {a, b, c, d} \<subseteq> set base64_alphabet then
           map_option (append (group_bytes v)) (base64_decode rest)
         else None)"
| "base64_decode _ = None"

section \<open>The encoder is correct\<close>

definition enc4 :: "nat \<Rightarrow> nat \<Rightarrow> string" where
  "enc4 n v = [base64_alphabet ! (v div 262144), base64_alphabet ! (v div 4096 mod 64),
     if 1 < n then base64_alphabet ! (v div 64 mod 64) else CHR ''='',
     if 2 < n then base64_alphabet ! (v mod 64) else CHR ''='']"

definition val3 :: "u8 list \<Rightarrow> nat" where
  "val3 src = unat (src ! 0) * 65536 + (if 1 < length src then unat (src ! 1) * 256 else 0) +
     (if 2 < length src then unat (src ! 2) else 0)"

text \<open>The text without the bounds check: one group for every three bytes.\<close>

function base64_text :: "u8 list \<Rightarrow> string" where
  "base64_text src =
     (if src = [] then [] else enc4 (length src) (val3 src) @ base64_text (drop 3 src))"
  by pat_completeness auto
termination
  by (relation "measure length") auto

declare base64_text.simps [simp del]

lemma u8_less: "unat (x :: u8) < 256"
  using unsigned_less [of x, where ?'a = nat] by simp

lemma or_eq_add_u32:
  "unat (push_bit 16 (ucast x) OR push_bit 8 (ucast y) OR (ucast z :: u32)) =
     unat x * 65536 + unat y * 256 + unat z" for x y z :: u8
proof -
  have o1: "push_bit 8 (ucast y) OR (ucast z :: u32) = push_bit 8 (ucast y) + ucast z"
    by (rule disjunctive_add_eq_or [symmetric], rule bit_word_eqI)
       (auto simp: bit_simps dest: bit_imp_le_length)
  have o2: "push_bit 16 (ucast x) OR (push_bit 8 (ucast y) OR (ucast z :: u32)) =
      push_bit 16 (ucast x) + (push_bit 8 (ucast y) OR ucast z)"
    by (rule disjunctive_add_eq_or [symmetric], rule bit_word_eqI)
       (auto simp: bit_simps dest: bit_imp_le_length)
  have "unat (push_bit 16 (ucast x :: u32)) = unat x * 65536"
    "unat (push_bit 8 (ucast y :: u32)) = unat y * 256" "unat (ucast z :: u32) = unat z"
    using u8_less [of x] u8_less [of y] u8_less [of z]
    by (simp_all add: push_bit_eq_mult unat_word_ariths unsigned_ucast_eq take_bit_eq_mod)
  then show ?thesis
    unfolding o2 unfolding o1 using u8_less [of x] u8_less [of y] u8_less [of z]
    by (simp add: unat_word_ariths)
qed

lemma base64_char_div: "unat v div 2 ^ n mod 64 = k \<Longrightarrow> base64_char (drop_bit n v) = base64_alphabet ! k"
proof -
  assume k: "unat v div 2 ^ n mod 64 = k"
  have "(0x3f :: u32) = mask 6"
    by (simp add: mask_eq_exp_minus_1)
  then have "drop_bit n v AND 0x3f = take_bit 6 (drop_bit n v)"
    by (simp only: take_bit_eq_mask)
  moreover have "unat (take_bit 6 (drop_bit n v)) = take_bit 6 (drop_bit n (unat v))"
    using unsigned_less [of v, where ?'a = nat]
    by (simp only: unsigned_take_bit_eq unsigned_drop_bit_eq take_bit_nat_eq_self)
  ultimately show ?thesis
    using k by (simp add: base64_char_def take_bit_eq_mod drop_bit_eq_div)
qed

lemma val3_bound: "val3 src < 16777216"
  using u8_less [of "src ! 0"] u8_less [of "src ! 1"] u8_less [of "src ! 2"]
  by (auto simp: val3_def)

lemma base64_group:
  fixes src :: "u8 list"
  defines "value0 \<equiv> push_bit 16 (ucast (src ! 0)) :: u32"
  defines "value1 \<equiv> (if 1 < length src then value0 OR push_bit 8 (ucast (src ! 1)) else value0)"
  defines "value2 \<equiv> (if 2 < length src then value1 OR ucast (src ! 2) else value1)"
  shows "[base64_char (drop_bit 18 value2), base64_char (drop_bit 12 value2),
      if 1 < length src then base64_char (drop_bit 6 value2) else CHR ''='',
      if 2 < length src then base64_char value2 else CHR ''=''] = enc4 (length src) (val3 src)"
proof -
  have v: "unat value2 = val3 src"
    using or_eq_add_u32 [of "src ! 0" "src ! 1" "src ! 2"] or_eq_add_u32 [of "src ! 0" "src ! 1" 0]
      or_eq_add_u32 [of "src ! 0" 0 0]
    by (auto simp: value0_def value1_def value2_def val3_def or.assoc)
  have "val3 src div 2 ^ 18 mod 64 = val3 src div 262144"
    using val3_bound [of src] by (simp add: less_mult_imp_div_less)
  then show ?thesis
    using base64_char_div [of value2 18] base64_char_div [of value2 12] base64_char_div [of value2 6]
      base64_char_div [of value2 0]
    by (simp add: enc4_def v)
qed

lemma base64_text_Nil [simp]: "base64_text [] = []"
  by (simp add: base64_text.simps [of "[]"])

lemma base64_loop_Nil [simp]: "base64_loop [] dst_len dst = (0, dst)"
  by (simp add: base64_loop.simps [of "[]"])

lemma length_enc4 [simp]: "length (enc4 n v) = 4"
  by (simp add: enc4_def)

lemma groups_of_three: "0 < n \<Longrightarrow> (n + 2) div 3 = Suc ((n - 3 + 2) div 3)" for n :: nat
  by (cases "n < 3") (auto simp: not_less le_iff_add, presburger)

lemma length_base64_text: "length (base64_text src) = 4 * ((length src + 2) div 3)"
proof (induction src rule: base64_text.induct)
  case (1 src)
  show ?case
  proof (cases "src = []")
    case True
    then show ?thesis by simp
  next
    case False
    then have "(length src + 2) div 3 = Suc ((length (drop 3 src) + 2) div 3)"
      using groups_of_three [of "length src"] by simp
    with 1 [OF False] False show ?thesis by (simp add: base64_text.simps [of src])
  qed
qed

lemma base64_loop_ok:
  "length dst + length (base64_text src) < dst_len \<or> src = [] \<Longrightarrow>
     base64_loop src dst_len dst = (0, dst @ base64_text src)"
proof (induction src dst_len dst rule: base64_loop.induct)
  case (1 src dst_len dst)
  show ?case
  proof (cases "src = []")
    case True
    then show ?thesis by simp
  next
    case False
    with "1.prems" have l: "length dst + 4 < dst_len"
        "length dst + 4 + length (base64_text (drop 3 src)) < dst_len"
      by (simp_all add: base64_text.simps [of src])
    show ?thesis
      using "1.IH" [OF False refl refl refl refl] l False
      unfolding base64_loop.simps [of src] base64_text.simps [of src] Let_def
      by (simp add: base64_group del: One_nat_def)
  qed
qed

lemma base64_loop_short:
  "dst_len \<le> length dst + length (base64_text src) \<Longrightarrow> src \<noteq> [] \<Longrightarrow>
     fst (base64_loop src dst_len dst) = err ENOMEM"
proof (induction src dst_len dst rule: base64_loop.induct)
  case (1 src dst_len dst)
  show ?case
  proof (cases "dst_len \<le> length dst + 4")
    case True
    then show ?thesis
      using "1.prems" by (simp add: base64_loop.simps [of src] Let_def)
  next
    case False
    then have "drop 3 src \<noteq> []" "dst_len \<le> length dst + 4 + length (base64_text (drop 3 src))"
      using "1.prems" by (auto simp: base64_text.simps [of src] base64_text.simps [of "[]"])
    then show ?thesis
      using "1.IH" [OF "1.prems"(2) refl refl refl refl] False "1.prems"
      unfolding base64_loop.simps [of src] Let_def
      by (simp add: base64_group del: One_nat_def)
  qed
qed

lemma base64_loop_length:
  "length dst < dst_len \<Longrightarrow> length (snd (base64_loop src dst_len dst)) < dst_len"
proof (induction src dst_len dst rule: base64_loop.induct)
  case (1 src dst_len dst)
  show ?case
    using "1.IH" [OF _ refl refl refl refl] "1.prems"
    unfolding base64_loop.simps [of src] Let_def by simp
qed

lemma base64_encode_small_ok:
  "4 * ((length src + 2) div 3) < dst_len \<Longrightarrow>
     base64_encode_small src dst_len = (0, base64_text src)"
  using base64_loop_ok [of "[]" src dst_len] by (simp add: base64_encode_small_def length_base64_text)

section \<open>Decoding gives the bytes back\<close>

lemma base64_val_nth: "i < 64 \<Longrightarrow> base64_val (base64_alphabet ! i) = i"
proof -
  have "\<forall>i \<in> set [0..<64]. base64_val (base64_alphabet ! i) = i"
    by code_simp
  then show "i < 64 \<Longrightarrow> base64_val (base64_alphabet ! i) = i" by simp
qed

lemma length_base64_alphabet: "length base64_alphabet = 64"
  by (simp add: base64_alphabet_def)

lemma base64_alphabet_mem: "i < 64 \<Longrightarrow> base64_alphabet ! i \<in> set base64_alphabet"
  by (simp add: length_base64_alphabet)

lemma base64_alphabet_no_pad: "i < 64 \<Longrightarrow> base64_alphabet ! i \<noteq> CHR ''=''"
proof -
  have "CHR ''='' \<notin> set base64_alphabet"
    by (simp add: base64_alphabet_def)
  then show "i < 64 \<Longrightarrow> base64_alphabet ! i \<noteq> CHR ''=''"
    using base64_alphabet_mem by metis
qed

lemma sextets: "v div 262144 * 262144 + v div 4096 mod 64 * 4096 + v div 64 mod 64 * 64 + v mod 64 = v"
  for v :: nat
proof -
  have "v div 64 div 64 = v div 4096" "v div 4096 div 64 = v div 262144"
    by (simp_all flip: div_mult2_eq)
  then show ?thesis
    using div_mult_mod_eq [of v 64] div_mult_mod_eq [of "v div 64" 64]
      div_mult_mod_eq [of "v div 4096" 64] by linarith
qed

lemma group_bytes_val3:
  "take (length src) (group_bytes (val3 src)) = take 3 src"
proof -
  have z: "(65536 :: u8) = 0" "(256 :: u8) = 0" by simp_all
  have b: "word_of_nat (unat x * 65536 + k) = (word_of_nat k :: u8)"
    "word_of_nat (unat x * 256 + k) = (word_of_nat k :: u8)" for x :: u8 and k
    by (simp_all add: z)
  consider "src = []" | x where "src = [x]" | x y where "src = [x, y]"
    | x y z r where "src = x # y # z # r"
    by (metis list.exhaust)
  then show ?thesis
  proof cases
    case 2
    then show ?thesis by (simp add: group_bytes_def val3_def)
  next
    case (3 x y)
    then show ?thesis
      using u8_less [of x] u8_less [of y] by (simp add: group_bytes_def val3_def b z)
  next
    case (4 x y z r)
    have "(unat x * 65536 + unat y * 256 + unat z) div 65536 = unat x"
      "(unat x * 65536 + unat y * 256 + unat z) div 256 = unat x * 256 + unat y"
      by (rule div_nat_eqI; use u8_less [of y] u8_less [of z] in simp)+
    with 4 show ?thesis
      by (simp add: group_bytes_def val3_def b z)
  qed simp
qed

lemma enc4_eq: "enc4 n v = [a, b, c, d] \<longleftrightarrow>
    a = base64_alphabet ! (v div 262144) \<and> b = base64_alphabet ! (v div 4096 mod 64) \<and>
    c = (if 1 < n then base64_alphabet ! (v div 64 mod 64) else CHR ''='') \<and>
    d = (if 2 < n then base64_alphabet ! (v mod 64) else CHR ''='')"
  by (auto simp: enc4_def)

lemma val3_pads: "length src < 3 \<Longrightarrow> val3 src mod 64 = 0"
  "length src < 2 \<Longrightarrow> val3 src div 64 mod 64 = 0"
proof -
  have "n * 65536 + k * 256 = 64 * (n * 1024 + k * 4)" "n * 65536 = 64 * (n * 1024)"
    "n * 65536 = 64 * (64 * (n * 16))" for n k :: nat
    by simp_all
  then have m: "(n * 65536 + k * 256) mod 64 = 0" "n * 65536 mod 64 = 0"
    "n * 65536 div 64 mod 64 = 0" for n k :: nat
    by (metis mod_mult_self1_is_0 nonzero_mult_div_cancel_left zero_neq_numeral)+
  show "length src < 3 \<Longrightarrow> val3 src mod 64 = 0" "length src < 2 \<Longrightarrow> val3 src div 64 mod 64 = 0"
    by (auto simp: val3_def m)
qed

lemma base64_decode_group:
  assumes "src \<noteq> []" and tail: "length src < 3 \<Longrightarrow> rest = []"
  shows "base64_decode (enc4 (length src) (val3 src) @ rest) =
    (if length src < 3 then Some src else map_option (append (take 3 src)) (base64_decode rest))"
proof -
  let ?v = "val3 src"
  let ?val = "\<lambda>x. if x = CHR ''='' then 0 else base64_val x"
  have lt: "?v div 262144 < 64"
    using val3_bound [of src] by (simp add: less_mult_imp_div_less)
  have val: "i < 64 \<Longrightarrow> ?val (base64_alphabet ! i) = i" for i
    using base64_val_nth base64_alphabet_no_pad by simp
  consider "length src = 1" | "length src = 2" | "3 \<le> length src"
    using assms(1) by (cases "length src"; fastforce)
  then show ?thesis
  proof cases
    case 1
    then have "take 1 (group_bytes ?v) = src"
      using group_bytes_val3 [of src] by simp
    with 1 tail show ?thesis
      using sextets [of ?v] val3_pads [of src] lt
      by (simp add: enc4_def Let_def base64_val_nth base64_alphabet_no_pad)
  next
    case 2
    then have "take 2 (group_bytes ?v) = src"
      using group_bytes_val3 [of src] by simp
    with 2 tail show ?thesis
      using sextets [of ?v] val3_pads [of src] lt
      by (simp add: enc4_def Let_def base64_val_nth base64_alphabet_no_pad)
  next
    case 3
    then have "group_bytes ?v = take 3 src"
      using group_bytes_val3 [of src] by (simp add: group_bytes_def)
    with 3 show ?thesis
      using sextets [of ?v] lt
      by (simp add: enc4_def Let_def base64_val_nth base64_alphabet_no_pad base64_alphabet_mem)
  qed
qed

lemma base64_decode_text: "base64_decode (base64_text src) = Some src"
proof (induction src rule: base64_text.induct)
  case (1 src)
  show ?case
  proof (cases "src = []")
    case False
    then have "base64_text src = enc4 (length src) (val3 src) @ base64_text (drop 3 src)"
      by (simp add: base64_text.simps [of src])
    moreover have "length src < 3 \<Longrightarrow> base64_text (drop 3 src) = []"
      by simp
    ultimately show ?thesis
      using base64_decode_group [OF False] 1 [OF False] by simp
  qed simp
qed

section \<open>Properties\<close>

text \<open>
  C18: when the destination has room for the text and its NUL, \<open>base64_encode_small\<close> succeeds and
  RFC 4648 decoding of what it wrote gives the source back.
\<close>

theorem base64_roundtrip:
  assumes "4 * ((length src + 2) div 3) < dst_len"
  shows "fst (base64_encode_small src dst_len) = 0 \<and>
    base64_decode (snd (base64_encode_small src dst_len)) = Some src"
  using base64_encode_small_ok [OF assms] base64_decode_text by simp

theorem base64_roundtrip_witness:
  "fst (base64_encode_small [1, 2, 3, 255] 9) = 0 \<and>
    base64_decode (snd (base64_encode_small [1, 2, 3, 255] 9)) = Some [1, 2, 3, 255]"
  by (rule base64_roundtrip) simp

text \<open>
  A destination too small for the text and its NUL is refused with \<open>-ENOMEM\<close>, and in every case what
  has been written leaves room for the NUL.
\<close>

theorem base64_bounds:
  assumes "src \<noteq> []" and "0 < dst_len"
  shows "(fst (base64_encode_small src dst_len) = err ENOMEM \<longleftrightarrow> dst_len \<le> 4 * ((length src + 2) div 3)) \<and>
    length (snd (base64_encode_small src dst_len)) < dst_len"
proof (cases "dst_len \<le> 4 * ((length src + 2) div 3)")
  case True
  then have "fst (base64_loop src dst_len []) = err ENOMEM"
    using base64_loop_short [of dst_len "[]" src] assms by (simp add: length_base64_text)
  then show ?thesis
    using True assms(2) base64_loop_length [of "[]" dst_len src] by (simp add: base64_encode_small_def)
next
  case False
  then show ?thesis
    using base64_encode_small_ok [of src dst_len] by (simp add: length_base64_text)
qed

theorem base64_bounds_witness:
  "fst (base64_encode_small [7] 4) = err ENOMEM \<and> length (snd (base64_encode_small [7] 4)) < 4"
  using base64_bounds [of "[7]" 4] by simp

end
