(* ===== verification/HttpText.thy ===== *)
theory HttpText
  imports Sha1 Base64
begin

text \<open>
  The request-text helpers of \<open>http_server.c\<close>: case-insensitive comparison, the search for a header
  field, the length of its value, the recognition of a WebSocket upgrade and the computation of
  \<open>Sec-WebSocket-Accept\<close>. A \<open>const char *\<close> into the request is the rest of the request from
  there; the reference reads the request as a list of lines.
\<close>

section \<open>The code\<close>

definition ascii_tolower :: "char \<Rightarrow> char" where
  "ascii_tolower ch =
     (if 65 \<le> (of_char ch :: nat) \<and> (of_char ch :: nat) \<le> 90 then char_of (of_char ch + (32 :: nat))
      else ch)"

definition ascii_case_equal :: "string \<Rightarrow> string \<Rightarrow> nat \<Rightarrow> bool" where
  "ascii_case_equal a b n \<longleftrightarrow>
     list_all (\<lambda>i. ascii_tolower (char_at a i) = ascii_tolower (char_at b i)) [0..<n]"

definition is_blank :: "char \<Rightarrow> bool" where
  "is_blank c \<longleftrightarrow> c = SP \<or> c = TAB"

function find_header_loop :: "string \<Rightarrow> string \<Rightarrow> string option" where
  "find_header_loop name line =
     (if char_at line 0 = CR \<and> char_at line 1 = LF then
        let line1 = drop 2 line in
        if char_at line1 0 = CR \<and> char_at line1 1 = LF then None
        else if ascii_case_equal line1 name (length name) \<and> char_at line1 (length name) = CHR '':''
        then Some (dropWhile is_blank (drop (length name + 1) line1))
        else (case strstr line1 CRLF of None \<Rightarrow> None | Some line2 \<Rightarrow> find_header_loop name line2)
      else None)"
  by pat_completeness auto
termination
proof (relation "measure (\<lambda>(name, line). length line)", goal_cases)
  case 1
  then show ?case by simp
next
  case (2 name line line1 line2)
  then have "line \<noteq> []" "length line2 \<le> length line - 2"
    by (auto dest: strstr_length)
  then show ?case by (cases line) auto
qed

declare find_header_loop.simps [simp del]

definition find_header_value :: "string \<Rightarrow> string \<Rightarrow> string option" where
  "find_header_value request name =
     (case strstr request CRLF of None \<Rightarrow> None | Some line \<Rightarrow> find_header_loop name line)"

fun trim_end :: "string \<Rightarrow> nat \<Rightarrow> nat" where
  "trim_end v 0 = 0"
| "trim_end v (Suc n) = (if is_blank (v ! n) then trim_end v n else Suc n)"

definition header_value_len :: "string \<Rightarrow> nat" where
  "header_value_len v =
     (case strstr v CRLF of None \<Rightarrow> 0 | Some e \<Rightarrow> trim_end v (length v - length e))"

definition request_is_websocket :: "string \<Rightarrow> bool" where
  "request_is_websocket request \<longleftrightarrow>
     (strncmp_eq request ''GET /can '' 9 \<or> strncmp_eq request ''GET /ws '' 8) \<and>
     find_header_value request ''Sec-WebSocket-Key'' \<noteq> None"

definition ws_guid :: string where
  "ws_guid = ''258EAFA5-E914-47DA-95CA-C5AB0DC85B11''"

definition build_websocket_accept :: "string \<Rightarrow> nat \<Rightarrow> int \<times> string" where
  "build_websocket_accept request accept_len =
     (case find_header_value request ''Sec-WebSocket-Key'' of
        None \<Rightarrow> (err EINVAL, [])
      | Some key \<Rightarrow>
          let key_len = header_value_len key in
          if key_len = 0 \<or> 64 < key_len then (err EINVAL, [])
          else let sha1 = sha1_update (sha1_update sha1_init (to_bytes (take key_len key)))
                            (to_bytes ws_guid);
                   digest = sha1_final sha1
               in base64_encode_small digest accept_len)"

section \<open>The reference: a request is a list of lines\<close>

function lines :: "string \<Rightarrow> string list" where
  "lines s =
     (if s = [] then [[]]
      else if prefix CRLF s then [] # lines (drop 2 s)
      else (hd s # hd (lines (tl s))) # tl (lines (tl s)))"
  by pat_completeness auto
termination
  by (relation "measure length") auto

declare lines.simps [simp del]

lemma lines_not_Nil [simp]: "lines s \<noteq> []"
  by (simp add: lines.simps [of s])

lemma lines_code [code]:
  "lines s = (case s of [] \<Rightarrow> [[]]
     | c # cs \<Rightarrow> if prefix CRLF s then [] # lines (drop 2 s)
               else (case lines cs of l # ls \<Rightarrow> (c # l) # ls | [] \<Rightarrow> []))"
proof (cases s)
  case (Cons c cs)
  then show ?thesis by (cases "lines cs") (simp_all add: lines.simps [of "c # cs"])
qed (simp add: lines.simps [of "[]"])

definition is_field :: "string \<Rightarrow> string \<Rightarrow> bool" where
  "is_field name l \<longleftrightarrow>
     length name < length l \<and> l ! length name = CHR '':'' \<and>
     map ascii_tolower (take (length name) l) = map ascii_tolower name"

definition strip_end :: "string \<Rightarrow> string" where
  "strip_end s = rev (dropWhile is_blank (rev s))"

text \<open>The value of the first field of that name before the blank line, without the blanks around it.\<close>

definition header_field :: "string \<Rightarrow> string \<Rightarrow> string option" where
  "header_field request name =
     map_option (\<lambda>l. strip_end (dropWhile is_blank (drop (length name + 1) l)))
       (find (is_field name) (takeWhile (\<lambda>l. l \<noteq> []) (tl (lines request))))"

section \<open>Lines and \<open>strstr\<close>\<close>

abbreviation one_line :: "string \<Rightarrow> bool" where
  "one_line l \<equiv> \<not> sublist CRLF (l @ [CR])"

lemma lines_CRLF [simp]: "lines (CR # LF # t) = [] # lines t"
  by (simp add: lines.simps [of "CR # LF # t"])

lemma prefix_CRLF: "prefix CRLF s \<longleftrightarrow> (\<exists>t. s = CR # LF # t)"
  by (auto simp: prefix_def)

lemma strstr_line:
  "one_line l \<Longrightarrow> prefix CRLF t \<Longrightarrow> strstr (l @ t) CRLF = Some t"
proof (induction l)
  case Nil
  then show ?case by (auto simp: prefix_CRLF)
next
  case (Cons c l)
  then have "\<not> prefix CRLF ((c # l) @ t)"
    by (cases l) (auto simp: prefix_CRLF sublist_Cons_right)
  with Cons show ?case by (auto simp: sublist_Cons_right)
qed

lemma one_line_suffix: "one_line (k @ l) \<Longrightarrow> one_line l"
  by (auto simp: sublist_append)

lemma lines_step:
  "(strstr s CRLF = None \<and> lines s = [s]) \<or>
   (\<exists>l t. s = l @ CR # LF # t \<and> one_line l \<and> lines s = l # lines t)"
proof (induction s)
  case Nil
  then show ?case by (simp add: lines.simps [of "[]"])
next
  case (Cons c s)
  show ?case
  proof (cases "prefix CRLF (c # s)")
    case True
    then obtain t where "c # s = CR # LF # t"
      unfolding prefix_CRLF by blast
    then have "c # s = [] @ CR # LF # t" "one_line []" "lines (c # s) = [] # lines t"
      by (auto simp: sublist_Cons_right)
    then show ?thesis by blast
  next
    case False
    then have eq: "lines (c # s) = (c # hd (lines s)) # tl (lines s)"
      by (simp add: lines.simps [of "c # s"])
    from Cons show ?thesis
    proof (elim disjE exE conjE)
      assume "strstr s CRLF = None" "lines s = [s]"
      then show ?thesis using False eq by simp
    next
      fix l t
      assume s: "s = l @ CR # LF # t" "one_line l" "lines s = l # lines t"
      then have "one_line (c # l)"
        using False by (cases l) (auto simp: prefix_CRLF sublist_Cons_right)
      then show ?thesis using s eq by (metis append_Cons list.sel(1,3))
    qed
  qed
qed

section \<open>The search finds the field\<close>

lemma lower_CR: "ascii_tolower c = ascii_tolower CR \<longleftrightarrow> c = CR"
proof -
  have "ascii_tolower CR = CR"
    by (simp add: ascii_tolower_def)
  moreover have "of_char c + 32 \<noteq> (13::nat)" by simp
  moreover have "ascii_tolower c = CR \<Longrightarrow> c = CR"
  proof -
    assume a: "ascii_tolower c = CR"
    show "c = CR"
    proof (cases "65 \<le> (of_char c :: nat) \<and> (of_char c :: nat) \<le> 90")
      case True
      with a have "char_of (of_char c + (32::nat)) = CR" by (simp add: ascii_tolower_def)
      then have "of_char (char_of (of_char c + (32::nat)) :: char) = (13::nat)" by simp
      with True show ?thesis by simp
    next
      case False
      with a show ?thesis by (simp add: ascii_tolower_def del: not_le)
    qed
  qed
  ultimately show ?thesis by auto
qed

lemma case_equal_take:
  assumes "length name \<le> length l"
  shows "ascii_case_equal (l @ r) name (length name) \<longleftrightarrow>
    map ascii_tolower (take (length name) l) = map ascii_tolower name"
proof -
  have "char_at (l @ r) i = l ! i" "char_at name i = name ! i" if "i < length name" for i
    using that assms by (simp_all add: char_at_def nth_append)
  then have "ascii_case_equal (l @ r) name (length name) \<longleftrightarrow>
      (\<forall>i < length name. ascii_tolower (l ! i) = ascii_tolower (name ! i))"
    unfolding ascii_case_equal_def list_all_iff by (simp add: Ball_def)
  also have "\<dots> \<longleftrightarrow> map ascii_tolower (take (length name) l) = map ascii_tolower name"
    using assms by (simp add: list_eq_iff_nth_eq)
  finally show ?thesis .
qed

text \<open>Testing a line inside the request, the comparison cannot run past its end.\<close>

lemma field_test:
  assumes "CR \<notin> set name" and r: "r = [] \<or> prefix CRLF r"
  shows "ascii_case_equal (l @ r) name (length name) \<and> char_at (l @ r) (length name) = CHR '':'' \<longleftrightarrow>
    is_field name l"
proof (cases "length name < length l")
  case True
  then show ?thesis
    using case_equal_take [of name l r] by (auto simp: is_field_def char_at_def nth_append)
next
  case False
  have hd: "char_at (l @ r) (length l) = NUL \<or> char_at (l @ r) (length l) = CR"
    using r by (auto simp: char_at_def nth_append prefix_def)
  have "\<not> (ascii_case_equal (l @ r) name (length name) \<and> char_at (l @ r) (length name) = CHR '':'')"
  proof (cases "length l = length name")
    case True
    with hd show ?thesis by auto
  next
    case less: False
    then have i: "length l < length name" using False by simp
    show ?thesis
    proof (cases "r = []")
      case True
      then have "char_at (l @ r) (length name) = NUL" using i by (simp add: char_at_def)
      then show ?thesis by simp
    next
      case False
      then have "char_at (l @ r) (length l) = CR"
        using r by (auto simp: char_at_def nth_append prefix_def)
      moreover have "char_at name (length l) \<noteq> CR"
        using assms(1) i nth_mem [of "length l" name] by (metis char_at_def)
      ultimately have "ascii_tolower (char_at (l @ r) (length l)) \<noteq> ascii_tolower (char_at name (length l))"
        by (metis lower_CR)
      then show ?thesis
        using i by (auto simp: ascii_case_equal_def list_all_iff)
    qed
  qed
  with False show ?thesis by (simp add: is_field_def)
qed

lemma dropWhile_blank_append:
  "r = [] \<or> prefix CRLF r \<Longrightarrow> dropWhile is_blank (v @ r) = dropWhile is_blank v @ r"
  by (induction v) (auto simp: prefix_def is_blank_def)

text \<open>
  The loop over the rest of the request, started at the end of a line: it stops at the blank line, and
  finds the first field before it, pointing past its leading blanks.
\<close>

lemma find_header_loop_lines:
  assumes n: "CR \<notin> set name"
  shows "case find (is_field name) (takeWhile (\<lambda>l. l \<noteq> []) (lines s)) of
      None \<Rightarrow> find_header_loop name (CR # LF # s) = None
    | Some l \<Rightarrow> \<exists>r. find_header_loop name (CR # LF # s) =
          Some (dropWhile is_blank (drop (length name + 1) l) @ r) \<and>
        (prefix CRLF r \<or> (r = [] \<and> [] \<notin> set (lines s))) \<and> (prefix CRLF r \<longrightarrow> one_line l)"
proof (induction "length s" arbitrary: s rule: less_induct)
  case less
  have step: "find_header_loop name (CR # LF # s) =
      (if prefix CRLF s then None
       else if ascii_case_equal s name (length name) \<and> char_at s (length name) = CHR '':''
       then Some (dropWhile is_blank (drop (length name + 1) s))
       else (case strstr s CRLF of None \<Rightarrow> None | Some line2 \<Rightarrow> find_header_loop name line2))"
    by (subst find_header_loop.simps)
      (auto simp: Let_def prefix_def char_at_def neq_Nil_conv nth_Cons' split: option.split)
  from lines_step [of s] show ?case
  proof (elim disjE exE conjE)
    assume last: "strstr s CRLF = None" "lines s = [s]"
    then have "\<not> prefix CRLF s"
      by (auto simp: strstr_None)
    then show ?thesis
      using last step field_test [OF n, of "[]" s]
      by (cases "s = []") (auto simp: is_field_def)
  next
    fix l t
    assume s: "s = l @ CR # LF # t" "one_line l" "lines s = l # lines t"
    show ?thesis
    proof (cases "l = []")
      case True
      then show ?thesis using s step by simp
    next
      case False
      have np: "\<not> prefix CRLF s"
        using s(1,2) False by (cases l; cases "tl l") (auto simp: sublist_Cons_right)
      show ?thesis
      proof (cases "is_field name l")
        case True
        then have "find_header_loop name (CR # LF # s) =
            Some (dropWhile is_blank (drop (length name + 1) l) @ CR # LF # t)"
          using step np field_test [OF n, of "CR # LF # t" l] s(1)
            dropWhile_blank_append [of "CR # LF # t" "drop (length name + 1) l"]
          by (auto simp: is_field_def)
        then show ?thesis using True False s by auto
      next
        case other: False
        have "strstr s CRLF = Some (CR # LF # t)"
          using strstr_line [OF s(2), of "CR # LF # t"] s(1) by simp
        moreover have "\<not> (ascii_case_equal s name (length name) \<and> char_at s (length name) = CHR '':'')"
          using field_test [OF n, of "CR # LF # t" l] other s(1) by simp
        ultimately have "find_header_loop name (CR # LF # s) = find_header_loop name (CR # LF # t)"
          using step np by (simp only: if_False option.case)
        then show ?thesis
          using less [of t] s False other by (auto split: option.splits)
      qed
    qed
  qed
qed

lemma take_trim_end: "n \<le> length v \<Longrightarrow> take (trim_end v n) v = strip_end (take n v)"
  by (induction n) (auto simp: strip_end_def take_Suc_conv_app_nth)

lemma trim_end_le: "trim_end v n \<le> n"
  by (induction n) auto

lemma header_value_len_line:
  assumes "one_line l" and "prefix CRLF r"
  shows "take (header_value_len (l @ r)) (l @ r) = strip_end l"
proof -
  have "header_value_len (l @ r) = trim_end (l @ r) (length l)"
    using assms by (simp add: header_value_len_def strstr_line)
  moreover have "take (trim_end (l @ r) (length l)) (l @ r) = strip_end (take (length l) (l @ r))"
    by (rule take_trim_end) simp
  moreover have "take (length l) (l @ r) = l"
    by simp
  ultimately show ?thesis
    by (simp only:)
qed

lemma header_value_len_le: "header_value_len v \<le> length v"
  using le_trans [OF trim_end_le diff_le_self] by (simp add: header_value_len_def split: option.split)

lemma one_line_dropWhile: "one_line l \<Longrightarrow> one_line (dropWhile p (drop n l))"
  by (metis append_take_drop_id one_line_suffix takeWhile_dropWhile_id)

text \<open>
  For a request with a blank line, the pointer and the length the code works with are the value of the
  field in the request's header.
\<close>

lemma find_header_value_field:
  assumes "CR \<notin> set name" and "[] \<in> set (tl (lines request))"
  shows "map_option (\<lambda>v. take (header_value_len v) v) (find_header_value request name) =
    header_field request name"
  using lines_step [of request]
proof (elim disjE exE conjE)
  assume "strstr request CRLF = None" "lines request = [request]"
  then show ?thesis using assms(2) by simp
next
  fix l t
  assume r: "request = l @ CR # LF # t" "one_line l" "lines request = l # lines t"
  then have "find_header_value request name = find_header_loop name (CR # LF # t)"
    using strstr_line [OF r(2), of "CR # LF # t"] by (simp add: find_header_value_def)
  then show ?thesis
    using find_header_loop_lines [OF assms(1), of t] assms(2) r(3)
    by (cases "find (is_field name) (takeWhile (\<lambda>l. l \<noteq> []) (lines t))")
      (auto simp: header_field_def header_value_len_line one_line_dropWhile simp del: take_append)
qed

section \<open>The accept key\<close>

text \<open>
  RFC 6455: the base64 of the SHA-1 of the client's key followed by the GUID. The destination needs
  28 characters and a NUL.
\<close>

definition accept_key :: "string \<Rightarrow> string" where
  "accept_key key = base64_text (fips_sha1 (to_bytes (key @ ws_guid)))"

lemma length_accept_key [simp]: "length (accept_key key) = 28"
  by (simp add: accept_key_def length_base64_text)

lemma base64_chars: "set (base64_text src) \<subseteq> insert (CHR ''='') (set base64_alphabet)"
proof (induction src rule: base64_text.induct)
  case (1 src)
  have "val3 src div 262144 < 64"
    using val3_bound [of src] by (simp add: less_mult_imp_div_less)
  then have "set (enc4 (length src) (val3 src)) \<subseteq> insert (CHR ''='') (set base64_alphabet)"
    by (auto simp: enc4_def base64_alphabet_mem)
  then show ?case
    using 1 by (cases "src = []") (simp_all add: base64_text.simps [of src])
qed

lemma accept_key_no_nul [simp]: "NUL \<notin> set (accept_key key)"
  using base64_chars [of "fips_sha1 (to_bytes (key @ ws_guid))"]
  by (auto simp: accept_key_def base64_alphabet_def)

lemma build_websocket_accept_spec:
  assumes "[] \<in> set (tl (lines request))" and "28 < accept_len"
  shows "build_websocket_accept request accept_len =
    (case header_field request ''Sec-WebSocket-Key'' of
       None \<Rightarrow> (err EINVAL, [])
     | Some key \<Rightarrow> if key = [] \<or> 64 < length key then (err EINVAL, []) else (0, accept_key key))"
proof -
  have f: "map_option (\<lambda>v. take (header_value_len v) v)
      (find_header_value request ''Sec-WebSocket-Key'') = header_field request ''Sec-WebSocket-Key''"
    using assms(1) by (intro find_header_value_field) simp_all
  show ?thesis
  proof (cases "find_header_value request ''Sec-WebSocket-Key''")
    case None
    then show ?thesis using f by (simp add: build_websocket_accept_def)
  next
    case (Some v)
    define key where "key = take (header_value_len v) v"
    have k: "header_field request ''Sec-WebSocket-Key'' = Some key" "header_value_len v = length key"
      using f Some header_value_len_le [of v] by (simp_all add: key_def)
    have "length (to_bytes ws_guid) < 2 ^ 29" by (simp add: ws_guid_def)
    moreover have "take (length key) v = key" using k(2) by (simp add: key_def)
    ultimately have t: "sha1_final (sha1_update (sha1_update sha1_init (to_bytes (take (length key) v))) (to_bytes ws_guid)) =
        fips_sha1 (to_bytes key @ to_bytes ws_guid)" if "length key \<le> 64"
      using sha1.two_updates [of "to_bytes key" "to_bytes ws_guid"] that by simp
    have "build_websocket_accept request accept_len =
        (if length key = 0 \<or> 64 < length key then (err EINVAL, [])
         else base64_encode_small (fips_sha1 (to_bytes key @ to_bytes ws_guid)) accept_len)"
      unfolding build_websocket_accept_def Some option.case Let_def key_def [symmetric] k(2)
      by (rule if_cong [OF refl refl]) (simp only: t de_Morgan_disj not_less)
    then show ?thesis
      using k(1) assms(2) by (simp add: accept_key_def base64_encode_small_ok)
  qed
qed

section \<open>Properties\<close>

text \<open>
  C17: for a request with a blank line, \<open>find_header_value\<close> and \<open>header_value_len\<close> together deliver the value
  of the first header field of that name, compared without case, without the blanks around it.
\<close>

theorem header_lookup:
  assumes "CR \<notin> set name" and "[] \<in> set (tl (lines request))"
  shows "map_option (\<lambda>v. take (header_value_len v) v) (find_header_value request name) =
    header_field request name"
  using assms by (rule find_header_value_field)

definition sample_request :: string where
  "sample_request = ''GET /can HTTP/1.1'' @ CRLF @ ''host: pico'' @ CRLF @
     ''sec-websocket-KEY:  dGhlIHNhbXBsZSBub25jZQ== '' @ CRLF @ CRLF"

theorem header_lookup_witness:
  "map_option (\<lambda>v. take (header_value_len v) v) (find_header_value sample_request ''Sec-WebSocket-Key'') =
    header_field sample_request ''Sec-WebSocket-Key'' \<and>
   header_field sample_request ''Sec-WebSocket-Key'' = Some ''dGhlIHNhbXBsZSBub25jZQ==''"
proof
  show "map_option (\<lambda>v. take (header_value_len v) v) (find_header_value sample_request ''Sec-WebSocket-Key'') =
      header_field sample_request ''Sec-WebSocket-Key''"
    by (rule header_lookup) code_simp+
qed code_simp

text \<open>
  C16: the accept value of the upgrade is the base64 text of the SHA-1 of the client's key followed by the GUID
  of RFC 6455; a request without a key, or with one longer than 64 characters, is refused with \<open>-EINVAL\<close>.
\<close>

theorem websocket_accept_rfc6455:
  assumes "[] \<in> set (tl (lines request))" and "28 < accept_len"
  shows "build_websocket_accept request accept_len =
    (case header_field request ''Sec-WebSocket-Key'' of
       None \<Rightarrow> (err EINVAL, [])
     | Some key \<Rightarrow> if key = [] \<or> 64 < length key then (err EINVAL, [])
         else (0, base64_text (fips_sha1 (to_bytes (key @ ws_guid)))))"
  using build_websocket_accept_spec [OF assms] unfolding accept_key_def .

theorem websocket_accept_rfc6455_witness:
  "build_websocket_accept sample_request 32 =
    (0, base64_text (fips_sha1 (to_bytes (''dGhlIHNhbXBsZSBub25jZQ=='' @ ws_guid))))"
proof -
  have k: "header_field sample_request ''Sec-WebSocket-Key'' = Some ''dGhlIHNhbXBsZSBub25jZQ==''"
    and l: "[] \<in> set (tl (lines sample_request))"
    by code_simp+
  show ?thesis using websocket_accept_rfc6455 [OF l, of 32] by (simp add: k)
qed

end
