(* ===== verification/Storage.thy ===== *)
theory Storage
  imports Zephyr
begin

text \<open>
  \<open>storage.c\<close>: the LittleFS user page. The static variables guarded by \<open>storage_lock\<close> are the record
  \<open>storage\<close>; every operation takes it and the call history and returns both. The two callback
  types of \<open>storage.h\<close> are the interfaces \<open>body_source\<close> (\<open>storage_read_cb_t\<close>, where an upload
  comes from) and \<open>body_sink\<close> (\<open>storage_write_cb_t\<close>, where the page is streamed to).
\<close>

section \<open>State and constants\<close>

definition STORAGE_PATH :: string where "STORAGE_PATH = ''/lfs''"
definition USER_DIR_PATH :: string where "USER_DIR_PATH = STORAGE_PATH @ ''/user''"
definition USER_INDEX_PATH :: string where "USER_INDEX_PATH = STORAGE_PATH @ ''/user/index.html''"
definition STORAGE_IO_CHUNK :: nat where [fw_defs]: "STORAGE_IO_CHUNK = 512"

record storage =
  mount_attempted :: bool
  mounted :: bool
  mount_ret :: int
  total_kib :: u32
  free_kib :: u32

definition storage_boot :: storage where
  "storage_boot = \<lparr>mount_attempted = False, mounted = False, mount_ret = err ENODEV,
     total_kib = 0, free_kib = 0\<rparr>"

record storage_status =
  ss_attempted :: bool
  ss_mounted :: bool
  ss_mount_ret :: int
  ss_total_kib :: u32
  ss_free_kib :: u32

section \<open>Mounting and space\<close>

text \<open>\<open>(unsigned long)((uint64_t)f_frsize * n / 1024U)\<close>, with a 32-bit \<open>unsigned long\<close>.\<close>

definition kib :: "u32 \<Rightarrow> u32 \<Rightarrow> u32" where
  "kib frsize n = ucast ((ucast frsize * ucast n :: u64) div 1024)"

definition update_space_locked :: "env \<Rightarrow> storage \<Rightarrow> hist \<Rightarrow> storage \<times> hist" where
  "update_space_locked E s h =
     (let s0 = s\<lparr>total_kib := 0, free_kib := 0\<rparr> in
      if \<not> mounted s then (s0, h)
      else let (ret, stat) = env_fs_statvfs E h;
               h1 = h @ [Fs_statvfs ret]
           in if ret < 0 then (s0, h1)
              else (s0\<lparr>total_kib := kib (f_frsize stat) (f_blocks stat),
                       free_kib := kib (f_frsize stat) (f_bfree stat)\<rparr>, h1))"

definition storage_mount_once :: "env \<Rightarrow> storage \<Rightarrow> hist \<Rightarrow> int \<times> storage \<times> hist" where
  "storage_mount_once E s h =
     (let h1 = h @ [K_mutex_lock Storage_lock] in
      if mount_attempted s then (mount_ret s, s, h1 @ [K_mutex_unlock Storage_lock])
      else let ret = env_fs_mount E h1;
               h2 = h1 @ [Fs_mount ret];
               s1 = s\<lparr>mount_attempted := True, mount_ret := ret, mounted := (ret = 0)\<rparr>;
               (s2, h3) = (if ret = 0 then update_space_locked E s1 h2 else (s1, h2))
           in (ret, s2, h3 @ [K_mutex_unlock Storage_lock]))"

definition storage_get_status :: "env \<Rightarrow> storage \<Rightarrow> hist \<Rightarrow> storage_status \<times> storage \<times> hist" where
  "storage_get_status E s h =
     (let (s1, h1) = update_space_locked E s (h @ [K_mutex_lock Storage_lock]) in
      (\<lparr>ss_attempted = mount_attempted s1, ss_mounted = mounted s1, ss_mount_ret = mount_ret s1,
        ss_total_kib = total_kib s1, ss_free_kib = free_kib s1\<rparr>,
       s1, h1 @ [K_mutex_unlock Storage_lock]))"

definition status_json :: "storage_status \<Rightarrow> string" where
  \<open>status_json st =
     ''{"type":"fs.status","ok":'' @ bool_text (ss_mounted st) @
     '',"attempted":'' @ bool_text (ss_attempted st) @
     '',"mounted":'' @ bool_text (ss_mounted st) @
     '',"mountRet":'' @ dec_int (ss_mount_ret st) @
     '',"path":"'' @ STORAGE_PATH @
     ''","totalKiB":'' @ dec (unat (ss_total_kib st)) @
     '',"freeKiB":'' @ dec (unat (ss_free_kib st)) @ ''}''\<close>

definition storage_format_status_json ::
  "env \<Rightarrow> nat \<Rightarrow> storage \<Rightarrow> hist \<Rightarrow> (int \<times> string) \<times> storage \<times> hist" where
  "storage_format_status_json E response_len s h =
     (let (_, s1, h1) = storage_mount_once E s h;
          (status, s2, h2) = storage_get_status E s1 h1
      in (snprintk response_len (status_json status), s2, h2))"

section \<open>The user page\<close>

text \<open>\<open>storage_user_index_size(len)\<close>: the result and what it stores through \<open>len\<close>, if anything.\<close>

definition storage_user_index_size ::
  "env \<Rightarrow> bool \<Rightarrow> storage \<Rightarrow> hist \<Rightarrow> (int \<times> nat option) \<times> storage \<times> hist" where
  "storage_user_index_size E len_is_null s h =
     (if len_is_null then ((err EINVAL, None), s, h)
      else let (ret, s1, h1) = storage_mount_once E s h in
           if ret < 0 then ((ret, None), s1, h1)
           else let (ret2, entry) = env_fs_stat E h1 USER_INDEX_PATH;
                    h2 = h1 @ [Fs_stat USER_INDEX_PATH ret2]
                in if ret2 < 0 then ((ret2, None), s1, h2)
                   else if de_type entry \<noteq> FS_DIR_ENTRY_FILE then ((err EISDIR, None), s1, h2)
                   else ((0, Some (de_size entry)), s1, h2))"

text \<open>
  The read loop ends only when the file does, which is up to the file system: \<open>None\<close> stands for a
  loop that never ends.
\<close>

partial_function (option) stream_loop ::
  "env \<Rightarrow> (u8 list \<Rightarrow> hist \<Rightarrow> int \<times> hist) \<Rightarrow> hist \<Rightarrow> (int \<times> hist) option" where
  "stream_loop E writer h =
     (case env_fs_read E h STORAGE_IO_CHUNK of
        Inl e \<Rightarrow> Some (e, h @ [Fs_read STORAGE_IO_CHUNK (Inl e)])
      | Inr bs \<Rightarrow>
          if bs = [] then Some (0, h @ [Fs_read STORAGE_IO_CHUNK (Inr bs)])
          else if fst (writer bs (h @ [Fs_read STORAGE_IO_CHUNK (Inr bs)])) < 0
          then Some (writer bs (h @ [Fs_read STORAGE_IO_CHUNK (Inr bs)]))
          else stream_loop E writer (snd (writer bs (h @ [Fs_read STORAGE_IO_CHUNK (Inr bs)]))))"

definition storage_stream_user_index ::
  "env \<Rightarrow> (u8 list \<Rightarrow> hist \<Rightarrow> int \<times> hist) option \<Rightarrow> storage \<Rightarrow> hist \<Rightarrow>
     (int \<times> storage \<times> hist) option" where
  "storage_stream_user_index E writer_opt s h =
     (case writer_opt of
        None \<Rightarrow> Some (err EINVAL, s, h)
      | Some writer \<Rightarrow>
          let (ret, s1, h1) = storage_mount_once E s h in
          if ret < 0 then Some (ret, s1, h1)
          else let ret2 = env_fs_open E h1 USER_INDEX_PATH FS_O_READ;
                   h2 = h1 @ [Fs_open USER_INDEX_PATH FS_O_READ ret2]
               in if ret2 < 0 then Some (ret2, s1, h2)
                  else map_option (\<lambda>(ret3, h3). (ret3, s1, h3 @ [Fs_close]))
                         (stream_loop E writer h2))"

text \<open>The inner loop of an upload: one chunk, written piece by piece. \<open>ret\<close> is the value so far.\<close>

function write_chunk :: "env \<Rightarrow> int \<Rightarrow> u8 list \<Rightarrow> hist \<Rightarrow> int \<times> hist" where
  "write_chunk E ret bs h =
     (if bs = [] then (ret, h)
      else let written = env_fs_write E h bs;
               h1 = h @ [Fs_write bs written]
           in if written < 0 then (written, h1)
              else if written = 0 then (err EIO, h1)
              else write_chunk E ret (drop (nat written) bs) h1)"
  by pat_completeness auto
termination
  by (relation "measure (\<lambda>(E, ret, bs, h). length bs)") auto

declare write_chunk.simps [simp del]

text \<open>
  The outer loop: \<open>reader(ctx, buf, requested, &read_len)\<close> returns its result and the \<open>read_len\<close>
  bytes it has put into \<open>buf\<close>, and may change its context.
\<close>

function write_loop ::
  "env \<Rightarrow> ('c \<Rightarrow> nat \<Rightarrow> hist \<Rightarrow> (int \<times> u8 list) \<times> 'c \<times> hist) \<Rightarrow> 'c \<Rightarrow> nat \<Rightarrow> int \<Rightarrow> hist \<Rightarrow>
     int \<times> nat \<times> 'c \<times> hist" where
  "write_loop E reader ctx remaining ret h =
     (if remaining = 0 then (ret, remaining, ctx, h)
      else let requested = min remaining STORAGE_IO_CHUNK;
               ((ret1, data), ctx1, h1) = reader ctx requested h
           in if ret1 < 0 then (ret1, remaining, ctx1, h1)
              else if data = [] \<or> requested < length data then (err EIO, remaining, ctx1, h1)
              else let (ret2, h2) = write_chunk E ret1 data h1
                   in if ret2 < 0 then (ret2, remaining, ctx1, h2)
                      else write_loop E reader ctx1 (remaining - length data) ret2 h2)"
  by pat_completeness auto
termination
  by (relation "measure (\<lambda>(E, reader, ctx, remaining, ret, h). remaining)")
    (auto simp: STORAGE_IO_CHUNK_def)

declare write_loop.simps [simp del]

lemma write_loop_0 [simp]: "write_loop E reader ctx 0 ret h = (ret, 0, ctx, h)"
  by (simp add: write_loop.simps [of E reader ctx 0 ret h])

text \<open>\<open>/lfs/user\<close> is made when it is missing and refused when it is not a directory.\<close>

definition ensure_user_dir :: "env \<Rightarrow> hist \<Rightarrow> int \<times> hist" where
  "ensure_user_dir E h =
     (let (ret, entry) = env_fs_stat E h USER_DIR_PATH;
          h1 = h @ [Fs_stat USER_DIR_PATH ret]
      in if ret = err ENOENT then
           (let ret2 = env_fs_mkdir E h1 USER_DIR_PATH
            in (ret2, h1 @ [Fs_mkdir USER_DIR_PATH ret2]))
         else if ret < 0 then (ret, h1)
         else if de_type entry \<noteq> FS_DIR_ENTRY_DIR then (err ENOTDIR, h1)
         else (ret, h1))"

definition storage_write_user_index_stream ::
  "env \<Rightarrow> nat \<Rightarrow> ('c \<Rightarrow> nat \<Rightarrow> hist \<Rightarrow> (int \<times> u8 list) \<times> 'c \<times> hist) option \<Rightarrow> 'c \<Rightarrow>
     storage \<Rightarrow> hist \<Rightarrow> int \<times> 'c \<times> storage \<times> hist" where
  "storage_write_user_index_stream E len reader_opt ctx s h =
     (case reader_opt of
        None \<Rightarrow> (err EINVAL, ctx, s, h)
      | Some reader \<Rightarrow>
          let (ret, s1, h1) = storage_mount_once E s h in
          if ret < 0 then (ret, ctx, s1, h1)
          else let (ret2, h2) = ensure_user_dir E h1 in
          if ret2 < 0 then (ret2, ctx, s1, h2)
          else let ret3 = env_fs_open E h2 USER_INDEX_PATH FS_O_CREATE_TRUNC_WRITE;
                   h3 = h2 @ [Fs_open USER_INDEX_PATH FS_O_CREATE_TRUNC_WRITE ret3]
          in if ret3 < 0 then (ret3, ctx, s1, h3)
          else let (ret4, remaining, ctx1, h4) = write_loop E reader ctx len ret3 h3
          in if ret4 < 0 then (ret4, ctx1, s1, h4 @ [Fs_close])
          else let ret5 = env_fs_sync E h4;
                   h5 = h4 @ [Fs_sync ret5, Fs_close]
          in if ret5 < 0 then (ret5, ctx1, s1, h5)
          else if remaining \<noteq> 0 then (err EIO, ctx1, s1, h5)
          else let (s2, h6) = update_space_locked E s1 (h5 @ [K_mutex_lock Storage_lock])
               in (0, ctx1, s2, h6 @ [K_mutex_unlock Storage_lock]))"

section \<open>What is observed of the file system\<close>

text \<open>The contents of the page since it was last opened for writing, and what has been read of it.\<close>

fun page_step :: "u8 list \<Rightarrow> call \<Rightarrow> u8 list" where
  "page_step p (Fs_open path FS_O_CREATE_TRUNC_WRITE r) = (if r < 0 then p else [])"
| "page_step p (Fs_write bs w) = (if w < 0 then p else p @ take (nat w) bs)"
| "page_step p _ = p"

definition page :: "u8 list \<Rightarrow> hist \<Rightarrow> u8 list" where
  "page p0 h = foldl page_step p0 h"

fun read_step :: "u8 list \<Rightarrow> call \<Rightarrow> u8 list" where
  "read_step p (Fs_open path FS_O_READ r) = (if r < 0 then p else [])"
| "read_step p (Fs_read n (Inr bs)) = p @ bs"
| "read_step p _ = p"

definition page_read :: "hist \<Rightarrow> u8 list" where
  "page_read h = foldl read_step [] h"

fun fs_mounts :: "call \<Rightarrow> bool" where
  "fs_mounts (Fs_mount _) = True"
| "fs_mounts _ = False"

definition mounts :: "hist \<Rightarrow> nat" where
  "mounts h = length (filter fs_mounts h)"

lemma page_append [hist_simps, simp]: "page p0 (h @ cs) = foldl page_step (page p0 h) cs"
  by (simp add: page_def)

lemma page_read_append [hist_simps, simp]: "page_read (h @ cs) = foldl read_step (page_read h) cs"
  by (simp add: page_read_def)

lemma mounts_append [hist_simps, simp]: "mounts (h @ h') = mounts h + mounts h'"
  by (simp add: mounts_def)

lemma mounts_simps [hist_simps, simp]:
  "mounts [] = 0"
  "mounts (c # h) = (if fs_mounts c then Suc (mounts h) else mounts h)"
  by (simp_all add: mounts_def)

text \<open>The calls of this component; apart from the loops it makes no other.\<close>

fun storage_call :: "call \<Rightarrow> bool" where
  "storage_call (K_mutex_lock m) = (m = Storage_lock)"
| "storage_call (K_mutex_unlock m) = (m = Storage_lock)"
| "storage_call (Fs_mount _) = True"
| "storage_call (Fs_statvfs _) = True"
| "storage_call (Fs_stat _ _) = True"
| "storage_call (Fs_mkdir _ _) = True"
| "storage_call (Fs_open _ _ _) = True"
| "storage_call (Fs_read _ _) = True"
| "storage_call (Fs_write _ _) = True"
| "storage_call (Fs_sync _) = True"
| "storage_call Fs_close = True"
| "storage_call _ = False"

text \<open>Extension of the history by calls that leave the page and the read position alone.\<close>

definition quiet :: "hist \<Rightarrow> hist \<Rightarrow> bool" where
  "quiet h h' \<longleftrightarrow> (\<exists>cs. h' = h @ cs \<and> list_all storage_call cs \<and>
     list_all (\<lambda>c. (\<forall>p. page_step p c = p) \<and> (\<forall>p. read_step p c = p)) cs)"

lemma quiet_refl [simp]: "quiet h h"
  by (simp add: quiet_def)

lemma quiet_trans: "quiet h h' \<Longrightarrow> quiet h' h'' \<Longrightarrow> quiet h h''"
  by (auto simp: quiet_def)

lemma quiet_append: "quiet h h' \<Longrightarrow> list_all storage_call cs \<Longrightarrow>
    list_all (\<lambda>c. (\<forall>p. page_step p c = p) \<and> (\<forall>p. read_step p c = p)) cs \<Longrightarrow> quiet h (h' @ cs)"
  by (auto simp: quiet_def)

lemma quiet_page: "quiet h h' \<Longrightarrow> page p0 h' = page p0 h \<and> page_read h' = page_read h"
proof -
  have "list_all (\<lambda>c. (\<forall>p. page_step p c = p) \<and> (\<forall>p. read_step p c = p)) cs \<Longrightarrow>
      foldl page_step p cs = p \<and> foldl read_step r cs = r" for cs p r
    by (induction cs) auto
  then show "quiet h h' \<Longrightarrow> page p0 h' = page p0 h \<and> page_read h' = page_read h"
    by (auto simp: quiet_def)
qed

lemma quiet_extends: "quiet h h' \<Longrightarrow> extends storage_call h h'"
  by (auto simp: quiet_def extends_def)

lemma quiet_keeps:
  "quiet h h' \<Longrightarrow> (\<And>h c. storage_call c \<Longrightarrow> f (h @ [c]) = f h) \<Longrightarrow> f h' = f h"
  using extends_keeps quiet_extends by metis

lemma update_space_quiet: "update_space_locked E s h = (s', h') \<Longrightarrow> quiet h h'"
  by (auto simp: update_space_locked_def Let_def quiet_def split: if_splits prod.splits)

lemma storage_mount_once_quiet: "storage_mount_once E s h = (r, s', h') \<Longrightarrow> quiet h h'"
  by (auto simp: storage_mount_once_def Let_def split: if_splits prod.splits
      intro!: quiet_append dest!: update_space_quiet elim: quiet_trans [rotated])

lemma storage_get_status_quiet: "storage_get_status E s h = (st, s', h') \<Longrightarrow> quiet h h'"
  by (auto simp: storage_get_status_def Let_def split: prod.splits
      intro!: quiet_append dest!: update_space_quiet elim: quiet_trans [rotated])

lemma ensure_user_dir_quiet: "ensure_user_dir E h = (r, h') \<Longrightarrow> quiet h h'"
  by (auto simp: ensure_user_dir_def Let_def quiet_def split: if_splits prod.splits)

section \<open>The calls of the loops\<close>

text \<open>The loops make their own file calls and those of their callback.\<close>

lemma stream_loop_extends:
  assumes "stream_loop E writer h = Some y" and "\<And>r. P (Fs_read STORAGE_IO_CHUNK r)"
    and "\<And>bs h. extends P h (snd (writer bs h))"
  shows "extends P h (snd y)"
proof -
  have "(\<forall>bs h. extends P h (snd (writer bs h))) \<longrightarrow> extends P h (snd y)"
  proof (rule stream_loop.raw_induct [where P = "\<lambda>E writer h y.
      (\<forall>bs h. extends P h (snd (writer bs h))) \<longrightarrow> extends P h (snd y)", OF _ assms(1)], goal_cases)
    case 1: (1 rec E writer h y)
    show ?case
    proof
      assume a: "\<forall>bs h. extends P h (snd (writer bs h))"
      have rd: "extends P h (h @ [Fs_read STORAGE_IO_CHUNK r])" for r
        by (rule extends_append) (simp add: assms(2))
      show "extends P h (snd y)"
      proof (cases "env_fs_read E h STORAGE_IO_CHUNK")
        case (Inl e)
        then show ?thesis using 1(2) rd by auto
      next
        case (Inr bs)
        let ?h1 = "h @ [Fs_read STORAGE_IO_CHUNK (Inr bs)]"
        have w: "extends P h (snd (writer bs ?h1))" using extends_trans [OF rd] a by blast
        show ?thesis
        proof (cases "bs = [] \<or> fst (writer bs ?h1) < 0")
          case True
          then show ?thesis using 1(2) Inr rd w by (auto split: if_splits)
        next
          case False
          then have "rec E writer (snd (writer bs ?h1)) = Some y" using 1(2) Inr by simp
          from 1(1) [OF this] a show ?thesis using extends_trans [OF w] by blast
        qed
      qed
    qed
  qed
  with assms(3) show ?thesis by blast
qed

lemma write_chunk_extends:
  assumes W: "\<And>bs w. P (Fs_write bs w)"
  shows "write_chunk E ret bs h = (r, h') \<Longrightarrow> extends P h h'"
proof (induction E ret bs h rule: write_chunk.induct)
  case (1 E ret bs h)
  let ?h1 = "h @ [Fs_write bs (env_fs_write E h bs)]"
  have e: "extends P h ?h1" by (rule extends_append) (simp add: W)
  have "extends P ?h1 h'"
    if "bs \<noteq> []" "0 < env_fs_write E h bs"
    using 1 that by (simp add: write_chunk.simps [of E ret bs h] Let_def)
  then show ?case
    using 1(2) e extends_trans [OF e] by (auto simp: write_chunk.simps [of E ret bs h] Let_def split: if_splits)
qed

lemma write_loop_extends:
  assumes "write_loop E reader c n ret h = (r, rem, c', h')" and W: "\<And>bs w. P (Fs_write bs w)"
    and R: "\<And>c m h. K c \<Longrightarrow> extends P h (snd (snd (reader c m h))) \<and> K (fst (snd (reader c m h)))"
    and K: "K c"
  shows "extends P h h'"
  using assms(1) K
proof (induction n arbitrary: c ret h rule: less_induct)
  case (less n)
  show ?case
  proof (cases "n = 0")
    case True
    then show ?thesis using less.prems by simp
  next
    case False
    let ?req = "min n STORAGE_IO_CHUNK"
    obtain r1 data c1 h1 where rd: "reader c ?req h = ((r1, data), c1, h1)"
      by (metis prod.exhaust)
    have m1: "extends P h h1" and K1: "K c1" using R [OF less.prems(2), of h ?req] rd by simp_all
    obtain r2 h2 where wc: "write_chunk E r1 data h1 = (r2, h2)"
      by (metis prod.exhaust)
    have m2: "extends P h h2" using m1 write_chunk_extends [of P, OF W wc] by (rule extends_trans)
    show ?thesis
    proof (cases "r1 < 0 \<or> data = [] \<or> ?req < length data \<or> r2 < 0")
      case True
      then show ?thesis
        using less.prems False rd wc m1 m2
        by (auto simp: write_loop.simps [of E reader c n ret h] Let_def split: if_splits)
    next
      case ok: False
      then have "n - length data < n" using False by (cases data) auto
      moreover have "write_loop E reader c1 (n - length data) r2 h2 = (r, rem, c', h')"
        using less.prems False rd wc ok
        by (simp add: write_loop.simps [of E reader c n ret h] Let_def)
      ultimately show ?thesis using less.IH K1 extends_trans [OF m2] by blast
    qed
  qed
qed

text \<open>So do the two operations.\<close>

lemma stream_user_index_extends:
  assumes "storage_stream_user_index E (Some writer) s h = Some (r, s', h')"
    and P: "\<And>c. storage_call c \<Longrightarrow> P c" and "\<And>bs h. extends P h (snd (writer bs h))"
  shows "extends P h h'"
proof -
  obtain r1 s1 h1 where m: "storage_mount_once E s h = (r1, s1, h1)" by (metis prod.exhaust)
  define r2 where "r2 = env_fs_open E h1 USER_INDEX_PATH FS_O_READ"
  have e1: "extends P h h1"
    using quiet_extends [OF storage_mount_once_quiet [OF m]] P by (rule extends_mono)
  then have e2: "extends P h (h1 @ [Fs_open USER_INDEX_PATH FS_O_READ r2])"
    by (rule extends_snoc) (simp add: P)
  have sl: "extends P h (h3 @ [Fs_close])"
    if "stream_loop E writer (h1 @ [Fs_open USER_INDEX_PATH FS_O_READ r2]) = Some (r3, h3)" for r3 h3
    using extends_trans [OF e2] stream_loop_extends [OF that, of P] assms(3)
    by (intro extends_snoc) (simp_all add: P)
  show ?thesis
    using assms(1) m e1 e2 sl
    by (auto simp: storage_stream_user_index_def r2_def [symmetric] Let_def split: if_splits)
qed

lemma write_user_index_extends:
  assumes w: "storage_write_user_index_stream E len (Some reader) ctx s h = (r, ctx', s', h')"
    and P: "\<And>c. storage_call c \<Longrightarrow> P c" and K: "K ctx"
    and R: "\<And>c m h. K c \<Longrightarrow> extends P h (snd (snd (reader c m h))) \<and> K (fst (snd (reader c m h)))"
  shows "extends P h h'"
proof -
  obtain r1 s1 h1 where m: "storage_mount_once E s h = (r1, s1, h1)" by (metis prod.exhaust)
  obtain r2 h2 where d: "ensure_user_dir E h1 = (r2, h2)" by (metis prod.exhaust)
  define r3 where "r3 = env_fs_open E h2 USER_INDEX_PATH FS_O_CREATE_TRUNC_WRITE"
  define h3 where "h3 = h2 @ [Fs_open USER_INDEX_PATH FS_O_CREATE_TRUNC_WRITE r3]"
  obtain r4 rem c4 h4 where l: "write_loop E reader ctx len r3 h3 = (r4, rem, c4, h4)"
    by (metis prod.exhaust)
  define r5 where "r5 = env_fs_sync E h4"
  let ?h5 = "h4 @ [Fs_sync r5, Fs_close, K_mutex_lock Storage_lock]"
  obtain s6 h6 where u: "update_space_locked E s1 ?h5 = (s6, h6)" by (metis prod.exhaust)
  have Q: "extends P g g'" if "quiet g g'" for g g' using quiet_extends [OF that] P by (rule extends_mono)
  have e: "extends P h h1" "extends P h h2" "extends P h h3" "extends P h h4"
  proof -
    show "extends P h h1" using Q storage_mount_once_quiet [OF m] by blast
    then show "extends P h h2" using Q ensure_user_dir_quiet [OF d] extends_trans by blast
    then show "extends P h h3" unfolding h3_def by (rule extends_snoc) (simp add: P)
    then show "extends P h h4" by (rule extends_trans) (rule write_loop_extends [OF l _ R K], simp_all add: P)
  qed
  have e5: "extends P h (h4 @ cs)" if "list_all storage_call cs" for cs
    using e(4) by (rule extends_snoc) (use that P in \<open>auto simp: list_all_iff\<close>)
  have "extends P h h6"
    using e5 extends_trans [OF _ Q [OF update_space_quiet [OF u]]] by simp
  then have e6: "extends P h (h6 @ [K_mutex_unlock Storage_lock])"
    by (rule extends_snoc) (simp add: P)
  note defs = storage_write_user_index_stream_def m d l r3_def [symmetric] h3_def [symmetric]
    r5_def [symmetric] u
  show ?thesis
    using w e e5 [of "[Fs_close]"] e5 [of "[Fs_sync r5, Fs_close]"] e6 by (auto simp: defs Let_def split: if_splits)
qed

lemma user_index_size_extends:
  "storage_user_index_size E null s h = (r, s', h') \<Longrightarrow> extends storage_call h h'"
  by (auto simp: storage_user_index_size_def Let_def split: if_splits prod.splits
      intro!: extends_snoc dest!: storage_mount_once_quiet quiet_extends)

lemma format_status_extends:
  "storage_format_status_json E n s h = (r, s', h') \<Longrightarrow> extends storage_call h h'"
  by (auto simp: storage_format_status_json_def Let_def split: prod.splits
      dest!: storage_mount_once_quiet storage_get_status_quiet quiet_extends intro: extends_trans)

section \<open>The invariant of the state\<close>

text \<open>
  The file system is mounted at most once, the flags say what the mount returned, and no space is
  reported without a mount.
\<close>

definition storage_inv :: "storage \<Rightarrow> hist \<Rightarrow> bool" where
  "storage_inv s h \<longleftrightarrow>
     mounts h = (if mount_attempted s then 1 else 0) \<and>
     (mounted s \<longleftrightarrow> mount_attempted s \<and> mount_ret s = 0) \<and>
     (\<not> mount_attempted s \<longrightarrow> mount_ret s = err ENODEV) \<and>
     (\<not> mounted s \<longrightarrow> total_kib s = 0 \<and> free_kib s = 0)"

lemma storage_inv_boot: "storage_inv storage_boot []"
  by (simp add: storage_inv_def storage_boot_def)

lemma update_space_inv:
  assumes "update_space_locked E s h = (s', h')" and "storage_inv s h"
  shows "storage_inv s' h'" and "mount_attempted s' = mount_attempted s" and "mount_ret s' = mount_ret s"
    and "mounted s' = mounted s"
  using assms
  by (auto simp: update_space_locked_def storage_inv_def Let_def split: if_splits prod.splits)

lemma storage_inv_append:
  "storage_inv s h \<Longrightarrow> list_all (\<lambda>c. \<not> fs_mounts c) cs \<Longrightarrow> storage_inv s (h @ cs)"
  by (auto simp: storage_inv_def mounts_def list_all_iff filter_empty_conv)

lemma storage_mount_once_inv:
  assumes "storage_mount_once E s h = (r, s', h')" and "storage_inv s h"
  shows "storage_inv s' h'" and "mount_attempted s'" and "r = mount_ret s'"
    and "mount_attempted s \<Longrightarrow> s' = s"
proof -
  show *: "storage_inv s' h'"
    using assms
    by (auto simp: storage_mount_once_def update_space_locked_def storage_inv_def Let_def ENODEV_def
        split: if_splits prod.splits)
  show "mount_attempted s'" "r = mount_ret s'" "mount_attempted s \<Longrightarrow> s' = s"
    using assms
    by (auto simp: storage_mount_once_def update_space_locked_def Let_def split: if_splits prod.splits)
qed

lemma storage_get_status_inv:
  assumes "storage_get_status E s h = (st, s', h')" and "storage_inv s h"
  shows "storage_inv s' h'"
    and "ss_mounted st \<longleftrightarrow> ss_attempted st \<and> ss_mount_ret st = 0"
    and "\<not> ss_mounted st \<longrightarrow> ss_total_kib st = 0 \<and> ss_free_kib st = 0"
    and "ss_attempted st = mount_attempted s" and "ss_mount_ret st = mount_ret s"
  using assms
  by (auto simp: storage_get_status_def update_space_locked_def storage_inv_def Let_def
      split: if_splits prod.splits)

text \<open>Any other extension of the history that mounts nothing keeps the invariant.\<close>

section \<open>Where an upload comes from\<close>

text \<open>A file system on which nothing the upload calls fails, seen from the state of the storage.\<close>

definition fs_works :: "env \<Rightarrow> storage \<Rightarrow> bool" where
  "fs_works E s \<longleftrightarrow> (mount_attempted s \<longrightarrow> 0 \<le> mount_ret s) \<and>
     (\<forall>h. 0 \<le> env_fs_mount E h \<and> 0 \<le> env_fs_mkdir E h USER_DIR_PATH \<and>
        (case env_fs_stat E h USER_DIR_PATH of
           (ret, entry) \<Rightarrow> ret = err ENOENT \<or> 0 \<le> ret \<and> de_type entry = FS_DIR_ENTRY_DIR) \<and>
        0 \<le> env_fs_open E h USER_INDEX_PATH FS_O_CREATE_TRUNC_WRITE \<and> 0 \<le> env_fs_sync E h \<and>
        (\<forall>bs. bs \<noteq> [] \<longrightarrow> 0 < env_fs_write E h bs))"

lemma fs_works_ret:
  assumes "fs_works E s"
  shows "storage_mount_once E s h = (r, s', h') \<Longrightarrow> 0 \<le> r" and "ensure_user_dir E h = (r, h') \<Longrightarrow> 0 \<le> r"
    and "0 \<le> env_fs_open E h USER_INDEX_PATH FS_O_CREATE_TRUNC_WRITE" and "0 \<le> env_fs_sync E h"
    and "bs \<noteq> [] \<Longrightarrow> 0 < env_fs_write E h bs"
proof -
  note w = assms [unfolded fs_works_def, THEN conjunct2, rule_format]
  show "storage_mount_once E s h = (r, s', h') \<Longrightarrow> 0 \<le> r"
    using conjunct1 [OF assms [unfolded fs_works_def]] w [of "h @ [K_mutex_lock Storage_lock]", THEN conjunct1]
    by (auto simp: storage_mount_once_def Let_def split: if_splits prod.splits)
  show "ensure_user_dir E h = (r, h') \<Longrightarrow> 0 \<le> r"
    using w [of h] w [of "h @ [Fs_stat USER_DIR_PATH (fst (env_fs_stat E h USER_DIR_PATH))]"]
    by (cases "env_fs_stat E h USER_DIR_PATH") (auto simp: ensure_user_dir_def Let_def split: if_splits)
  show "0 \<le> env_fs_open E h USER_INDEX_PATH FS_O_CREATE_TRUNC_WRITE" "0 \<le> env_fs_sync E h"
    using w [of h] by blast+
  show "bs \<noteq> [] \<Longrightarrow> 0 < env_fs_write E h bs" using w [of h] by blast
qed

text \<open>A file system from which the page can be read.\<close>

definition fs_readable :: "env \<Rightarrow> storage \<Rightarrow> bool" where
  "fs_readable E s \<longleftrightarrow> (mount_attempted s \<longrightarrow> 0 \<le> mount_ret s) \<and>
     (\<forall>h. 0 \<le> env_fs_mount E h \<and> 0 \<le> env_fs_open E h USER_INDEX_PATH FS_O_READ \<and>
        (case env_fs_stat E h USER_INDEX_PATH of (ret, entry) \<Rightarrow> 0 \<le> ret \<and> de_type entry = FS_DIR_ENTRY_FILE) \<and>
        (\<exists>bs. env_fs_read E h STORAGE_IO_CHUNK = Inr bs))"

lemma fs_readable_ret:
  assumes "fs_readable E s"
  shows "storage_mount_once E s h = (r, s', h') \<Longrightarrow> 0 \<le> r \<and> fs_readable E s'"
    and "0 \<le> env_fs_open E h USER_INDEX_PATH FS_O_READ" and "\<exists>bs. env_fs_read E h STORAGE_IO_CHUNK = Inr bs"
    and "env_fs_stat E h USER_INDEX_PATH = (ret, entry) \<Longrightarrow> 0 \<le> ret \<and> de_type entry = FS_DIR_ENTRY_FILE"
proof -
  note w = assms [unfolded fs_readable_def, THEN conjunct2, rule_format]
  show "storage_mount_once E s h = (r, s', h') \<Longrightarrow> 0 \<le> r \<and> fs_readable E s'"
  proof -
    assume m: "storage_mount_once E s h = (r, s', h')"
    have "0 \<le> r \<and> mount_ret s' = r"
      using m conjunct1 [OF assms [unfolded fs_readable_def]] w [of "h @ [K_mutex_lock Storage_lock]", THEN conjunct1]
      by (auto simp: storage_mount_once_def update_space_locked_def Let_def split: if_splits prod.splits)
    then show "0 \<le> r \<and> fs_readable E s'" using conjunct2 [OF assms [unfolded fs_readable_def]] by (simp add: fs_readable_def)
  qed
  show "0 \<le> env_fs_open E h USER_INDEX_PATH FS_O_READ" "\<exists>bs. env_fs_read E h STORAGE_IO_CHUNK = Inr bs"
    using w [of h] by blast+
  show "env_fs_stat E h USER_INDEX_PATH = (ret, entry) \<Longrightarrow> 0 \<le> ret \<and> de_type entry = FS_DIR_ENTRY_FILE"
    using w [of h] by auto
qed

lemma write_chunk_works: "fs_works E s \<Longrightarrow> fst (write_chunk E ret bs h) = ret"
proof (induction E ret bs h rule: write_chunk.induct)
  case (1 E ret bs h)
  show ?case
  proof (cases "bs = []")
    case True
    then show ?thesis by (simp add: write_chunk.simps [of E ret "[]" h])
  next
    case False
    then have "0 < env_fs_write E h bs" by (rule fs_works_ret(5) [OF 1(2)])
    then show ?thesis using 1(1) [OF False refl refl] 1(2) False by (simp add: write_chunk.simps [of E ret bs h] Let_def)
  qed
qed

text \<open>
  The interface \<open>storage_read_cb_t\<close>. \<open>taken c h\<close> is what the source has handed out so far and
  \<open>inv\<close> what it keeps between calls: a read that does not fail hands out the bytes it returns, it
  does not touch the file system, and the calls of the storage do not touch the source.
\<close>

locale body_source =
  fixes reader :: "'c \<Rightarrow> nat \<Rightarrow> hist \<Rightarrow> (int \<times> u8 list) \<times> 'c \<times> hist"
    and taken :: "'c \<Rightarrow> hist \<Rightarrow> u8 list" and inv :: "'c \<Rightarrow> hist \<Rightarrow> bool"
  assumes read_inv: "reader c m h = ((r, bs), c', h') \<Longrightarrow> 0 < m \<Longrightarrow> inv c h \<Longrightarrow> inv c' h'"
    and read_taken: "reader c m h = ((r, bs), c', h') \<Longrightarrow> 0 < m \<Longrightarrow> inv c h \<Longrightarrow> 0 \<le> r \<Longrightarrow>
      taken c' h' = taken c h @ bs"
    and read_page: "reader c m h = ((r, bs), c', h') \<Longrightarrow> page p0 h' = page p0 h"
    and inv_storage: "storage_call x \<Longrightarrow> inv c (h @ [x]) = inv c h"
    and taken_storage: "storage_call x \<Longrightarrow> taken c (h @ [x]) = taken c h"
begin

lemma quiet_source: "quiet h h' \<Longrightarrow> inv c h' = inv c h \<and> taken c h' = taken c h"
  using quiet_keeps [of h h' "inv c"] quiet_keeps [of h h' "taken c"] inv_storage taken_storage
  by simp

lemma write_chunk_source:
  "write_chunk E ret bs h = (r, h') \<Longrightarrow> inv c h' = inv c h \<and> taken c h' = taken c h"
proof (induction E ret bs h rule: write_chunk.induct)
  case (1 E ret bs h)
  then show ?case
    by (auto simp: write_chunk.simps [of E ret bs h] Let_def inv_storage taken_storage split: if_splits)
qed

end

text \<open>What a chunk leaves in the page: all of it when the loop succeeds, else a part.\<close>

context littlefs
begin

lemma write_chunk_page:
  "write_chunk E ret bs h = (r, h') \<Longrightarrow> 0 \<le> ret \<Longrightarrow>
    (\<exists>p. prefix p bs \<and> page p0 h' = page p0 h @ p) \<and> (0 \<le> r \<longrightarrow> r = ret \<and> page p0 h' = page p0 h @ bs)"
proof (induction "length bs" arbitrary: bs h rule: less_induct)
  case less
  let ?w = "env_fs_write E h bs"
  show ?case
  proof (cases "bs = [] \<or> ?w \<le> 0")
    case True
    then show ?thesis
      using less.prems by (auto simp: write_chunk.simps [of E ret bs h] Let_def split: if_splits)
  next
    case False
    then have n: "0 < nat ?w" "nat ?w \<le> length bs" "length (drop (nat ?w) bs) < length bs"
      using fs_write_len [of h bs] by (auto simp: nat_le_iff)
    have "write_chunk E ret (drop (nat ?w) bs) (h @ [Fs_write bs ?w]) = (r, h')"
      using less.prems False by (simp add: write_chunk.simps [of E ret bs h] Let_def)
    from less.hyps [OF n(3) this less.prems(2)] obtain p where
      p: "prefix p (drop (nat ?w) bs)" "page p0 h' = page p0 h @ take (nat ?w) bs @ p"
      "0 \<le> r \<Longrightarrow> r = ret \<and> page p0 h' = page p0 h @ bs"
      using False by auto
    then show ?thesis
      using prefix_take_append [OF p(1)] by blast
  qed
qed

end

context body_source
begin

lemma write_loop_source:
  assumes "littlefs E"
  shows "write_loop E reader c remaining ret h = (r, rem, c', h') \<Longrightarrow> 0 \<le> ret \<Longrightarrow> inv c h \<Longrightarrow>
    inv c' h' \<and> (\<exists>p. page p0 h' = page p0 h @ p) \<and>
    (0 \<le> r \<longrightarrow> rem = 0 \<and>
      (\<exists>bs. length bs = remaining \<and> page p0 h' = page p0 h @ bs \<and> taken c' h' = taken c h @ bs))"
proof (induction remaining arbitrary: c ret h rule: less_induct)
  case (less remaining)
  show ?case
  proof (cases "remaining = 0")
    case True
    then show ?thesis
      using less.prems by simp
  next
    case False
    let ?req = "min remaining STORAGE_IO_CHUNK"
    obtain r1 data c1 h1 where rd: "reader c ?req h = ((r1, data), c1, h1)"
      by (metis prod.exhaust)
    have req: "0 < ?req" using False by (simp add: STORAGE_IO_CHUNK_def)
    have i1: "inv c1 h1" "page p0 h1 = page p0 h"
      using rd req less.prems(3) by (blast intro: read_inv) (rule read_page [OF rd])
    show ?thesis
    proof (cases "r1 < 0 \<or> data = [] \<or> ?req < length data")
      case True
      then show ?thesis
        using less.prems(1) False rd i1
        by (auto simp: write_loop.simps [of E reader c remaining ret h] Let_def split: if_splits)
    next
      case ok: False
      then have t1: "taken c1 h1 = taken c h @ data"
        using read_taken [OF rd req less.prems(3)] by simp
      obtain r2 h2 where wc: "write_chunk E r1 data h1 = (r2, h2)"
        by (metis prod.exhaust)
      have w: "\<exists>p. page p0 h2 = page p0 h1 @ p" "0 \<le> r2 \<Longrightarrow> r2 = r1 \<and> page p0 h2 = page p0 h1 @ data"
        using littlefs.write_chunk_page [OF assms wc] ok by auto
      have s2: "inv c1 h2" "taken c1 h2 = taken c1 h1"
        using write_chunk_source [OF wc] i1 by simp_all
      show ?thesis
      proof (cases "r2 < 0")
        case True
        then show ?thesis
          using less.prems(1) False rd ok wc w(1) s2 i1
          by (auto simp: write_loop.simps [of E reader c remaining ret h] Let_def)
      next
        case False
        with w(2) have w2: "page p0 h2 = page p0 h @ data" using i1 by simp
        have "remaining - length data < remaining"
          using ok \<open>remaining \<noteq> 0\<close> by (cases data) auto
        moreover have "write_loop E reader c1 (remaining - length data) r2 h2 = (r, rem, c', h')"
          using less.prems(1) False rd ok wc \<open>remaining \<noteq> 0\<close>
          by (simp add: write_loop.simps [of E reader c remaining ret h] Let_def)
        ultimately have "inv c' h' \<and> (\<exists>p. page p0 h' = page p0 h2 @ p) \<and>
          (0 \<le> r \<longrightarrow> rem = 0 \<and> (\<exists>bs. length bs = remaining - length data \<and>
             page p0 h' = page p0 h2 @ bs \<and> taken c' h' = taken c1 h2 @ bs))"
          using less.IH s2(1) False by simp
        moreover have "length data \<le> remaining" using ok by linarith
        ultimately show ?thesis
          using w2 t1 s2 by (auto intro: exI [of _ "data @ _"])
      qed
    qed
  qed
qed

text \<open>
  An upload that returns 0 leaves in the page exactly \<open>len\<close> bytes, the next ones of the source.
\<close>

lemma upload_page:
  assumes E: "littlefs E" and i: "inv c h"
    and w: "storage_write_user_index_stream E len (Some reader) c s h = (0, c', s', h')"
  shows "length (page p0 h') = len \<and> taken c' h' = taken c h @ page p0 h' \<and> inv c' h'"
proof -
  obtain r1 s1 h1 where m: "storage_mount_once E s h = (r1, s1, h1)"
    by (metis prod.exhaust)
  obtain r2 h2 where d: "ensure_user_dir E h1 = (r2, h2)"
    by (metis prod.exhaust)
  define r3 where "r3 = env_fs_open E h2 USER_INDEX_PATH FS_O_CREATE_TRUNC_WRITE"
  define h3 where "h3 = h2 @ [Fs_open USER_INDEX_PATH FS_O_CREATE_TRUNC_WRITE r3]"
  obtain r4 rem c4 h4 where l: "write_loop E reader c len r3 h3 = (r4, rem, c4, h4)"
    by (metis prod.exhaust)
  define r5 where "r5 = env_fs_sync E h4"
  obtain s6 h6 where u: "update_space_locked E s1 (h4 @ [Fs_sync r5, Fs_close, K_mutex_lock Storage_lock]) = (s6, h6)"
    by (metis prod.exhaust)
  note defs = storage_write_user_index_stream_def m d l r3_def [symmetric] h3_def [symmetric]
    r5_def [symmetric] u
  have g: "0 \<le> r3" "0 \<le> r4" "c' = c4" "h' = h6 @ [K_mutex_unlock Storage_lock]"
    using w by (auto simp: defs Let_def split: if_splits)
  have q: "quiet h h2"
    using storage_mount_once_quiet [OF m] ensure_user_dir_quiet [OF d] by (rule quiet_trans)
  have "inv c h3" "taken c h3 = taken c h" "page p0 h3 = []"
    using quiet_source [OF q, of c] i g(1) by (simp_all add: h3_def inv_storage taken_storage)
  with write_loop_source [OF E l g(1), of p0] g(2) obtain bs where
    bs: "length bs = len" "page p0 h4 = bs" "taken c4 h4 = taken c h @ bs" "inv c4 h4"
    by auto
  have "quiet h4 (h4 @ [Fs_sync r5, Fs_close, K_mutex_lock Storage_lock])"
    by (rule quiet_append) simp_all
  then have "quiet h4 h6"
    using update_space_quiet [OF u] by (rule quiet_trans)
  then have "quiet h4 h'"
    unfolding g(4) by (rule quiet_append) simp_all
  then show ?thesis
    using bs g(3) quiet_page [of h4 h' p0] quiet_source [of h4 h' c4] by simp
qed

text \<open>An upload that finds the file system working and its source supplied with all it is to write succeeds.\<close>

definition supplied :: "nat \<Rightarrow> bool" where
  "supplied len \<longleftrightarrow> (\<forall>c m h r bs c' h'. reader c m h = ((r, bs), c', h') \<and> 0 < m \<and> inv c h \<and> length (taken c h) < len \<longrightarrow>
     0 \<le> r \<and> bs \<noteq> [] \<and> length bs \<le> m)"

lemma write_loop_works:
  assumes F: "fs_works E s" and ok: "supplied len"
  shows "inv c h \<Longrightarrow> length (taken c h) + rem = len \<Longrightarrow> 0 \<le> ret \<Longrightarrow>
    \<exists>r c' h'. write_loop E reader c rem ret h = (r, 0, c', h') \<and> 0 \<le> r"
proof (induction rem arbitrary: c h ret rule: less_induct)
  case (less rem)
  show ?case
  proof (cases "rem = 0")
    case False
    let ?m = "min rem STORAGE_IO_CHUNK"
    have m: "0 < ?m" using False by (simp add: STORAGE_IO_CHUNK_def)
    obtain r bs c1 h1 where rd: "reader c ?m h = ((r, bs), c1, h1)" by (metis prod.exhaust)
    have b: "0 \<le> r" "bs \<noteq> []" "length bs \<le> ?m" using ok rd m less.prems(1,2) False unfolding supplied_def by (metis add_diff_cancel_left' diff_is_0_eq' not_le_imp_less)+
    obtain r2 h2 where wc: "write_chunk E r bs h1 = (r2, h2)" by force
    have r2: "r2 = r" using write_chunk_works [OF F, of r bs h1] wc by simp
    have i: "inv c1 h2" "taken c1 h2 = taken c h @ bs"
      using write_chunk_source [OF wc, of c1] read_inv [OF rd m less.prems(1)] read_taken [OF rd m less.prems(1) b(1)] by auto
    have "rem - length bs < rem" using b False by simp
    moreover have "length (taken c1 h2) + (rem - length bs) = len" using i(2) b(3) less.prems(2) by simp
    moreover have "\<not> ?m < length bs" using b(3) by linarith
    ultimately show ?thesis
      using less.IH [of "rem - length bs" c1 h2 r] i(1) b(1,2) rd wc r2 False
      by (simp del: min_less_iff_disj add: write_loop.simps [of E reader c rem ret h] Let_def)
  qed (use less.prems in simp)
qed

lemma upload_works:
  assumes F: "fs_works E s" and i: "inv c h"
    and ok: "supplied (length (taken c h) + len)"
  shows "\<exists>c' s' h'. storage_write_user_index_stream E len (Some reader) c s h = (0, c', s', h')"
proof -
  obtain r1 s1 h1 where m: "storage_mount_once E s h = (r1, s1, h1)"
    by (metis prod.exhaust)
  obtain r2 h2 where d: "ensure_user_dir E h1 = (r2, h2)"
    by (metis prod.exhaust)
  define r3 where "r3 = env_fs_open E h2 USER_INDEX_PATH FS_O_CREATE_TRUNC_WRITE"
  define h3 where "h3 = h2 @ [Fs_open USER_INDEX_PATH FS_O_CREATE_TRUNC_WRITE r3]"
  have 1: "0 \<le> r1" "0 \<le> r2" "0 \<le> r3" "0 \<le> env_fs_sync E h4" for h4
    using fs_works_ret [OF F] m d by (auto simp: r3_def)
  have q: "quiet h h2"
    using storage_mount_once_quiet [OF m] ensure_user_dir_quiet [OF d] by (rule quiet_trans)
  have i3: "inv c h3" "taken c h3 = taken c h"
    using quiet_source [OF q, of c] i by (simp_all add: h3_def inv_storage taken_storage)
  obtain r4 c4 h4 where l: "write_loop E reader c len r3 h3 = (r4, 0, c4, h4)" "0 \<le> r4"
    using write_loop_works [OF F ok i3(1) _ 1(3), of len] i3(2) by auto
  show ?thesis
    using 1(1-3) 1(4) [of h4] l by (simp add: storage_write_user_index_stream_def m d r3_def [symmetric] h3_def [symmetric] Let_def
        split: prod.splits)
qed

end

section \<open>Where the page is streamed to\<close>

text \<open>
  The interface \<open>storage_write_cb_t\<close>. \<open>out h\<close> is what the sink has received: a call that does not
  fail receives the bytes given, one that fails a part of them; a call does not read the page, and
  the storage's calls send nothing.
\<close>

locale body_sink =
  fixes writer :: "u8 list \<Rightarrow> hist \<Rightarrow> int \<times> hist" and out :: "hist \<Rightarrow> u8 list"
  assumes writer_part: "writer bs h = (r, h') \<Longrightarrow> \<exists>p. prefix p bs \<and> out h' = out h @ p"
    and writer_all: "writer bs h = (r, h') \<Longrightarrow> 0 \<le> r \<Longrightarrow> out h' = out h @ bs"
    and writer_read: "writer bs h = (r, h') \<Longrightarrow> page_read h' = page_read h"
    and writer_page: "writer bs h = (r, h') \<Longrightarrow> page p0 h' = page p0 h"
    and out_storage: "storage_call x \<Longrightarrow> out (h @ [x]) = out h"

text \<open>
  A file system that stores the page, \<open>p0\<close> at boot: reading goes through what the writes have left and
  reports its end, and the size of the file is what \<open>fs_stat\<close> tells.
\<close>

locale page_store = littlefs E for E :: env +
  fixes p0 :: "u8 list"
  assumes read_next: "env_fs_read E h m = Inr bs \<Longrightarrow> 0 < m \<Longrightarrow> prefix (page_read h) (page p0 h) \<Longrightarrow>
      prefix (page_read h @ bs) (page p0 h) \<and> (bs = [] \<longrightarrow> page_read h = page p0 h)"
    and stat_size: "env_fs_stat E h USER_INDEX_PATH = (r, entry) \<Longrightarrow> 0 \<le> r \<Longrightarrow>
      de_type entry = FS_DIR_ENTRY_FILE \<Longrightarrow> de_size entry = length (page p0 h)"

context body_sink
begin

lemma quiet_sink: "quiet h h' \<Longrightarrow> out h' = out h"
  using quiet_keeps [of h h' out] out_storage by simp

text \<open>Neither the file nor the sink fails.\<close>

definition flows :: "env \<Rightarrow> bool" where
  "flows E \<longleftrightarrow> (\<forall>h. \<exists>bs. env_fs_read E h STORAGE_IO_CHUNK = Inr bs) \<and> (\<forall>bs h. 0 \<le> fst (writer bs h))"

text \<open>
  The loop ends on a finite file; what it sends is the rest of the file when it succeeds and a part of
  it from where it was when it fails.
\<close>

lemma stream_loop_file:
  assumes F: "page_store E p0"
  shows "page p0 h = pg \<Longrightarrow> prefix (page_read h) pg \<Longrightarrow> \<exists>r h' p. stream_loop E writer h = Some (r, h') \<and>
    prefix (page_read h @ p) pg \<and> out h' = out h @ p \<and> (0 \<le> r \<longrightarrow> page_read h @ p = pg) \<and>
    (flows E \<longrightarrow> 0 \<le> r)"
proof (induction "length pg - length (page_read h)" arbitrary: h rule: less_induct)
  case less
  show ?case
  proof (cases "env_fs_read E h STORAGE_IO_CHUNK")
    case (Inl e)
    then have "e < 0" using page_store.axioms(1) [OF F] littlefs.fs_read_err by blast
    moreover have "\<not> flows E" using Inl by (metis flows_def sum.distinct(1))
    ultimately show ?thesis
      using Inl less.prems by (auto simp: stream_loop.simps [of E writer h] out_storage)
  next
    case (Inr bs)
    have n: "prefix (page_read h @ bs) pg" "bs = [] \<longrightarrow> page_read h = pg"
      using page_store.read_next [OF F Inr] less.prems by (simp_all add: STORAGE_IO_CHUNK_def)
    let ?h1 = "h @ [Fs_read STORAGE_IO_CHUNK (Inr bs)]"
    obtain r2 h2 where w: "writer bs ?h1 = (r2, h2)" by (metis prod.exhaust)
    have o1: "out ?h1 = out h" by (rule out_storage) simp
    have rd: "page_read h2 = page_read h @ bs" "page p0 h2 = pg"
      using writer_read [OF w] writer_page [OF w, of p0] less.prems(1) by simp_all
    show ?thesis
    proof (cases "bs = []")
      case True
      then show ?thesis
        using Inr n less.prems o1 by (auto simp: stream_loop.simps [of E writer h])
    next
      case ne: False
      show ?thesis
      proof (cases "r2 < 0")
        case True
        obtain p where "prefix p bs" "out h2 = out h @ p"
          using writer_part [OF w] o1 by auto
        moreover have "\<not> flows E" using w True by (metis flows_def fst_conv linorder_not_less)
        ultimately show ?thesis
          using Inr ne w True n(1) by (auto simp: stream_loop.simps [of E writer h] prefix_def)
      next
        case False
        have "length (page_read h) < length pg"
          using n(1) ne prefix_length_le [OF n(1)] by (cases bs) auto
        then have "length pg - length (page_read h2) < length pg - length (page_read h)"
          using ne rd by (cases bs) auto
        from less.hyps [OF this rd(2)] n(1) rd(1) obtain r h' p where
          "stream_loop E writer h2 = Some (r, h')" "prefix (page_read h @ bs @ p) pg"
          "out h' = out h2 @ p" "0 \<le> r \<longrightarrow> page_read h @ bs @ p = pg"
          "flows E \<longrightarrow> 0 \<le> r"
          by auto
        moreover have "out h2 = out h @ bs"
          using writer_all [OF w] False o1 by simp
        ultimately show ?thesis
          using Inr ne w False by (auto simp: stream_loop.simps [of E writer h])
      qed
    qed
  qed
qed

lemma stream_page:
  assumes F: "page_store E p0"
  shows "\<exists>r s' h' p. storage_stream_user_index E (Some writer) s h = Some (r, s', h') \<and>
    out h' = out h @ p \<and> prefix p (page p0 h) \<and> (0 \<le> r \<longrightarrow> p = page p0 h) \<and>
    (fs_readable E s \<and> (\<forall>bs h. 0 \<le> fst (writer bs h)) \<longrightarrow> 0 \<le> r)"
proof -
  obtain r1 s1 h1 where m: "storage_mount_once E s h = (r1, s1, h1)"
    by (metis prod.exhaust)
  define r2 where "r2 = env_fs_open E h1 USER_INDEX_PATH FS_O_READ"
  define h2 where "h2 = h1 @ [Fs_open USER_INDEX_PATH FS_O_READ r2]"
  note defs = storage_stream_user_index_def m r2_def [symmetric] h2_def [symmetric]
  have o: "out h1 = out h" "out h2 = out h"
    using quiet_sink [OF storage_mount_once_quiet [OF m]] by (simp_all add: h2_def out_storage)
  have pg: "page p0 h2 = page p0 h"
    using quiet_page [OF storage_mount_once_quiet [OF m], of p0] by (simp add: h2_def)
  show ?thesis
  proof (cases "r1 < 0 \<or> r2 < 0")
    case True
    then have "\<not> fs_readable E s" using fs_readable_ret(1) [OF _ m] fs_readable_ret(2) [of E s h1] by (auto simp: r2_def)
    then show ?thesis using True o by (auto simp: defs)
  next
    case False
    then have "page_read h2 = []" by (simp add: h2_def)
    with stream_loop_file [OF F pg] obtain r h' p where
      "stream_loop E writer h2 = Some (r, h')" "prefix p (page p0 h)" "out h' = out h2 @ p"
      "0 \<le> r \<longrightarrow> p = page p0 h"
      "flows E \<longrightarrow> 0 \<le> r"
      by auto
    moreover have "flows E" if "fs_readable E s" "\<forall>bs h. 0 \<le> fst (writer bs h)"
      unfolding flows_def using fs_readable_ret(3) [OF that(1)] that(2) by blast
    ultimately show ?thesis using False o by (auto simp: defs out_storage)
  qed
qed

end

text \<open>The reference board with a page on it.\<close>

definition board_page :: "(hist \<Rightarrow> u8 list) \<Rightarrow> u8 list \<Rightarrow> env" where
  "board_page inp pg = (board inp)\<lparr>
     env_fs_read := (\<lambda>h m. Inr (take m (drop (length (page_read h)) (page pg h)))),
     env_fs_stat := (\<lambda>h p. (0, \<lparr>de_type = (if p = ''/lfs/user'' then FS_DIR_ENTRY_DIR else FS_DIR_ENTRY_FILE),
                                 de_size = length (page pg h)\<rparr>)) \<rparr>"

interpretation board_file: page_store "board_page inp pg" pg for inp pg
proof unfold_locales
  fix h :: hist and m :: nat and bs
  assume "env_fs_read (board_page inp pg) h m = Inr bs" "0 < m" "prefix (page_read h) (page pg h)"
  then show "prefix (page_read h @ bs) (page pg h) \<and> (bs = [] \<longrightarrow> page_read h = page pg h)"
    by (auto simp: board_page_def prefix_def)
      (metis append_take_drop_id)
qed (auto simp: board_page_def board_def)

section \<open>Reachable states\<close>

text \<open>
  Any sequence of the component's operations from boot, with other parts of the firmware making calls
  in between that mount nothing; the callbacks do not mount either.
\<close>

definition mounts_nothing :: "(hist \<Rightarrow> hist) \<Rightarrow> bool" where
  "mounts_nothing f \<longleftrightarrow> (\<forall>h. extends (\<lambda>c. \<not> fs_mounts c) h (f h))"

inductive storage_reach ::
  "env \<Rightarrow> ('c \<Rightarrow> nat \<Rightarrow> hist \<Rightarrow> (int \<times> u8 list) \<times> 'c \<times> hist) \<Rightarrow>
     (u8 list \<Rightarrow> hist \<Rightarrow> int \<times> hist) \<Rightarrow> storage \<Rightarrow> hist \<Rightarrow> bool"
  for E and reader :: "'c \<Rightarrow> nat \<Rightarrow> hist \<Rightarrow> (int \<times> u8 list) \<times> 'c \<times> hist" and writer where
  reach_boot: "mounts h = 0 \<Longrightarrow> storage_reach E reader writer storage_boot h"
| reach_mount: "storage_reach E reader writer s h \<Longrightarrow> storage_mount_once E s h = (r, s', h') \<Longrightarrow>
    storage_reach E reader writer s' h'"
| reach_status: "storage_reach E reader writer s h \<Longrightarrow>
    storage_format_status_json E n s h = (reply, s', h') \<Longrightarrow> storage_reach E reader writer s' h'"
| reach_size: "storage_reach E reader writer s h \<Longrightarrow>
    storage_user_index_size E null s h = (res, s', h') \<Longrightarrow> storage_reach E reader writer s' h'"
| reach_stream: "storage_reach E reader writer s h \<Longrightarrow>
    storage_stream_user_index E (Some writer) s h = Some (r, s', h') \<Longrightarrow>
    storage_reach E reader writer s' h'"
| reach_write: "storage_reach E reader writer s h \<Longrightarrow>
    storage_write_user_index_stream E len (Some reader) ctx s h = (r, ctx', s', h') \<Longrightarrow>
    storage_reach E reader writer s' h'"
| reach_other: "storage_reach E reader writer s h \<Longrightarrow> list_all (\<lambda>c. \<not> fs_mounts c) cs \<Longrightarrow>
    storage_reach E reader writer s (h @ cs)"

lemma storage_inv_mounts: "mounts h' = mounts h \<Longrightarrow> storage_inv s h \<Longrightarrow> storage_inv s h'"
  by (simp add: storage_inv_def)

lemma extends_mounts: "extends (\<lambda>c. \<not> fs_mounts c) h h' \<Longrightarrow> mounts h' = mounts h"
  by (erule extends_keeps) simp

lemma stream_loop_mounts:
  assumes "stream_loop E writer h = Some y" and "\<And>bs. mounts_nothing (\<lambda>h. snd (writer bs h))"
  shows "mounts (snd y) = mounts h"
  using stream_loop_extends [OF assms(1), of "\<lambda>c. \<not> fs_mounts c"] assms(2)
  by (intro extends_mounts) (simp add: mounts_nothing_def)

lemma write_loop_mounts:
  assumes "\<And>c m. mounts_nothing (\<lambda>h. snd (snd (reader c m h)))"
    and "write_loop E reader c n ret h = (r, rem, c', h')"
  shows "mounts h' = mounts h"
  using write_loop_extends [OF assms(2), of "\<lambda>c. \<not> fs_mounts c" "\<lambda>_. True"] assms(1)
  by (intro extends_mounts) (simp add: mounts_nothing_def)

lemma ensure_user_dir_mounts: "ensure_user_dir E h = (r, h') \<Longrightarrow> mounts h' = mounts h"
  by (auto simp: ensure_user_dir_def Let_def split: if_splits prod.splits)

lemma user_index_size_inv:
  assumes "storage_user_index_size E null s h = (r, s', h')" "storage_inv s h"
  shows "storage_inv s' h'"
proof (cases null)
  case False
  obtain r1 s1 h1 where m: "storage_mount_once E s h = (r1, s1, h1)" by (metis prod.exhaust)
  have "storage_inv s1 h1" using storage_mount_once_inv(1) [OF m assms(2)] .
  then show ?thesis
    using assms(1) m False
    by (auto simp: storage_user_index_size_def Let_def split: if_splits prod.splits
        intro: storage_inv_mounts [rotated])
qed (use assms in \<open>simp add: storage_user_index_size_def\<close>)

lemma stream_user_index_inv:
  assumes "storage_stream_user_index E (Some writer) s h = Some (r, s', h')" "storage_inv s h"
    and "\<And>bs. mounts_nothing (\<lambda>h. snd (writer bs h))"
  shows "storage_inv s' h'"
proof -
  obtain r1 s1 h1 where m: "storage_mount_once E s h = (r1, s1, h1)" by (metis prod.exhaust)
  have i: "storage_inv s1 h1" using storage_mount_once_inv(1) [OF m assms(2)] .
  have "s' = s1 \<and> mounts h' = mounts h1"
    using assms(1) m stream_loop_mounts [OF _ assms(3)]
    by (fastforce simp: storage_stream_user_index_def Let_def split: if_splits)
  with i show ?thesis using storage_inv_mounts by blast
qed

lemma write_user_index_inv:
  assumes w: "storage_write_user_index_stream E len (Some reader) ctx s h = (r, ctx', s', h')"
    and i: "storage_inv s h" and "\<And>c m. mounts_nothing (\<lambda>h. snd (snd (reader c m h)))"
  shows "storage_inv s' h'"
proof -
  obtain r1 s1 h1 where m: "storage_mount_once E s h = (r1, s1, h1)" by (metis prod.exhaust)
  have i1: "storage_inv s1 h1" using storage_mount_once_inv(1) [OF m i] .
  obtain r2 h2 where d: "ensure_user_dir E h1 = (r2, h2)" by (metis prod.exhaust)
  define r3 where "r3 = env_fs_open E h2 USER_INDEX_PATH FS_O_CREATE_TRUNC_WRITE"
  define h3 where "h3 = h2 @ [Fs_open USER_INDEX_PATH FS_O_CREATE_TRUNC_WRITE r3]"
  obtain r4 rem c4 h4 where l: "write_loop E reader ctx len r3 h3 = (r4, rem, c4, h4)"
    by (metis prod.exhaust)
  define r5 where "r5 = env_fs_sync E h4"
  let ?h5 = "h4 @ [Fs_sync r5, Fs_close, K_mutex_lock Storage_lock]"
  obtain s6 h6 where u: "update_space_locked E s1 ?h5 = (s6, h6)" by (metis prod.exhaust)
  have mm: "mounts h3 = mounts h1" "mounts h4 = mounts h1" "mounts h2 = mounts h1"
    using ensure_user_dir_mounts [OF d] write_loop_mounts [OF assms(3) l] by (simp_all add: h3_def)
  have "storage_inv s1 ?h5" by (rule storage_inv_mounts [OF _ i1]) (simp add: mm)
  then have i6: "storage_inv s6 h6" using update_space_inv(1) [OF u] by blast
  note defs = storage_write_user_index_stream_def m d l r3_def [symmetric] h3_def [symmetric]
    r5_def [symmetric] u
  have "s' = s1 \<and> mounts h' = mounts h1 \<or> s' = s6 \<and> mounts h' = mounts h6"
    using w mm by (auto simp: defs Let_def split: if_splits)
  then show ?thesis using i1 i6 storage_inv_mounts by blast
qed

lemma storage_reach_inv:
  assumes "storage_reach E reader writer s h"
    and rd: "\<And>c m. mounts_nothing (\<lambda>h. snd (snd (reader c m h)))"
    and wr: "\<And>bs. mounts_nothing (\<lambda>h. snd (writer bs h))"
  shows "storage_inv s h"
  using assms(1)
proof (induction rule: storage_reach.induct)
  case (reach_boot h)
  then show ?case by (simp add: storage_inv_def storage_boot_def)
next
  case (reach_mount s h r s' h')
  then show ?case using storage_mount_once_inv(1) by blast
next
  case (reach_status s h n r s' h')
  obtain r1 s1 h1 where m: "storage_mount_once E s h = (r1, s1, h1)" by (metis prod.exhaust)
  obtain st s2 h2 where g: "storage_get_status E s1 h1 = (st, s2, h2)" by (metis prod.exhaust)
  show ?case
    using reach_status storage_get_status_inv(1) [OF g storage_mount_once_inv(1) [OF m]] m g
    by (simp add: storage_format_status_json_def)
next
  case (reach_size s h null res s' h')
  then show ?case using user_index_size_inv by blast
next
  case (reach_stream s h r s' h')
  show ?case by (rule stream_user_index_inv [OF reach_stream(2,3) wr])
next
  case (reach_write s h len ctx r ctx' s' h')
  show ?case by (rule write_user_index_inv [OF reach_write(2,3) rd])
next
  case (reach_other s h cs)
  then show ?case by (simp add: storage_inv_append)
qed

section \<open>Properties\<close>

text \<open>
  C14: in every reachable state the file system has been mounted at most once, exactly when an attempt is
  recorded; the mounted flag and the recorded result agree, and no space is reported without a mount.
\<close>

theorem storage_mounted_once:
  assumes "storage_reach E reader writer s h"
    and "\<And>c m. mounts_nothing (\<lambda>h. snd (snd (reader c m h)))"
    and "\<And>bs. mounts_nothing (\<lambda>h. snd (writer bs h))"
  shows "mounts h = (if mount_attempted s then 1 else 0) \<and>
    (mounted s \<longleftrightarrow> mount_attempted s \<and> mount_ret s = 0) \<and>
    (\<not> mounted s \<longrightarrow> total_kib s = 0 \<and> free_kib s = 0)"
  using storage_reach_inv [OF assms] by (simp add: storage_inv_def)

theorem storage_mounted_once_witness:
  "\<exists>s h. storage_reach (board (\<lambda>h. [])) (\<lambda>c :: unit. \<lambda>m h. ((0, [1]), c, h)) (\<lambda>bs h. (0, h)) s h \<and>
    mounted s \<and> mounts h = 1"
proof -
  let ?E = "board (\<lambda>h. [])" and ?rd = "\<lambda>c :: unit. \<lambda>m h. ((0, [1]), c, h)"
    and ?wr = "\<lambda>bs h. (0, h)"
  obtain r s h where m: "storage_mount_once ?E storage_boot [] = (r, s, h)" by (metis prod.exhaust)
  have r: "storage_reach ?E ?rd ?wr s h"
    by (rule reach_mount [OF reach_boot m]) simp
  have "mounted s"
    using m by (auto simp: storage_mount_once_def storage_boot_def update_space_locked_def board_def Let_def)
  moreover have "mounts h = (if mount_attempted s then 1 else 0) \<and>
    (mounted s \<longleftrightarrow> mount_attempted s \<and> mount_ret s = 0) \<and>
    (\<not> mounted s \<longrightarrow> total_kib s = 0 \<and> free_kib s = 0)"
    by (rule storage_mounted_once [OF r]) (simp_all add: mounts_nothing_def)
  ultimately show ?thesis using r by auto
qed

end
