(* ===== verification/HttpIO.thy ===== *)
theory HttpIO
  imports HttpText Storage
begin

text \<open>
  The socket helpers of \<open>http_server.c\<close>: sending a buffer, a text response, a WebSocket frame,
  receiving an exact number of bytes behind what was read ahead, and the two storage callbacks,
  which are shown here to be a \<open>body_sink\<close> and a \<open>body_source\<close>. The facts that need POSIX's promises
  stand in the context of the locale \<open>sockets\<close>.
\<close>

section \<open>The code\<close>

definition HTTP_SEND_CHUNK :: nat where [fw_defs]: "HTTP_SEND_CHUNK = 256"
definition HTTP_REQUEST_MAX :: nat where [fw_defs]: "HTTP_REQUEST_MAX = 1536"

text \<open>A socket that reported more bytes taken than it was given would break the loop's \<open>len -= ret\<close>.\<close>

function send_all :: "env \<Rightarrow> int \<Rightarrow> u8 list \<Rightarrow> hist \<Rightarrow> int \<times> hist" where
  "send_all E fd data h =
     (if data = [] then (0, h)
      else let chunk = take (min (length data) HTTP_SEND_CHUNK) data in
           case zsock_send E fd chunk h of
             (Inl e, h1) \<Rightarrow> (err e, h1)
           | (Inr ret, h1) \<Rightarrow>
               if ret = 0 then (err ECONNRESET, h1) else send_all E fd (drop ret data) h1)"
  by pat_completeness auto
termination
  by (relation "measure (\<lambda>(E, fd, data, h). length data)") auto

declare send_all.simps [simp del]

definition text_header :: "string \<Rightarrow> string \<Rightarrow> nat \<Rightarrow> string" where
  "text_header status content_type body_len =
     ''HTTP/1.0 '' @ status @ CRLF @
     ''Content-Type: '' @ content_type @ CRLF @
     ''Content-Length: '' @ dec body_len @ CRLF @
     ''Connection: close'' @ CRLF @ CRLF"

text \<open>A header and a body, as \<open>if (send_all(header) < 0 || send_all(body) < 0)\<close> sends them.\<close>

definition send_both :: "env \<Rightarrow> int \<Rightarrow> string \<Rightarrow> string \<Rightarrow> hist \<Rightarrow> bool \<times> hist" where
  "send_both E fd header body h =
     (let (r1, h1) = send_all E fd (to_bytes header) h in
      if r1 < 0 then (False, h1)
      else let (r2, h2) = send_all E fd (to_bytes body) h1 in (0 \<le> r2, h2))"

definition send_text_response ::
  "env \<Rightarrow> int \<Rightarrow> string \<Rightarrow> string \<Rightarrow> string \<Rightarrow> hist \<Rightarrow> int \<times> hist" where
  "send_text_response E fd status content_type body h =
     (let (header_len, header) = snprintk 128 (text_header status content_type (length body)) in
      if 128 \<le> header_len then (err ENOMEM, h)
      else let (ok, h1) = send_both E fd header body h
           in (if ok then 0 else err EIO, h1))"

text \<open>The loop both readers start with: copy what was read ahead, up to the room there is.\<close>

fun copy_pending :: "u8 list \<Rightarrow> nat \<Rightarrow> nat \<Rightarrow> nat \<Rightarrow> u8 list \<times> nat" where
  "copy_pending pending pending_len pos 0 = ([], pos)"
| "copy_pending pending pending_len pos (Suc room) =
     (if pos < pending_len then
        let (bs, pos1) = copy_pending pending pending_len (pos + 1) room
        in (pending ! pos # bs, pos1)
      else ([], pos))"

record request_body_reader =
  rb_fd :: int
  rb_pending :: "u8 list"
  rb_pending_len :: nat
  rb_pending_pos :: nat

definition request_body_read ::
  "env \<Rightarrow> request_body_reader \<Rightarrow> nat \<Rightarrow> hist \<Rightarrow> (int \<times> u8 list) \<times> request_body_reader \<times> hist" where
  "request_body_read E reader max_len h =
     (if max_len = 0 then ((err EINVAL, []), reader, h)
      else let (copied, pos) = copy_pending (rb_pending reader) (rb_pending_len reader)
                                 (rb_pending_pos reader) max_len;
               reader1 = reader\<lparr>rb_pending_pos := pos\<rparr>
           in if copied \<noteq> [] then ((0, copied), reader1, h)
              else case zsock_recv E (rb_fd reader) max_len h of
                     (Inl e, h1) \<Rightarrow> ((err e, []), reader1, h1)
                   | (Inr bs, h1) \<Rightarrow>
                       if bs = [] then ((err ECONNRESET, []), reader1, h1)
                       else ((0, bs), reader1, h1))"

definition socket_write :: "env \<Rightarrow> int \<Rightarrow> u8 list \<Rightarrow> hist \<Rightarrow> int \<times> hist" where
  "socket_write E fd buf h = send_all E fd buf h"

definition ws_frame_header :: "u8 \<Rightarrow> nat \<Rightarrow> u8 list" where
  "ws_frame_header opcode payload_len =
     (0x80 OR opcode) #
     (if payload_len \<le> 125 then [word_of_nat payload_len] else 126 # be_bytes 2 payload_len)"

definition send_websocket_frame :: "env \<Rightarrow> int \<Rightarrow> u8 \<Rightarrow> u8 list \<Rightarrow> hist \<Rightarrow> int \<times> hist" where
  "send_websocket_frame E fd opcode payload h =
     (if 0xffff < length payload then (err EMSGSIZE, h)
      else let (ret, h1) = send_all E fd (ws_frame_header opcode (length payload)) h
           in if ret < 0 then (ret, h1)
              else if 0 < length payload then send_all E fd payload h1 else (0, h1))"

record websocket_client =
  wc_fd :: int
  wc_pending :: "u8 list"
  wc_pending_len :: nat
  wc_pending_pos :: nat

function recv_rest :: "env \<Rightarrow> int \<Rightarrow> u8 list \<Rightarrow> nat \<Rightarrow> hist \<Rightarrow> (int \<times> u8 list) \<times> hist" where
  "recv_rest E fd buf len h =
     (if len \<le> length buf then ((0, buf), h)
      else case zsock_recv E fd (len - length buf) h of
             (Inl e, h1) \<Rightarrow> ((err e, buf), h1)
           | (Inr bs, h1) \<Rightarrow>
               if bs = [] then ((err ECONNRESET, buf), h1) else recv_rest E fd (buf @ bs) len h1)"
  by pat_completeness auto
termination
  by (relation "measure (\<lambda>(E, fd, buf, len, h). len - length buf)") (auto simp: neq_Nil_conv)

declare recv_rest.simps [simp del]

definition ws_recv_exact ::
  "env \<Rightarrow> websocket_client \<Rightarrow> nat \<Rightarrow> hist \<Rightarrow> (int \<times> u8 list) \<times> websocket_client \<times> hist" where
  "ws_recv_exact E client len h =
     (let (buf, pos) = copy_pending (wc_pending client) (wc_pending_len client)
                         (wc_pending_pos client) len;
          client1 = client\<lparr>wc_pending_pos := pos\<rparr>;
          (res, h1) = recv_rest E (wc_fd client) buf len h
      in (res, client1, h1))"

section \<open>Reading ahead\<close>


lemma copy_pending_spec:
  "len \<le> length pending \<Longrightarrow> pos \<le> len \<Longrightarrow> copy_pending pending len pos room =
    (take room (drop pos (take len pending)), min len (pos + room))"
proof (induction pending len pos room rule: copy_pending.induct)
  case (2 pending len pos room)
  then show ?case
    by (cases "pos < len") (auto simp: Cons_nth_drop_Suc [of pos "take len pending", symmetric])
qed simp

section \<open>Sending\<close>

fun sends_to :: "int \<Rightarrow> call \<Rightarrow> bool" where
  "sends_to fd (Sock_send fd' bs _) = (fd' = fd \<and> length bs \<le> HTTP_SEND_CHUNK)"
| "sends_to fd _ = False"

fun recvs_from :: "int \<Rightarrow> call \<Rightarrow> bool" where
  "recvs_from fd (Sock_recv fd' _ _) = (fd' = fd)"
| "recvs_from fd _ = False"

lemma sends_to_quiet [simp]: "sends_to fd c \<Longrightarrow> recvd_by fd' c = []"
  "sends_to fd c \<Longrightarrow> c \<noteq> Sock_close fd'" "sends_to fd c \<Longrightarrow> page_step p c = p"
  "sends_to fd c \<Longrightarrow> read_step p c = p" "sends_to fd c \<Longrightarrow> \<not> fs_mounts c"
  by (cases c; auto)+

lemma recvs_from_quiet [simp]: "recvs_from fd c \<Longrightarrow> sent_by fd' c = []"
  "recvs_from fd c \<Longrightarrow> c \<noteq> Sock_close fd'" "recvs_from fd c \<Longrightarrow> page_step p c = p"
  "recvs_from fd c \<Longrightarrow> read_step p c = p" "recvs_from fd c \<Longrightarrow> \<not> fs_mounts c"
  by (cases c; auto)+

lemma storage_call_quiet [simp]: "storage_call c \<Longrightarrow> sent_by fd c = []"
  "storage_call c \<Longrightarrow> recvd_by fd c = []" "storage_call c \<Longrightarrow> c \<noteq> Sock_close fd"
  by (cases c; auto)+

lemma send_all_Nil [simp]: "send_all E fd [] h = (0, h)"
  by (simp add: send_all.simps [of E fd "[]" h])

lemma send_all_extends: "send_all E fd data h = (r, h') \<Longrightarrow> extends (sends_to fd) h h'"
proof (induction E fd data h rule: send_all.induct)
  case (1 E fd data h)
  show ?case
    using "1.prems" "1.IH" [OF _ refl]
    by (subst (asm) send_all.simps)
      (fastforce simp: zsock_send_def Let_def split: if_splits sum.splits
        intro: extends_append extends_shift)
qed

lemma send_all_extends': "extends (sends_to fd) h (snd (send_all E fd data h))"
  by (metis send_all_extends prod.collapse)

text \<open>What \<open>send_all\<close> promises: see the locale \<open>body_sink\<close>.\<close>

context sockets
begin

lemma send_all_sent:
  "send_all E fd data h = (r, h') \<Longrightarrow>
    \<exists>p. prefix p data \<and> sent fd h' = sent fd h @ p \<and> r \<le> 0 \<and> (r = 0 \<longleftrightarrow> p = data)"
proof (induction "length data" arbitrary: data h rule: less_induct)
  case less
  let ?chunk = "take (min (length data) HTTP_SEND_CHUNK) data"
  show ?case
  proof (cases "data = []")
    case True
    then show ?thesis using less.prems by simp
  next
    case ne: False
    show ?thesis
    proof (cases "env_send E h fd ?chunk")
      case (Inl e)
      then show ?thesis
        using less.prems ne send_errno [OF Inl]
        by (auto simp: send_all.simps [of E fd data h] zsock_send_def Let_def)
    next
      case (Inr n)
      note n = send_len [OF Inr]
      show ?thesis
      proof (cases "n = 0")
        case True
        then show ?thesis
          using less.prems ne Inr by (auto simp: send_all.simps [of E fd data h] zsock_send_def Let_def)
      next
        case False
        with ne n have "length (drop n data) < length data" by simp
        moreover have "send_all E fd (drop n data) (h @ [Sock_send fd ?chunk (Inr n)]) = (r, h')"
          using less.prems ne Inr False by (simp add: send_all.simps [of E fd data h] zsock_send_def Let_def)
        ultimately obtain p where p: "prefix p (drop n data)"
          "sent fd h' = sent fd h @ take n ?chunk @ p" "r \<le> 0" "r = 0 \<longleftrightarrow> p = drop n data"
          using less.hyps by fastforce
        have t: "take n ?chunk = take n data" using n by simp
        have "prefix (take n data @ p) data"
          using p(1) by (rule prefix_take_append)
        moreover have "r = 0 \<longleftrightarrow> take n data @ p = data"
          using p(4) by (metis append_take_drop_id same_append_eq)
        ultimately show ?thesis using p(2,3) t by auto
      qed
    qed
  qed
qed

lemma send_all_ok: "send_all E fd data h = (0, h') \<Longrightarrow> sent fd h' = sent fd h @ data"
  using send_all_sent by blast

end

text \<open>The second storage callback is a sink: its output is what the socket has taken.\<close>

sublocale sockets \<subseteq> sink: body_sink "socket_write E fd" "sent fd" for fd
proof unfold_locales
  fix bs h r h' assume w: "socket_write E fd bs h = (r, h')"
  then show "\<exists>p. prefix p bs \<and> sent fd h' = sent fd h @ p"
    using send_all_sent by (fastforce simp: socket_write_def)
  show "0 \<le> r \<Longrightarrow> sent fd h' = sent fd h @ bs"
    using w send_all_sent by (fastforce simp: socket_write_def)
  have "extends (sends_to fd) h h'"
    using w send_all_extends by (simp add: socket_write_def)
  then show "page_read h' = page_read h" and "page p0 h' = page p0 h" for p0
    by (rule extends_keeps, simp)+
qed simp

section \<open>Receiving\<close>

text \<open>
  What a reader has handed out: what it has taken of the bytes read ahead, then what the socket has
  delivered since there were \<open>base\<close> bytes. It asks the socket only when the bytes read ahead are used up.
\<close>

definition reader_taken :: "nat \<Rightarrow> request_body_reader \<Rightarrow> hist \<Rightarrow> u8 list" where
  "reader_taken base reader h =
     take (rb_pending_pos reader) (rb_pending reader) @ drop base (recvd (rb_fd reader) h)"

definition reader_inv :: "nat \<Rightarrow> request_body_reader \<Rightarrow> hist \<Rightarrow> bool" where
  "reader_inv base reader h \<longleftrightarrow>
     rb_pending_len reader \<le> length (rb_pending reader) \<and> rb_pending_pos reader \<le> rb_pending_len reader \<and>
     base \<le> length (recvd (rb_fd reader) h) \<and>
     (rb_pending_pos reader < rb_pending_len reader \<longrightarrow> length (recvd (rb_fd reader) h) = base)"

context sockets
begin

lemma request_body_read_step:
  assumes rd: "request_body_read E c m h = ((r, bs), c', h')" and m: "0 < m" and i: "reader_inv base c h"
  shows "reader_inv base c' h'" and "0 \<le> r \<Longrightarrow> reader_taken base c' h' = reader_taken base c h @ bs"
proof -
  let ?p = "rb_pending c" and ?l = "rb_pending_len c" and ?i = "rb_pending_pos c"
  have l: "?l \<le> length ?p" "?i \<le> ?l" using i by (simp_all add: reader_inv_def)
  note cp = copy_pending_spec [OF l, of m]
  have "reader_inv base c' h' \<and> (0 \<le> r \<longrightarrow> reader_taken base c' h' = reader_taken base c h @ bs)"
  proof (cases "?i < ?l")
    case True
    then have v: "bs = take m (drop ?i (take ?l ?p))" "r = 0" "c' = c\<lparr>rb_pending_pos := min ?l (?i + m)\<rparr>"
      "h' = h"
      using rd m l by (auto simp: request_body_read_def cp)
    obtain k where "?l = ?i + k" using l le_iff_add by blast
    with v show ?thesis
      using i True by (auto simp: reader_inv_def reader_taken_def take_add min_def drop_take)
  next
    case False
    then have e: "?i = ?l" using l by simp
    then have "copy_pending ?p ?l ?l m = ([], ?l)" using cp by simp
    with e show ?thesis
      using rd m i recv_errno recv_len
      by (auto simp: request_body_read_def reader_inv_def reader_taken_def zsock_recv_def Let_def
          split: if_splits sum.splits)
  qed
  then show "reader_inv base c' h'" and "0 \<le> r \<Longrightarrow> reader_taken base c' h' = reader_taken base c h @ bs"
    by simp_all
qed

lemma request_body_read_page: "request_body_read E c m h = ((r, bs), c', h') \<Longrightarrow> page p0 h' = page p0 h"
  by (auto simp: request_body_read_def zsock_recv_def Let_def split: if_splits sum.splits prod.splits)

end

text \<open>The first storage callback is a source.\<close>

sublocale sockets \<subseteq> source: body_source "request_body_read E" "reader_taken base" "reader_inv base" for base
proof unfold_locales
  fix c m h r bs c' h' assume rd: "request_body_read E c m h = ((r, bs), c', h')"
  show "page p0 h' = page p0 h" for p0 using rd by (rule request_body_read_page)
  assume m: "0 < m" and i: "reader_inv base c h"
  show "reader_inv base c' h'" by (rule request_body_read_step [OF rd m i])
  show "0 \<le> r \<Longrightarrow> reader_taken base c' h' = reader_taken base c h @ bs"
    by (rule request_body_read_step [OF rd m i])
qed (simp_all add: reader_inv_def reader_taken_def)

text \<open>A connection on which no send fails.\<close>

definition sends_work :: "env \<Rightarrow> int \<Rightarrow> bool" where
  "sends_work E fd \<longleftrightarrow> (\<forall>h bs. bs \<noteq> [] \<longrightarrow> (\<exists>n > 0. env_send E h fd bs = Inr n))"

lemma send_all_works:
  assumes "sends_work E fd"
  shows "fst (send_all E fd bs h) = 0"
proof (induction "length bs" arbitrary: bs h rule: less_induct)
  case less
  show ?case
  proof (cases "bs = []")
    case False
    let ?chunk = "take (min (length bs) HTTP_SEND_CHUNK) bs"
    have "?chunk \<noteq> []" using False by (simp add: HTTP_SEND_CHUNK_def)
    then obtain n where n: "0 < n" "env_send E h fd ?chunk = Inr n"
      using assms unfolding sends_work_def by blast
    then show ?thesis
      using less [of "drop n bs"] False by (simp add: send_all.simps [of E fd bs h] zsock_send_def Let_def)
  qed simp
qed

lemma board_sends_work: "sends_work (board inp) fd"
  by (simp add: sends_work_def board_def)

lemma send_frame_works:
  "sends_work E fd \<Longrightarrow> length bs \<le> 0xffff \<Longrightarrow> fst (send_websocket_frame E fd opcode bs h) = 0"
  using send_all_works [of E fd] by (auto simp: send_websocket_frame_def split: prod.splits) (metis fst_conv less_irrefl)+

section \<open>WebSocket frames\<close>

text \<open>
  The bytes of an unfragmented, unmasked frame, and how a client reads one (RFC 6455, section 5.2; the
  64-bit lengths are not among the ones the firmware sends).
\<close>

definition ws_frame :: "u8 \<Rightarrow> u8 list \<Rightarrow> u8 list" where
  "ws_frame opcode payload = ws_frame_header opcode (length payload) @ payload"

definition ws_cut :: "u8 \<Rightarrow> nat \<Rightarrow> u8 list \<Rightarrow> (u8 \<times> u8 list \<times> u8 list) option" where
  "ws_cut opcode n rest = (if length rest < n then None else Some (opcode, take n rest, drop n rest))"

definition ws_parse :: "u8 list \<Rightarrow> (u8 \<times> u8 list \<times> u8 list) option" where
  "ws_parse bs = (case bs of
     b0 # b1 # rest \<Rightarrow>
       if b0 AND 0xf0 \<noteq> 0x80 \<or> b1 AND 0x80 \<noteq> 0 \<or> b1 = 127 then None
       else if b1 = 126 then
         (case rest of x # y # rest1 \<Rightarrow> ws_cut (b0 AND 0x0f) (be_nat [x, y]) rest1 | _ \<Rightarrow> None)
       else ws_cut (b0 AND 0x0f) (unat b1) rest
   | _ \<Rightarrow> None)"

lemma opcode_bits:
  assumes "(x :: u8) < 16"
  shows "(0x80 OR x) AND 0xf0 = 0x80" and "(0x80 OR x) AND 0x0f = x"
proof -
  have "list_all (\<lambda>n. (0x80 OR (word_of_nat n :: u8)) AND 0xf0 = 0x80 \<and>
      (0x80 OR (word_of_nat n :: u8)) AND 0x0f = word_of_nat n) [0..<16]"
    by (simp add: upt_conv_Cons)
  moreover have "unat x \<in> set [0..<16]"
    using assms by (simp add: word_less_nat_alt)
  ultimately have "(0x80 OR (word_of_nat (unat x) :: u8)) AND 0xf0 = 0x80 \<and>
      (0x80 OR (word_of_nat (unat x) :: u8)) AND 0x0f = word_of_nat (unat x)"
    unfolding list_all_iff by blast
  then show "(0x80 OR x) AND 0xf0 = 0x80" and "(0x80 OR x) AND 0x0f = x"
    by simp_all
qed

lemma small_length_bits: "n \<le> 125 \<Longrightarrow> (word_of_nat n :: u8) AND 0x80 = 0"
proof -
  have "list_all (\<lambda>n. (word_of_nat n :: u8) AND 0x80 = 0) [0..<126]"
    by (simp add: upt_conv_Cons)
  then show "n \<le> 125 \<Longrightarrow> (word_of_nat n :: u8) AND 0x80 = 0"
    unfolding list_all_iff by simp
qed

lemma small_length_not_marker:
  "n \<le> 125 \<Longrightarrow> (word_of_nat n :: u8) \<noteq> 126 \<and> (word_of_nat n :: u8) \<noteq> 127"
  by (auto dest: arg_cong [of _ _ unat] simp: unat_of_nat)

lemma ws_parse_frame:
  assumes "opcode < 16" and "length payload \<le> 0xffff"
  shows "ws_parse (ws_frame opcode payload @ rest) = Some (opcode, payload, rest)"
proof (cases "length payload \<le> 125")
  case True
  then have "unat (word_of_nat (length payload) :: u8) = length payload"
    by (simp add: unat_of_nat)
  then show ?thesis
    using True assms small_length_bits [OF True] small_length_not_marker [OF True]
    by (simp add: ws_parse_def ws_frame_def ws_frame_header_def opcode_bits ws_cut_def)
next
  case False
  have "be_nat (be_bytes 2 (length payload)) = length payload"
    using assms(2) by (intro be_nat_be_bytes) simp
  then show ?thesis
    using False assms
    by (simp add: ws_parse_def ws_frame_def ws_frame_header_def opcode_bits ws_cut_def be_bytes_2)
qed

context sockets
begin

lemma send_websocket_frame_sent:
  assumes "send_websocket_frame E fd opcode payload h = (r, h')"
  shows "extends (sends_to fd) h h'" and "r \<le> 0"
    and "\<exists>p. prefix p (ws_frame opcode payload) \<and> sent fd h' = sent fd h @ p \<and>
      (r = 0 \<longleftrightarrow> p = ws_frame opcode payload \<and> length payload \<le> 0xffff)"
proof -
  let ?n = "length payload"
  have "extends (sends_to fd) h h' \<and> r \<le> 0 \<and>
    (\<exists>p. prefix p (ws_frame opcode payload) \<and> sent fd h' = sent fd h @ p \<and>
      (r = 0 \<longleftrightarrow> p = ws_frame opcode payload \<and> ?n \<le> 0xffff))"
  proof (cases "?n \<le> 0xffff")
    case False
    then show ?thesis using assms by (auto simp: send_websocket_frame_def)
  next
    case True
    obtain r1 h1 where s1: "send_all E fd (ws_frame_header opcode ?n) h = (r1, h1)" by force
    obtain r2 h2 where s2: "send_all E fd payload h1 = (r2, h2)" by force
    have r: "r = (if r1 < 0 then r1 else r2)" "h' = (if r1 < 0 then h1 else h2)"
      using assms True s1 s2 by (auto simp: send_websocket_frame_def split: if_splits)
    have "extends (sends_to fd) h h'"
      using send_all_extends [OF s1] send_all_extends [OF s2] r by (auto intro: extends_trans)
    then show ?thesis
      using send_all_sent [OF s1] send_all_sent [OF s2] r True
      by (fastforce simp: ws_frame_def)
  qed
  then show "extends (sends_to fd) h h'" and "r \<le> 0"
    and "\<exists>p. prefix p (ws_frame opcode payload) \<and> sent fd h' = sent fd h @ p \<and>
      (r = 0 \<longleftrightarrow> p = ws_frame opcode payload \<and> ?n \<le> 0xffff)"
    by blast+
qed

end

section \<open>Receiving exactly\<close>

definition ws_taken :: "nat \<Rightarrow> websocket_client \<Rightarrow> hist \<Rightarrow> u8 list" where
  "ws_taken base client h =
     take (wc_pending_pos client) (wc_pending client) @ drop base (recvd (wc_fd client) h)"

definition ws_inv :: "nat \<Rightarrow> websocket_client \<Rightarrow> hist \<Rightarrow> bool" where
  "ws_inv base client h \<longleftrightarrow>
     wc_pending_len client \<le> length (wc_pending client) \<and> wc_pending_pos client \<le> wc_pending_len client \<and>
     base \<le> length (recvd (wc_fd client) h) \<and>
     (wc_pending_pos client < wc_pending_len client \<longrightarrow> length (recvd (wc_fd client) h) = base)"

lemma recv_rest_done [simp]: "len \<le> length buf \<Longrightarrow> recv_rest E fd buf len h = ((0, buf), h)"
  by (simp add: recv_rest.simps [of E fd buf len h])

context sockets
begin

lemma recv_rest_spec:
  "recv_rest E fd buf len h = ((r, buf'), h') \<Longrightarrow> length buf \<le> len \<Longrightarrow>
    \<exists>bs. buf' = buf @ bs \<and> recvd fd h' = recvd fd h @ bs \<and> length buf' \<le> len \<and> r \<le> 0 \<and>
      (r = 0 \<longleftrightarrow> length buf' = len) \<and> extends (recvs_from fd) h h'"
proof (induction "len - length buf" arbitrary: buf h rule: less_induct)
  case less
  show ?case
  proof (cases "len \<le> length buf")
    case True
    then show ?thesis using less.prems by simp
  next
    case False
    note unf = recv_rest.simps [of E fd buf len h]
    show ?thesis
    proof (cases "env_recv E h fd (len - length buf)")
      case (Inl e)
      then show ?thesis
        using less.prems False recv_errno [OF Inl]
        by (auto simp: unf zsock_recv_def Let_def intro: extends_append)
    next
      case (Inr bs)
      let ?h1 = "h @ [Sock_recv fd (len - length buf) (Inr bs)]"
      note n = recv_len [OF Inr]
      show ?thesis
      proof (cases "bs = []")
        case True
        then show ?thesis
          using less.prems False Inr
          by (auto simp: unf zsock_recv_def Let_def intro: extends_append)
      next
        case ne: False
        then have "len - length (buf @ bs) < len - length buf" "length (buf @ bs) \<le> len"
          using False n by (cases bs; simp)+
        moreover have "recv_rest E fd (buf @ bs) len ?h1 = ((r, buf'), h')"
          using less.prems False Inr ne by (simp add: unf zsock_recv_def Let_def)
        ultimately obtain cs where
          "buf' = (buf @ bs) @ cs" "recvd fd h' = recvd fd ?h1 @ cs" "length buf' \<le> len" "r \<le> 0"
          "r = 0 \<longleftrightarrow> length buf' = len" "extends (recvs_from fd) ?h1 h'"
          using less.hyps by metis
        then show ?thesis
          by (auto elim: extends_shift)
      qed
    qed
  qed
qed

text \<open>
  However the stream is cut up by the network and by what was read ahead, the next \<open>len\<close> bytes of it are
  what a successful call returns.
\<close>

lemma ws_recv_exact_spec:
  assumes r: "ws_recv_exact E client len h = ((r, buf), client', h')" and i: "ws_inv base client h"
  shows "ws_inv base client' h'" and "ws_taken base client' h' = ws_taken base client h @ buf"
    and "r \<le> 0" and "r = 0 \<longleftrightarrow> length buf = len" and "length buf \<le> len"
    and "extends (recvs_from (wc_fd client)) h h'"
    and "\<exists>pos. client' = client\<lparr>wc_pending_pos := pos\<rparr>"
proof -
  let ?p = "wc_pending client" and ?l = "wc_pending_len client" and ?i = "wc_pending_pos client"
  have l: "?l \<le> length ?p" "?i \<le> ?l" using i by (simp_all add: ws_inv_def)
  let ?b = "take len (drop ?i (take ?l ?p))"
  have c: "client' = client\<lparr>wc_pending_pos := min ?l (?i + len)\<rparr>"
    and rr: "recv_rest E (wc_fd client) ?b len h = ((r, buf), h')"
    using r by (auto simp: ws_recv_exact_def copy_pending_spec [OF l] Let_def split: prod.splits)
  from recv_rest_spec [OF rr] obtain bs where
    b: "buf = ?b @ bs" "recvd (wc_fd client) h' = recvd (wc_fd client) h @ bs" and
    f: "length buf \<le> len" "r \<le> 0" "r = 0 \<longleftrightarrow> length buf = len" "extends (recvs_from (wc_fd client)) h h'"
    by auto
  have nb: "bs = []" if "?i + len \<le> ?l"
    using that b(1) f(1) l by simp
  obtain k where k: "?l = ?i + k" using l le_iff_add by blast
  have "ws_inv base client' h' \<and> ws_taken base client' h' = ws_taken base client h @ buf"
  proof (cases "?i + len < ?l")
    case True
    then show ?thesis
      using i c b nb k by (auto simp: ws_inv_def ws_taken_def take_add min_def drop_take)
  next
    case False
    then have "len = 0 \<Longrightarrow> ?i = ?l" using l by simp
    with False show ?thesis
      using i c b nb k f(1) by (auto simp: ws_inv_def ws_taken_def take_add min_def drop_take)
  qed
  then show "ws_inv base client' h'" and "ws_taken base client' h' = ws_taken base client h @ buf"
    by simp_all
  show "r \<le> 0" "r = 0 \<longleftrightarrow> length buf = len" "length buf \<le> len" "extends (recvs_from (wc_fd client)) h h'"
    using f by simp_all
  show "\<exists>pos. client' = client\<lparr>wc_pending_pos := pos\<rparr>"
    using c by blast
qed

end

section \<open>Text responses\<close>

context sockets
begin

lemma is_sink: "body_sink (socket_write E fd) (sent fd)"
  by unfold_locales

lemma is_source: "body_source (request_body_read E) (reader_taken base) (reader_inv base)"
  by unfold_locales

lemma send_both_sent:
  assumes "send_both E fd header body h = (ok, h')"
  shows "extends (sends_to fd) h h'"
    and "\<exists>p. prefix p (to_bytes (header @ body)) \<and> sent fd h' = sent fd h @ p \<and>
      (ok \<longleftrightarrow> p = to_bytes (header @ body))"
proof -
  obtain r1 h1 where s1: "send_all E fd (to_bytes header) h = (r1, h1)" by force
  obtain r2 h2 where s2: "send_all E fd (to_bytes body) h1 = (r2, h2)" by force
  have r: "ok = (0 \<le> r1 \<and> 0 \<le> r2)" "h' = (if r1 < 0 then h1 else h2)"
    using assms s1 s2 by (auto simp: send_both_def split: if_splits)
  show "extends (sends_to fd) h h'"
    using send_all_extends [OF s1] send_all_extends [OF s2] r by (auto intro: extends_trans)
  show "\<exists>p. prefix p (to_bytes (header @ body)) \<and> sent fd h' = sent fd h @ p \<and>
      (ok \<longleftrightarrow> p = to_bytes (header @ body))"
    using send_all_sent [OF s1] send_all_sent [OF s2] r by fastforce
qed

lemma send_text_response_sent:
  assumes "send_text_response E fd status content_type body h = (r, h')"
  shows "extends (sends_to fd) h h'" and "r \<le> 0"
    and "\<exists>p. prefix p (to_bytes (text_header status content_type (length body) @ body)) \<and>
      sent fd h' = sent fd h @ p \<and>
      (r = 0 \<longleftrightarrow> p = to_bytes (text_header status content_type (length body) @ body) \<and>
        length (text_header status content_type (length body)) < 128)"
proof -
  let ?t = "text_header status content_type (length body)"
  have "extends (sends_to fd) h h' \<and> r \<le> 0 \<and> (\<exists>p. prefix p (to_bytes (?t @ body)) \<and>
      sent fd h' = sent fd h @ p \<and> (r = 0 \<longleftrightarrow> p = to_bytes (?t @ body) \<and> length ?t < 128))"
  proof (cases "length ?t < 128")
    case False
    then show ?thesis using assms by (auto simp: send_text_response_def snprintk_def)
  next
    case True
    obtain ok h1 where s: "send_both E fd ?t body h = (ok, h1)" by force
    have "r = (if ok then 0 else err EIO)" "h' = h1"
      using assms True s by (auto simp: send_text_response_def snprintk_def)
    then show ?thesis using send_both_sent [OF s] True by auto
  qed
  then show "extends (sends_to fd) h h'" and "r \<le> 0"
    and "\<exists>p. prefix p (to_bytes (?t @ body)) \<and> sent fd h' = sent fd h @ p \<and>
      (r = 0 \<longleftrightarrow> p = to_bytes (?t @ body) \<and> length ?t < 128)"
    by blast+
qed

end

section \<open>Properties\<close>

text \<open>
  C19: whatever part of a chunk the network stack takes at a time, \<open>send_all\<close> sends a prefix of the data in
  order, and all of it exactly when it returns 0; no single call is given more than 256 bytes.
\<close>

theorem send_all_prefix:
  assumes "sockets E" and "send_all E fd data h = (r, h')"
  shows "\<exists>p. prefix p data \<and> sent fd h' = sent fd h @ p \<and> r \<le> 0 \<and> (r = 0 \<longleftrightarrow> p = data) \<and>
    extends (sends_to fd) h h'"
  using sockets.send_all_sent [OF assms] send_all_extends [OF assms(2)] by blast

theorem send_all_prefix_witness:
  "\<exists>h'. send_all (board (\<lambda>h. [])) 4 [1, 2, 3] [] = (0, h') \<and> sent 4 h' = [1, 2, 3]"
proof -
  obtain r h' where s: "send_all (board (\<lambda>h. [])) 4 [1, 2, 3] [] = (r, h')" by force
  have "fst (send_all (board (\<lambda>h. [])) 4 [1, 2, 3] []) = 0" by code_simp
  then have "r = 0" using s by simp
  then show ?thesis
    using s send_all_prefix [OF board_sockets.sockets_axioms s] by auto
qed

text \<open>
  A text response that reports success has put exactly its header and body on the connection, with the
  body's length in the header; a header of 128 bytes or more is never sent, and on an error what went out is
  a prefix.
\<close>

theorem text_response_sent:
  assumes "sockets E" and "send_text_response E fd status content_type body h = (r, h')"
  shows "\<exists>p. prefix p (to_bytes (text_header status content_type (length body) @ body)) \<and>
    sent fd h' = sent fd h @ p \<and>
    (r = 0 \<longleftrightarrow> p = to_bytes (text_header status content_type (length body) @ body) \<and>
      length (text_header status content_type (length body)) < 128)"
  using sockets.send_text_response_sent(3) [OF assms] .

theorem text_response_sent_witness:
  "\<exists>h'. send_text_response (board (\<lambda>h. [])) 4 ''200 OK'' ''text/plain'' ''saved'' [] = (0, h') \<and>
    sent 4 h' = to_bytes (text_header ''200 OK'' ''text/plain'' (length ''saved'') @ ''saved'')"
proof -
  let ?E = "board (\<lambda>h. [])"
  obtain r h' where s: "send_text_response ?E 4 ''200 OK'' ''text/plain'' ''saved'' [] = (r, h')" by force
  have "fst (send_text_response ?E 4 ''200 OK'' ''text/plain'' ''saved'' []) = 0" by code_simp
  then have "r = 0" using s by simp
  then have "sent 4 h' = to_bytes (text_header ''200 OK'' ''text/plain'' (length ''saved'') @ ''saved'')"
    using text_response_sent [OF board_sockets.sockets_axioms s] by (metis append_Nil sent_Nil)
  then show ?thesis using s \<open>r = 0\<close> by blast
qed

text \<open>
  C20: a WebSocket frame that is sent whole is read back by a client as one final frame with that opcode and
  payload; payloads over 65535 bytes are refused and nothing is sent.
\<close>

theorem websocket_frame_roundtrip:
  assumes "sockets E" and "opcode < 16" and "send_websocket_frame E fd opcode payload h = (r, h')"
  shows "(r = 0 \<longrightarrow> (\<exists>bs. sent fd h' = sent fd h @ bs \<and> ws_parse bs = Some (opcode, payload, []))) \<and>
    (0xffff < length payload \<longrightarrow> r < 0 \<and> h' = h)"
proof -
  have "r < 0 \<and> h' = h" if "0xffff < length payload"
    using assms(3) that by (auto simp: send_websocket_frame_def)
  moreover obtain p where "sent fd h' = sent fd h @ p"
    "r = 0 \<longleftrightarrow> p = ws_frame opcode payload \<and> length payload \<le> 0xffff"
    using sockets.send_websocket_frame_sent(3) [OF assms(1,3)] by blast
  ultimately show ?thesis
    using ws_parse_frame [OF assms(2), of payload "[]"] by auto
qed

theorem websocket_frame_roundtrip_witness:
  "\<exists>h' bs. send_websocket_frame (board (\<lambda>h. [])) 4 1 (replicate 130 7) [] = (0, h') \<and>
    sent 4 h' = bs \<and> ws_parse bs = Some (1, replicate 130 7, [])"
proof -
  obtain r h' where s: "send_websocket_frame (board (\<lambda>h. [])) 4 1 (replicate 130 7) [] = (r, h')" by force
  have "fst (send_websocket_frame (board (\<lambda>h. [])) 4 1 (replicate 130 7) []) = 0"
    by (rule send_frame_works [OF board_sends_work]) simp
  then show ?thesis
    using s websocket_frame_roundtrip [OF board_sockets.sockets_axioms _ s] by auto
qed

text \<open>
  \<open>ws_recv_exact\<close> delivers the next bytes of the connection, first those read ahead with the request and
  then those the socket gives, in order and none twice or skipped; it returns 0 exactly when it has all
  that were asked for, and the reader's invariant is kept.
\<close>

theorem ws_recv_exact_stream:
  assumes "sockets E" and "ws_inv base client h"
    and "ws_recv_exact E client len h = ((r, buf), client', h')"
  shows "ws_inv base client' h' \<and> ws_taken base client' h' = ws_taken base client h @ buf \<and>
    (r = 0 \<longleftrightarrow> length buf = len) \<and> r \<le> 0 \<and> length buf \<le> len"
  using sockets.ws_recv_exact_spec [OF assms(1,3,2)] by blast

theorem ws_recv_exact_stream_witness:
  "\<exists>client' h'. ws_recv_exact (board (\<lambda>h. [30, 40, 50])) \<lparr>wc_fd = 4, wc_pending = [10, 20],
      wc_pending_len = 2, wc_pending_pos = 0\<rparr> 3 [] = ((0, [10, 20, 30]), client', h') \<and>
    ws_taken 0 client' h' = [10, 20, 30]"
proof -
  let ?c = "\<lparr>wc_fd = 4, wc_pending = [10, 20], wc_pending_len = 2, wc_pending_pos = 0\<rparr>"
    and ?E = "board (\<lambda>h. [30, 40, 50])"
  obtain r buf c' h' where x: "ws_recv_exact ?E ?c 3 [] = ((r, buf), c', h')" by (metis prod.exhaust)
  have "r = 0 \<and> buf = [10, 20, 30]"
  proof -
    have "fst (ws_recv_exact ?E ?c 3 []) = (0, [10, 20, 30])" by code_simp
    then show ?thesis using x by simp
  qed
  moreover have "ws_inv 0 ?c []" by (simp add: ws_inv_def)
  ultimately show ?thesis
    using x ws_recv_exact_stream [OF board_sockets.sockets_axioms _ x, of 0] by (auto simp: ws_taken_def)
qed




lemma socket_write_works: "sends_work E fd \<Longrightarrow> 0 \<le> fst (socket_write E fd bs h)"
  using send_all_works [of E fd bs h] by (simp add: socket_write_def)

lemma download_page:
  assumes "sockets E" and "page_store E p0"
  shows "\<exists>r s' h' p. storage_stream_user_index E (Some (socket_write E fd)) s h = Some (r, s', h') \<and>
    sent fd h' = sent fd h @ p \<and> prefix p (page p0 h) \<and> (0 \<le> r \<longrightarrow> p = page p0 h) \<and>
    (fs_readable E s \<and> sends_work E fd \<longrightarrow> 0 \<le> r)"
  using body_sink.stream_page [OF sockets.is_sink [OF assms(1)] assms(2), of fd s h] socket_write_works [of E fd]
  by blast

interpretation board_page_sockets: sockets "board_page inp pg" for inp pg
  by unfold_locales (auto simp: board_page_def board_def)

lemma board_page_works: "fs_readable (board_page inp pg) storage_boot" "sends_work (board_page inp pg) fd"
  by (simp_all add: fs_readable_def sends_work_def storage_boot_def board_page_def board_def USER_INDEX_PATH_def
      STORAGE_PATH_def)

text \<open>
  C13: streaming the page to a connection ends; what it sends is a prefix of the page, the whole page when it
  succeeds, whatever the sizes of the reads and of the sends; and it succeeds where neither the file system nor the
  connection fails.
\<close>

theorem download_sends_page:
  assumes "sockets E" and "page_store E p0"
  shows "\<exists>r s' h' p. storage_stream_user_index E (Some (socket_write E fd)) s h = Some (r, s', h') \<and>
    sent fd h' = sent fd h @ p \<and> prefix p (page p0 h) \<and> (0 \<le> r \<longrightarrow> p = page p0 h) \<and>
    (fs_readable E s \<and> sends_work E fd \<longrightarrow> 0 \<le> r)"
  using download_page [OF assms] .

theorem download_sends_page_witness:
  "\<exists>r s' h'. storage_stream_user_index (board_page (\<lambda>h. []) [1, 2, 3])
      (Some (socket_write (board_page (\<lambda>h. []) [1, 2, 3]) 4)) storage_boot [] = Some (r, s', h') \<and>
    0 \<le> r \<and> sent 4 h' = [1, 2, 3]"
proof -
  have "page [1, 2, 3] [] = [1, 2, 3]" by (simp add: page_def)
  with download_sends_page [OF board_page_sockets.sockets_axioms board_file.page_store_axioms,
      of "\<lambda>h. []" "[1, 2, 3]" 4 storage_boot "[]"] board_page_works [of "\<lambda>h. []" "[1, 2, 3]"]
  show ?thesis by auto
qed

end
