(* ===== verification/Json.thy ===== *)
theory Json
  imports Zephyr
begin

text \<open>
  The specification language of the responses: JSON documents, their text without white space, and a
  reader for it (RFC 8259 restricted to what the firmware emits: no escapes, integers only). The
  reader inverts the text, so a response that is the text of a document determines the document.
\<close>

datatype json =
    JStr string
  | JInt int
  | JBool bool
  | JArr "json list"
  | JObj "(string \<times> json) list"

abbreviation QUOTE :: char where "QUOTE \<equiv> CHR 0x22"

definition str_text :: "string \<Rightarrow> string" where
  "str_text s = QUOTE # s @ [QUOTE]"

fun json_text :: "json \<Rightarrow> string"
  and elems_text :: "json list \<Rightarrow> string"
  and fields_text :: "(string \<times> json) list \<Rightarrow> string" where
  "json_text (JStr s) = str_text s"
| "json_text (JInt i) = dec_int i"
| "json_text (JBool b) = bool_text b"
| "json_text (JArr vs) = CHR ''['' # elems_text vs @ '']''"
| "json_text (JObj kvs) = CHR ''{'' # fields_text kvs @ ''}''"
| "elems_text [] = []"
| "elems_text [v] = json_text v"
| "elems_text (v # w # vs) = json_text v @ '','' @ elems_text (w # vs)"
| "fields_text [] = []"
| "fields_text [(k, v)] = str_text k @ '':'' @ json_text v"
| "fields_text ((k, v) # f # kvs) = str_text k @ '':'' @ json_text v @ '','' @ fields_text (f # kvs)"

section \<open>Reading\<close>

text \<open>After the opening quote, up to and without the closing one.\<close>

definition plain_char :: "char \<Rightarrow> bool" where
  "plain_char c \<longleftrightarrow> c \<noteq> QUOTE \<and> c \<noteq> CHR 0x5C \<and> 32 \<le> (of_char c :: nat)"

fun read_str :: "string \<Rightarrow> (string \<times> string) option" where
  "read_str [] = None"
| "read_str (c # cs) =
     (if c = QUOTE then Some ([], cs)
      else if plain_char c then map_option (\<lambda>(s, r). (c # s, r)) (read_str cs) else None)"

definition read_nat :: "string \<Rightarrow> (nat \<times> string) option" where
  "read_nat s = (let ds = takeWhile is_digit s in
     if ds = [] then None else Some (undec ds, dropWhile is_digit s))"

definition read_int :: "string \<Rightarrow> (int \<times> string) option" where
  "read_int s = (case s of
     c # cs \<Rightarrow> if c = CHR ''-'' then map_option (\<lambda>(n, r). (- int n, r)) (read_nat cs)
               else map_option (\<lambda>(n, r). (int n, r)) (read_nat s)
   | [] \<Rightarrow> None)"

text \<open>The fuel bounds the depth of the recursion; the length of the text is enough.\<close>

fun read_value :: "nat \<Rightarrow> string \<Rightarrow> (json \<times> string) option"
  and read_elems :: "nat \<Rightarrow> string \<Rightarrow> (json list \<times> string) option"
  and read_fields :: "nat \<Rightarrow> string \<Rightarrow> ((string \<times> json) list \<times> string) option" where
  "read_value 0 s = None"
| "read_value (Suc n) s = (case s of [] \<Rightarrow> None | c # cs \<Rightarrow>
     if c = QUOTE then map_option (\<lambda>(t, r). (JStr t, r)) (read_str cs)
     else if c = CHR ''['' then
       (if prefix '']'' cs then Some (JArr [], drop 1 cs)
        else map_option (\<lambda>(vs, r). (JArr vs, r)) (read_elems n cs))
     else if c = CHR ''{'' then
       (if prefix ''}'' cs then Some (JObj [], drop 1 cs)
        else map_option (\<lambda>(kvs, r). (JObj kvs, r)) (read_fields n cs))
     else if prefix ''true'' s then Some (JBool True, drop 4 s)
     else if prefix ''false'' s then Some (JBool False, drop 5 s)
     else map_option (\<lambda>(i, r). (JInt i, r)) (read_int s))"
| "read_elems 0 s = None"
| "read_elems (Suc n) s = (case read_value n s of
     Some (v, c # r) \<Rightarrow>
       if c = CHR '']'' then Some ([v], r)
       else if c = CHR '','' then map_option (\<lambda>(vs, r1). (v # vs, r1)) (read_elems n r)
       else None
   | _ \<Rightarrow> None)"
| "read_fields 0 s = None"
| "read_fields (Suc n) s = (case s of [] \<Rightarrow> None | q # cs \<Rightarrow>
     if q \<noteq> QUOTE then None
     else (case read_str cs of
       Some (k, c1 # r1) \<Rightarrow>
         if c1 \<noteq> CHR '':'' then None
         else (case read_value n r1 of
           Some (v, c # r) \<Rightarrow>
             if c = CHR ''}'' then Some ([(k, v)], r)
             else if c = CHR '','' then map_option (\<lambda>(kvs, r2). ((k, v) # kvs, r2)) (read_fields n r)
             else None
         | _ \<Rightarrow> None)
     | _ \<Rightarrow> None))"

definition json_read :: "string \<Rightarrow> json option" where
  "json_read s = (case read_value (length s) s of Some (v, []) \<Rightarrow> Some v | _ \<Rightarrow> None)"

section \<open>Reading inverts the text\<close>

fun json_plain :: "json \<Rightarrow> bool"
  and fields_plain :: "(string \<times> json) list \<Rightarrow> bool"
  and elems_plain :: "json list \<Rightarrow> bool" where
  "json_plain (JStr s) = list_all plain_char s"
| "json_plain (JInt i) = True"
| "json_plain (JBool b) = True"
| "json_plain (JArr vs) = elems_plain vs"
| "json_plain (JObj kvs) = fields_plain kvs"
| "elems_plain [] = True"
| "elems_plain (v # vs) = (json_plain v \<and> elems_plain vs)"
| "fields_plain [] = True"
| "fields_plain ((k, v) # kvs) = (list_all plain_char k \<and> json_plain v \<and> fields_plain kvs)"

lemma read_str_text: "list_all plain_char s \<Longrightarrow> read_str (s @ QUOTE # r) = Some (s, r)"
  by (induction s) (auto simp: plain_char_def)

lemma dec_not_Nil [simp]: "dec n \<noteq> []"
  by (subst dec.simps) simp

lemma read_nat_dec: "\<not> is_digit (char_at r 0) \<Longrightarrow> read_nat (dec n @ r) = Some (n, r)"
proof -
  assume r: "\<not> is_digit (char_at r 0)"
  have "takeWhile is_digit r = []" "dropWhile is_digit r = r"
    using r by (cases r, simp_all)+
  then have "takeWhile is_digit (dec n @ r) = dec n" "dropWhile is_digit (dec n @ r) = r"
    by (simp_all add: takeWhile_append2 dropWhile_append2 dec_digits)
  then show ?thesis by (simp add: read_nat_def)
qed

lemma read_int_dec: "\<not> is_digit (char_at r 0) \<Longrightarrow> read_int (dec_int i @ r) = Some (i, r)"
proof (cases "i < 0")
  case False
  obtain c cs where c: "dec (nat i) = c # cs" by (cases "dec (nat i)") auto
  then have "is_digit c" using dec_digits [of c "nat i"] by simp
  then have "c \<noteq> CHR ''-''" by (auto simp: is_digit_def)
  moreover assume "\<not> is_digit (char_at r 0)"
  ultimately show ?thesis
    using False read_nat_dec [of r "nat i"] c by (simp add: dec_int_def read_int_def)
qed (simp add: dec_int_def read_int_def read_nat_dec)

lemma dec_int_head: "\<exists>c cs. dec_int i = c # cs \<and> (is_digit c \<or> c = CHR ''-'')"
proof (cases "i < 0")
  case False
  then show ?thesis
    using dec_digits [of "hd (dec (nat i))" "nat i"] by (cases "dec (nat i)") (auto simp: dec_int_def)
qed (simp add: dec_int_def)

lemma json_text_head:
  "\<exists>c cs. json_text v = c # cs \<and> c \<noteq> CHR '']'' \<and> c \<noteq> CHR ''}''"
proof (cases v)
  case (JInt i)
  then show ?thesis using dec_int_head [of i] by (auto simp: is_digit_def)
qed (auto simp: str_text_def bool_text_def)

lemma read_value_int:
  assumes "\<not> is_digit (char_at r 0)"
  shows "read_value (Suc n) (dec_int i @ r) = Some (JInt i, r)"
proof -
  obtain c cs where c: "dec_int i = c # cs" "is_digit c \<or> c = CHR ''-''"
    using dec_int_head by blast
  then have "c \<notin> {QUOTE, CHR ''['', CHR ''{'', CHR ''t'', CHR ''f''}"
    by (auto simp: is_digit_def)
  then show ?thesis
    using read_int_dec [OF assms, of i] c(1) by auto
qed

lemma read_text:
  "json_plain v \<Longrightarrow> length (json_text v) \<le> n \<Longrightarrow> \<not> is_digit (char_at r 0) \<Longrightarrow>
    read_value n (json_text v @ r) = Some (v, r)"
  "elems_plain vs \<Longrightarrow> vs \<noteq> [] \<Longrightarrow> length (elems_text vs) < n \<Longrightarrow>
    read_elems n (elems_text vs @ CHR '']'' # r) = Some (vs, r)"
  "fields_plain kvs \<Longrightarrow> kvs \<noteq> [] \<Longrightarrow> length (fields_text kvs) < n \<Longrightarrow>
    read_fields n (fields_text kvs @ CHR ''}'' # r) = Some (kvs, r)"
proof (induction v and vs and kvs arbitrary: n r and n r and n r
    rule: json_text_elems_text_fields_text.induct)
  case (1 s)
  then show ?case by (cases n) (auto simp: str_text_def read_str_text)
next
  case (2 i)
  then show ?case
    using dec_int_head [of i] read_value_int [of r _ i] by (cases n) auto
next
  case (3 b)
  then show ?case by (cases n; cases b) (auto simp: bool_text_def)
next
  case (4 vs)
  then obtain m where n: "n = Suc m" by (cases n) auto
  show ?case
  proof (cases vs)
    case Nil
    then show ?thesis using n by simp
  next
    case (Cons v ws)
    moreover obtain c cs where "elems_text vs = c # cs" "c \<noteq> CHR '']''"
      using json_text_head [of v] Cons by (cases ws) auto
    ultimately show ?thesis using 4 n by simp
  qed
next
  case (5 kvs)
  then obtain m where n: "n = Suc m" by (cases n) auto
  show ?case
  proof (cases kvs)
    case Nil
    then show ?thesis using n by simp
  next
    case (Cons kv ws)
    moreover obtain cs where "fields_text kvs = QUOTE # cs"
      using Cons by (cases kv; cases ws) (auto simp: str_text_def)
    ultimately show ?thesis using 5 n by simp
  qed
next
  case (7 v)
  then show ?case by (cases n) (auto simp: is_digit_def)
next
  case (8 v w vs)
  then show ?case by (cases n) (auto simp: is_digit_def)
next
  case (10 k v)
  then show ?case
    by (cases n) (auto simp: str_text_def read_str_text is_digit_def)
next
  case (11 k v f kvs)
  then show ?case
    by (cases n) (auto simp: str_text_def read_str_text is_digit_def)
qed simp_all

lemma json_read_text: "json_plain v \<Longrightarrow> json_read (json_text v) = Some v"
  using read_text(1) [of v "length (json_text v)" "[]"] by (simp add: json_read_def is_digit_def)

end
