(* ===== verification/CanMessages.thy ===== *)
theory CanMessages
  imports Json
begin

text \<open>
  The messages of \<open>can_bridge.c\<close>: the decoded request, the names of states and modes, the replies
  and the validation of a transmit request. A response buffer is the C string in it; a function that may
  leave it alone takes it and returns it. \<open>json_obj_parse\<close> is Zephyr's, a parameter whose contract is
  the locale \<open>json_parser\<close>.
\<close>

section \<open>Requests\<close>

datatype can_json_field = CAN_JSON_TYPE | CAN_JSON_BUS | CAN_JSON_ID | CAN_JSON_EXT | CAN_JSON_RTR
  | CAN_JSON_DLC | CAN_JSON_DATA | CAN_JSON_BITRATE | CAN_JSON_MODE

primrec field_no :: "can_json_field \<Rightarrow> nat" where
  "field_no CAN_JSON_TYPE = 0"
| "field_no CAN_JSON_BUS = 1"
| "field_no CAN_JSON_ID = 2"
| "field_no CAN_JSON_EXT = 3"
| "field_no CAN_JSON_RTR = 4"
| "field_no CAN_JSON_DLC = 5"
| "field_no CAN_JSON_DATA = 6"
| "field_no CAN_JSON_BITRATE = 7"
| "field_no CAN_JSON_MODE = 8"

text \<open>\<open>BIT(field)\<close> in the \<open>int64_t\<close> that the parser returns, and the test of one bit.\<close>

definition BIT :: "can_json_field \<Rightarrow> int" where
  "BIT f = 2 ^ field_no f"

definition has_field :: "int \<Rightarrow> can_json_field \<Rightarrow> bool" where
  "has_field flds f \<longleftrightarrow> flds AND BIT f \<noteq> 0"

text \<open>A null \<open>char *\<close> is \<open>None\<close>; the \<open>int32_t\<close> members are integers, ranged by the parser's contract.\<close>

record can_json_message =
  cm_type :: "string option"
  cm_bus :: int
  cm_id :: int
  cm_ext :: bool
  cm_rtr :: bool
  cm_dlc :: int
  cm_data :: "int list"
  cm_data_len :: nat
  cm_bitrate :: int
  cm_mode :: "string option"

definition can_json_message_zero :: can_json_message where
  "can_json_message_zero = \<lparr>cm_type = None, cm_bus = 0, cm_id = 0, cm_ext = False, cm_rtr = False,
     cm_dlc = 0, cm_data = replicate CAN_MAX_DLC 0, cm_data_len = 0, cm_bitrate = 0, cm_mode = None\<rparr>"

type_synonym json_parse = "string \<Rightarrow> can_json_message \<Rightarrow> int \<times> can_json_message"

locale json_parser =
  fixes parse :: json_parse
  assumes parse_ok: "parse s can_json_message_zero = (flds, m) \<Longrightarrow> 0 \<le> flds \<Longrightarrow>
      (has_field flds CAN_JSON_TYPE \<longrightarrow> cm_type m \<noteq> None) \<and>
      (\<not> has_field flds CAN_JSON_DATA \<longrightarrow> cm_data_len m = 0) \<and>
      cm_data_len m \<le> CAN_MAX_DLC \<and> length (cm_data m) = CAN_MAX_DLC \<and>
      is_int32 (cm_bus m) \<and> is_int32 (cm_id m) \<and> is_int32 (cm_dlc m) \<and> is_int32 (cm_bitrate m) \<and>
      list_all is_int32 (cm_data m)"
    and parse_err: "parse s can_json_message_zero = (flds, m) \<Longrightarrow> flds < 0 \<Longrightarrow> is_int32 flds"

section \<open>Names\<close>

fun can_state_name :: "can_state \<Rightarrow> string" where
  "can_state_name CAN_STATE_ERROR_ACTIVE = ''error-active''"
| "can_state_name CAN_STATE_ERROR_WARNING = ''error-warning''"
| "can_state_name CAN_STATE_ERROR_PASSIVE = ''error-passive''"
| "can_state_name CAN_STATE_BUS_OFF = ''bus-off''"
| "can_state_name CAN_STATE_STOPPED = ''stopped''"
| "can_state_name (CAN_STATE_OTHER _) = ''unknown''"

definition can_mode_name :: "u32 \<Rightarrow> string" where
  "can_mode_name mode =
     (if mode AND CAN_MODE_LOOPBACK \<noteq> 0 then ''loopback''
      else if mode AND CAN_MODE_LISTENONLY \<noteq> 0 then ''listen-only''
      else ''normal'')"

text \<open>The return value and the mode stored; on an error the mode stays.\<close>

definition can_mode_from_name :: "string option \<Rightarrow> u32 \<Rightarrow> int \<times> u32" where
  "can_mode_from_name name mode =
     (if name = None \<or> name = Some ''normal'' then (0, CAN_MODE_NORMAL)
      else if name = Some ''loopback'' then (0, CAN_MODE_LOOPBACK)
      else if name = Some ''listen-only'' then (0, CAN_MODE_LISTENONLY)
      else (err EINVAL, mode))"

section \<open>Replies\<close>

definition error_text :: "string \<Rightarrow> string \<Rightarrow> int \<Rightarrow> string" where
  \<open>error_text code message e =
     ''{"type":"error","ok":false,"code":"'' @ code @ ''",'' @
     ''"err":'' @ dec_int e @ '',"message":"'' @ message @ ''"}''\<close>

definition ws_reply :: "nat \<Rightarrow> string \<Rightarrow> string \<Rightarrow> int \<Rightarrow> int \<times> string" where
  "ws_reply response_len code message e = snprintk response_len (error_text code message e)"

text \<open>
  \<open>snprintk(&response[offset], response_len - offset, ...)\<close> and its check: \<open>Inl\<close> when the text does
  not fit, with what the buffer then holds.
\<close>

definition fmt_append :: "nat \<Rightarrow> string \<Rightarrow> string \<Rightarrow> string + string" where
  "fmt_append response_len response text =
     (let (ret, part) = snprintk (response_len - length response) text
      in if int (response_len - length response) \<le> ret then Inl (response @ part)
         else Inr (response @ part))"

fun fmt_data :: "nat \<Rightarrow> nat \<Rightarrow> string list \<Rightarrow> string \<Rightarrow> string + string" where
  "fmt_data response_len i [] response = Inr response"
| "fmt_data response_len i (x # xs) response =
     (case fmt_append response_len response ((if i = 0 then '''' else '','') @ x) of
        Inl r \<Rightarrow> Inl r
      | Inr r \<Rightarrow> fmt_data response_len (i + 1) xs r)"

text \<open>The three steps both formatters are made of: a head, the data, a tail.\<close>

definition fmt_frame :: "nat \<Rightarrow> string \<Rightarrow> string list \<Rightarrow> string \<Rightarrow> int \<times> string" where
  "fmt_frame response_len head_text items tail_text =
     (case fmt_append response_len '''' head_text of
        Inl r \<Rightarrow> (err ENOMEM, r)
      | Inr r \<Rightarrow>
          (case fmt_data response_len 0 items r of
             Inl r1 \<Rightarrow> (err ENOMEM, r1)
           | Inr r1 \<Rightarrow>
               (case fmt_append response_len r1 tail_text of
                  Inl r2 \<Rightarrow> (err ENOMEM, r2)
                | Inr r2 \<Rightarrow> (0, r2))))"

definition rx_head :: "can_frame \<Rightarrow> string" where
  \<open>rx_head frame =
     ''{"type":"can.rx","bus":0,"id":'' @ dec (unat (fr_id frame)) @
     '',"ext":'' @ bool_text (fr_flags frame AND CAN_FRAME_IDE \<noteq> 0) @
     '',"rtr":'' @ bool_text (fr_flags frame AND CAN_FRAME_RTR \<noteq> 0) @
     '',"dlc":'' @ dec (unat (fr_dlc frame)) @ '',"data":[''\<close>

text \<open>The data loop reads \<open>frame.data[i]\<close> for \<open>i < frame.dlc\<close>.\<close>

definition rx_items :: "can_frame \<Rightarrow> string list" where
  "rx_items frame = map (\<lambda>i. dec (unat (fr_data frame ! i))) [0..<unat (fr_dlc frame)]"

definition rx_tail :: "int \<Rightarrow> string" where
  \<open>rx_tail ts = ''],"ts":'' @ dec_int ts @ ''}''\<close>

definition tx_head :: "can_json_message \<Rightarrow> string" where
  \<open>tx_head msg =
     ''{"type":"can.tx","ok":true,"bus":'' @ dec_int (cm_bus msg) @
     '',"id":'' @ dec_int (cm_id msg) @
     '',"ext":'' @ bool_text (cm_ext msg) @ '',"rtr":'' @ bool_text (cm_rtr msg) @
     '',"dlc":'' @ dec_int (cm_dlc msg) @ '',"data":[''\<close>

definition tx_tail :: "int \<Rightarrow> string" where
  \<open>tx_tail ts = ''],"queued":true,"ts":'' @ dec_int ts @ ''}''\<close>

definition format_can_tx_response ::
  "env \<Rightarrow> can_json_message \<Rightarrow> nat \<Rightarrow> hist \<Rightarrow> (int \<times> string) \<times> hist" where
  "format_can_tx_response E msg response_len h =
     (let ts = env_uptime_us E h in
      (fmt_frame response_len (tx_head msg)
         (map (\<lambda>i. dec_int (cm_data msg ! i)) [0..<cm_data_len msg]) (tx_tail ts),
       h @ [K_uptime ts]))"

section \<open>Validation\<close>

definition validate_can_json ::
  "can_json_message \<Rightarrow> int \<Rightarrow> nat \<Rightarrow> string \<Rightarrow> int \<times> string" where
  "validate_can_json msg flds response_len response =
     (let required = BIT CAN_JSON_BUS OR BIT CAN_JSON_ID OR BIT CAN_JSON_DLC;
          has_data = has_field flds CAN_JSON_DATA;
          reply = (\<lambda>code message e. ws_reply response_len code message (err e))
      in if flds AND required \<noteq> required then
           reply ''missing_field'' ''CAN JSON must include bus, id and dlc'' EINVAL
         else if cm_bus msg \<noteq> 0 then
           reply ''unsupported_bus'' ''Only CAN bus 0 is available'' ENODEV
         else if cm_dlc msg < 0 \<or> int CAN_MAX_DLC < cm_dlc msg then
           reply ''invalid_dlc'' ''CAN dlc must be between 0 and 8'' EINVAL
         else if cm_id msg < 0 \<or> (\<not> cm_ext msg \<and> CAN_STD_ID_MASK < cm_id msg) \<or>
                 (cm_ext msg \<and> CAN_EXT_ID_MASK < cm_id msg) then
           reply ''invalid_id'' ''CAN id is outside the selected frame format'' EINVAL
         else if \<not> cm_rtr msg \<and> 0 < cm_dlc msg \<and> \<not> has_data then
           reply ''missing_data'' ''Data frames with dlc > 0 must include data'' EINVAL
         else if \<not> cm_rtr msg \<and> int (cm_data_len msg) \<noteq> cm_dlc msg then
           reply ''data_length_mismatch'' ''data length must match dlc'' EINVAL
         else if cm_rtr msg \<and> has_data \<and> 0 < cm_data_len msg then
           reply ''rtr_has_data'' ''RTR frames must not include data bytes'' EINVAL
         else if list_ex (\<lambda>i. cm_data msg ! i < 0 \<or> 0xff < cm_data msg ! i) [0..<cm_data_len msg] then
           reply ''invalid_data'' ''CAN data bytes must be between 0 and 255'' EINVAL
         else (0, response))"

text \<open>The \<open>can_frame\<close> that the handler builds in a zeroed structure.\<close>

definition frame_of :: "can_json_message \<Rightarrow> can_frame" where
  "frame_of msg = \<lparr>
     fr_id = word_of_int (cm_id msg),
     fr_dlc = word_of_int (cm_dlc msg),
     fr_flags = (if cm_ext msg then CAN_FRAME_IDE else 0) OR (if cm_rtr msg then CAN_FRAME_RTR else 0),
     fr_data = map (\<lambda>i. if i < cm_data_len msg then word_of_int (cm_data msg ! i) else 0)
                 [0..<CAN_MAX_DLC]\<rparr>"

section \<open>The documents the replies are\<close>

definition error_doc :: "string \<Rightarrow> string \<Rightarrow> int \<Rightarrow> json" where
  "error_doc code message e = JObj [(''type'', JStr ''error''), (''ok'', JBool False),
     (''code'', JStr code), (''err'', JInt e), (''message'', JStr message)]"

definition rx_doc :: "can_frame \<Rightarrow> int \<Rightarrow> json" where
  "rx_doc frame ts = JObj [(''type'', JStr ''can.rx''), (''bus'', JInt 0), (''id'', JInt (uint (fr_id frame))),
     (''ext'', JBool (bit (fr_flags frame) 0)), (''rtr'', JBool (bit (fr_flags frame) 1)),
     (''dlc'', JInt (uint (fr_dlc frame))),
     (''data'', JArr (map (\<lambda>b. JInt (uint b)) (take (unat (fr_dlc frame)) (fr_data frame)))),
     (''ts'', JInt ts)]"

definition tx_doc :: "can_json_message \<Rightarrow> int \<Rightarrow> json" where
  "tx_doc msg ts = JObj [(''type'', JStr ''can.tx''), (''ok'', JBool True), (''bus'', JInt (cm_bus msg)),
     (''id'', JInt (cm_id msg)), (''ext'', JBool (cm_ext msg)), (''rtr'', JBool (cm_rtr msg)),
     (''dlc'', JInt (cm_dlc msg)), (''data'', JArr (map JInt (take (cm_data_len msg) (cm_data msg)))),
     (''queued'', JBool True), (''ts'', JInt ts)]"

text \<open>The field rules of \<open>docs/protocol.md\<close>.\<close>

definition valid_request :: "can_json_message \<Rightarrow> int \<Rightarrow> bool" where
  "valid_request msg flds \<longleftrightarrow>
     has_field flds CAN_JSON_BUS \<and> has_field flds CAN_JSON_ID \<and> has_field flds CAN_JSON_DLC \<and>
     cm_bus msg = 0 \<and> 0 \<le> cm_dlc msg \<and> cm_dlc msg \<le> 8 \<and>
     0 \<le> cm_id msg \<and> cm_id msg < (if cm_ext msg then 2 ^ 29 else 2 ^ 11) \<and>
     (if cm_rtr msg then \<not> (has_field flds CAN_JSON_DATA \<and> 0 < cm_data_len msg)
      else int (cm_data_len msg) = cm_dlc msg \<and> (0 < cm_dlc msg \<longrightarrow> has_field flds CAN_JSON_DATA)) \<and>
     list_all (\<lambda>d. 0 \<le> d \<and> d \<le> 255) (take (cm_data_len msg) (cm_data msg))"

text \<open>What goes to a classical CAN controller.\<close>

definition frame_ok :: "can_frame \<Rightarrow> bool" where
  "frame_ok f \<longleftrightarrow>
     unat (fr_id f) < (if bit (fr_flags f) 0 then 2 ^ 29 else 2 ^ 11) \<and> unat (fr_dlc f) \<le> 8 \<and>
     fr_flags f \<le> 3 \<and> length (fr_data f) = 8 \<and>
     (\<forall>i<8. unat (fr_dlc f) \<le> i \<or> bit (fr_flags f) 1 \<longrightarrow> fr_data f ! i = 0)"

text \<open>
  What a classical CAN controller may deliver: \<open>struct can_frame\<close> has room for eight bytes, and the length
  code says how many of them are data. Nothing is assumed of the bytes behind the data.
\<close>

definition frame_wf :: "can_frame \<Rightarrow> bool" where
  "frame_wf f \<longleftrightarrow> unat (fr_dlc f) \<le> 8 \<and> length (fr_data f) = 8"

section \<open>The formatters write these documents\<close>

lemma error_text_doc: "error_text code message e = json_text (error_doc code message e)"
  by (simp add: error_text_def error_doc_def str_text_def bool_text_def)

text \<open>No formatter writes more than the buffer holds, the NUL included.\<close>

lemma snprintk_length: "0 < n \<Longrightarrow> length (snd (snprintk n text)) < n"
  by (auto simp: snprintk_def)

lemma ws_reply_length: "0 < n \<Longrightarrow> length (snd (ws_reply n code message e)) < n"
  by (simp add: ws_reply_def snprintk_length)

lemma fmt_append_length:
  assumes "length response < n"
  shows "fmt_append n response text = Inl r \<Longrightarrow> length r < n"
    and "fmt_append n response text = Inr r \<Longrightarrow> length r < n"
  using assms by (auto simp: fmt_append_def snprintk_def Let_def split: if_splits)

lemma fmt_data_length:
  assumes "length response < n"
  shows "fmt_data n i xs response = Inl r \<Longrightarrow> length r < n"
    and "fmt_data n i xs response = Inr r \<Longrightarrow> length r < n"
  using assms
  by (induction xs arbitrary: i response) (auto split: sum.splits dest: fmt_append_length)

lemma fmt_frame_length:
  assumes "0 < n"
  shows "length (snd (fmt_frame n hd_text items tl_text)) < n"
proof (cases "fmt_append n [] hd_text")
  case (Inl r)
  then show ?thesis using fmt_append_length(1) [OF _ Inl] assms by (simp add: fmt_frame_def)
next
  case first: (Inr r)
  then have r: "length r < n" using fmt_append_length(2) [OF _ first] assms by simp
  show ?thesis
  proof (cases "fmt_data n 0 items r")
    case (Inl r1)
    then show ?thesis using fmt_data_length(1) [OF r Inl] first by (simp add: fmt_frame_def)
  next
    case (Inr r1)
    note r1 = fmt_data_length(2) [OF r Inr]
    show ?thesis
      using fmt_append_length(1) [OF r1] fmt_append_length(2) [OF r1] Inr first
      by (cases "fmt_append n r1 tl_text") (simp_all add: fmt_frame_def)
  qed
qed

lemma validate_can_json_length:
  assumes "length response < n"
  shows "length (snd (validate_can_json msg flds n response)) < n"
proof -
  define P where "P v \<longleftrightarrow> length (snd v) < n" for v :: "int \<times> string"
  have "P (ws_reply n code message e)" for code message e
    using assms ws_reply_length [of n] by (auto simp: P_def)
  moreover have "P (0, response)" using assms by (simp add: P_def)
  ultimately have "P (validate_can_json msg flds n response)"
    unfolding validate_can_json_def Let_def by simp
  then show ?thesis by (simp add: P_def)
qed

lemma fmt_append_fits:
  "length response + length text < response_len \<Longrightarrow>
    fmt_append response_len response text = Inr (response @ text)"
  by (simp add: fmt_append_def snprintk_def)

lemma fmt_data_fits:
  "length response + (\<Sum>x\<leftarrow>xs. Suc (length x)) < response_len \<Longrightarrow>
    fmt_data response_len (Suc i) xs response = Inr (response @ concat (map (\<lambda>x. CHR '','' # x) xs))"
  by (induction xs arbitrary: i response) (simp_all add: fmt_append_fits)

lemma elems_text_Cons:
  "elems_text (v # vs) = json_text v @ concat (map (\<lambda>x. CHR '','' # json_text x) vs)"
  by (induction vs arbitrary: v) simp_all

lemma fmt_data_elems:
  assumes "length response + (\<Sum>x\<leftarrow>vs. Suc (length (json_text x))) < response_len"
  shows "fmt_data response_len 0 (map json_text vs) response = Inr (response @ elems_text vs)"
proof (cases vs)
  case (Cons v ws)
  then show ?thesis
    using assms fmt_data_fits [of "response @ json_text v" "map json_text ws" response_len 0]
    by (simp add: fmt_append_fits elems_text_Cons comp_def)
qed simp

lemma fmt_frame_text:
  assumes "length hd_text + (\<Sum>x\<leftarrow>vs. Suc (length (json_text x))) + length tl_text < response_len"
  shows "fmt_frame response_len hd_text (map json_text vs) tl_text =
    (0, hd_text @ elems_text vs @ tl_text)"
proof -
  have "length (elems_text vs) \<le> (\<Sum>x\<leftarrow>vs. Suc (length (json_text x)))"
    by (cases vs) (simp_all add: elems_text_Cons length_concat comp_def)
  then show ?thesis
    using assms by (simp add: fmt_frame_def fmt_append_fits fmt_data_elems)
qed

lemma sum_list_le: "(\<And>x. x \<in> set xs \<Longrightarrow> f x \<le> (k :: nat)) \<Longrightarrow> (\<Sum>x\<leftarrow>xs. f x) \<le> length xs * k"
  by (induction xs) (auto simp: add_mono)

lemma dec_word_length:
  "length (dec (unat (w :: u8))) \<le> 3" "length (dec (unat (v :: u32))) \<le> 10"
proof -
  have "unat w < 256" "unat v < 4294967296"
    using unsigned_less [of w, where ?'a = nat] unsigned_less [of v, where ?'a = nat] by simp_all
  then show "length (dec (unat w)) \<le> 3" "length (dec (unat v)) \<le> 10"
    by (intro dec_length; simp)+
qed

lemma dec_int_uint [simp]: "dec_int (uint w) = dec (unat w)"
  by (simp add: dec_int_def)

lemma dec_int_0: "dec_int 0 = ''0''"
  by code_simp

lemma flag_bits:
  "x AND CAN_FRAME_IDE \<noteq> 0 \<longleftrightarrow> bit x 0" "x AND CAN_FRAME_RTR \<noteq> 0 \<longleftrightarrow> bit x 1"
  using and_exp_eq_0_iff_not_bit [of x 0] and_exp_eq_0_iff_not_bit [of x 1]
  by (simp_all add: CAN_FRAME_IDE_def CAN_FRAME_RTR_def)

lemma has_field_bit: "has_field flds f \<longleftrightarrow> bit flds (field_no f)"
  by (simp add: has_field_def BIT_def and_exp_eq_0_iff_not_bit)

lemma format_rx_doc:
  assumes "frame_wf frame" and "is_int64 ts" and "256 \<le> response_len"
  shows "fmt_frame response_len (rx_head frame) (rx_items frame) (rx_tail ts) =
    (0, json_text (rx_doc frame ts))"
proof -
  let ?vs = "map (\<lambda>b. JInt (uint b)) (take (unat (fr_dlc frame)) (fr_data frame))"
  have dlc: "unat (fr_dlc frame) \<le> 8" "length (fr_data frame) = 8"
    using assms(1) by (simp_all add: frame_wf_def)
  have items: "rx_items frame = map json_text ?vs"
    using dlc by (auto simp: rx_items_def dec_int_def intro!: nth_equalityI)
  have "(\<Sum>x\<leftarrow>?vs. Suc (length (json_text x))) \<le> length ?vs * 4"
    using dec_word_length(1) by (intro sum_list_le) (auto simp: dec_int_def)
  then have "(\<Sum>x\<leftarrow>?vs. Suc (length (json_text x))) \<le> 32"
    using dlc by (simp add: min_def split: if_splits)
  moreover have "length (rx_head frame) \<le> 100" "length (rx_tail ts) \<le> 40"
    using dec_word_length(1) [of "fr_dlc frame"] dec_word_length(2) [of "fr_id frame"]
      is_int64_length [OF assms(2)]
    by (simp_all add: rx_head_def rx_tail_def bool_text_def)
  ultimately have "length (rx_head frame) + (\<Sum>x\<leftarrow>?vs. Suc (length (json_text x))) +
      length (rx_tail ts) < response_len"
    using assms(3) by linarith
  from fmt_frame_text [OF this] have "fmt_frame response_len (rx_head frame) (rx_items frame) (rx_tail ts) =
      (0, rx_head frame @ elems_text ?vs @ rx_tail ts)"
    unfolding items .
  also have "rx_head frame @ elems_text ?vs @ rx_tail ts = json_text (rx_doc frame ts)"
    by (simp add: rx_doc_def rx_head_def rx_tail_def str_text_def flag_bits dec_int_0)
  finally show ?thesis .
qed

lemma format_tx_doc:
  assumes m: "valid_request msg flds" "length (cm_data msg) = CAN_MAX_DLC" "cm_data_len msg \<le> CAN_MAX_DLC"
    and ts: "is_int64 (env_uptime_us E h)" and "256 \<le> response_len"
  shows "format_can_tx_response E msg response_len h =
    ((0, json_text (tx_doc msg (env_uptime_us E h))), h @ [K_uptime (env_uptime_us E h)])"
proof -
  let ?vs = "map JInt (take (cm_data_len msg) (cm_data msg))"
  let ?ts = "env_uptime_us E h"
  have items: "map (\<lambda>i. dec_int (cm_data msg ! i)) [0..<cm_data_len msg] = map json_text ?vs"
    using m(2,3) by (auto intro!: nth_equalityI)
  have "0 \<le> d \<and> d < 10 ^ 3" if "d \<in> set (take (cm_data_len msg) (cm_data msg))" for d
    using m(1) that by (auto simp: valid_request_def list_all_iff)
  then have "length (json_text v) \<le> 3" if "v \<in> set ?vs" for v
    using that dec_int_length_nonneg [of _ 3] by auto
  then have "(\<Sum>x\<leftarrow>?vs. Suc (length (json_text x))) \<le> length ?vs * 4"
    by (intro sum_list_le) auto
  then have "(\<Sum>x\<leftarrow>?vs. Suc (length (json_text x))) \<le> 32"
    using m(2,3) by (simp add: CAN_MAX_DLC_def)
  moreover have "length (dec_int (cm_id msg)) \<le> 9" "length (dec_int (cm_dlc msg)) \<le> 1"
    "length (dec_int (cm_bus msg)) \<le> 1"
    using m(1) by (auto simp: valid_request_def split: if_splits intro!: dec_int_length_nonneg)
  then have "length (tx_head msg) \<le> 100" "length (tx_tail ?ts) \<le> 50"
    using is_int64_length [OF ts] by (simp_all add: tx_head_def tx_tail_def bool_text_def)
  ultimately have "length (tx_head msg) + (\<Sum>x\<leftarrow>?vs. Suc (length (json_text x))) +
      length (tx_tail ?ts) < response_len"
    using assms(5) by linarith
  from fmt_frame_text [OF this] have "format_can_tx_response E msg response_len h =
      ((0, tx_head msg @ elems_text ?vs @ tx_tail ?ts), h @ [K_uptime ?ts])"
    unfolding format_can_tx_response_def Let_def items by simp
  also have "tx_head msg @ elems_text ?vs @ tx_tail ?ts = json_text (tx_doc msg ?ts)"
    by (simp add: tx_doc_def tx_head_def tx_tail_def str_text_def bool_text_def)
  finally show ?thesis .
qed

section \<open>Validation accepts what the rules allow\<close>

lemma ws_reply_ret: "fst (ws_reply n code message e) = int (length (error_text code message e))"
  by (simp add: ws_reply_def snprintk_def)

lemma error_text_nonempty: "0 < length (error_text code message e)"
  by (simp add: error_text_def)

lemma ws_reply_fits:
  "length code + length message \<le> 150 \<Longrightarrow> is_int32 e \<Longrightarrow> 256 \<le> n \<Longrightarrow>
    ws_reply n code message e =
      (int (length (error_text code message e)), json_text (error_doc code message e))"
  using is_int32_length [of e]
  by (simp add: ws_reply_def snprintk_def error_text_doc [symmetric]) (simp add: error_text_def)

lemma required_bits:
  "flds AND (BIT CAN_JSON_BUS OR BIT CAN_JSON_ID OR BIT CAN_JSON_DLC) =
     BIT CAN_JSON_BUS OR BIT CAN_JSON_ID OR BIT CAN_JSON_DLC \<longleftrightarrow>
   has_field flds CAN_JSON_BUS \<and> has_field flds CAN_JSON_ID \<and> has_field flds CAN_JSON_DLC"
proof -
  have "flds AND m = m \<longleftrightarrow> (\<forall>n. bit m n \<longrightarrow> bit flds n)" for m :: int
    by (auto simp: bit_eq_iff bit_and_iff)
  moreover have "bit (BIT f) n \<longleftrightarrow> n = field_no f" for f n
    by (auto simp: BIT_def bit_exp_iff)
  ultimately show ?thesis
    unfolding has_field_bit by (auto simp: bit_or_iff simp del: field_no.simps)
qed

lemma validate_can_json_ok:
  assumes "length (cm_data msg) = CAN_MAX_DLC" "cm_data_len msg \<le> CAN_MAX_DLC"
  shows "fst (validate_can_json msg flds n response) = 0 \<longleftrightarrow> valid_request msg flds"
proof -
  have "list_ex (\<lambda>i. cm_data msg ! i < 0 \<or> 0xff < cm_data msg ! i) [0..<cm_data_len msg] \<longleftrightarrow>
      \<not> list_all (\<lambda>d. 0 \<le> d \<and> d \<le> 255) (take (cm_data_len msg) (cm_data msg))"
  proof -
    have "set (take k xs) = (\<lambda>i. xs ! i) ` {0..<k}" if "k \<le> length xs" for k and xs :: "int list"
      using that nth_image [of k xs] by (simp add: atLeast0LessThan)
    then show ?thesis
      using assms by (auto simp: list_ex_iff list_all_iff not_le)
  qed
  moreover have r: "fst (ws_reply n code message e) \<noteq> 0" for code message e
    using error_text_nonempty [of code message e] by (simp add: ws_reply_ret)
  ultimately show ?thesis
    unfolding validate_can_json_def Let_def valid_request_def required_bits
    by (auto simp: CAN_MAX_DLC_def CAN_STD_ID_MASK_def CAN_EXT_ID_MASK_def)
qed

lemma validate_can_json_quiet:
  "fst (validate_can_json msg flds n response) = 0 \<Longrightarrow> snd (validate_can_json msg flds n response) = response"
proof -
  define P where "P v \<longleftrightarrow> fst v \<noteq> 0 \<or> snd v = response" for v :: "int \<times> string"
  have "P (ws_reply n code message e)" for code message e
    using error_text_nonempty [of code message e] by (simp add: P_def ws_reply_ret)
  moreover have "P (0, response)" by (simp add: P_def)
  ultimately have "P (validate_can_json msg flds n response)"
    unfolding validate_can_json_def Let_def by simp
  then show "fst (validate_can_json msg flds n response) = 0 \<Longrightarrow>
      snd (validate_can_json msg flds n response) = response"
    by (simp add: P_def)
qed

lemma frame_of_ok:
  assumes v: "valid_request msg flds"
    and d: "\<not> has_field flds CAN_JSON_DATA \<Longrightarrow> cm_data_len msg = 0"
  shows "frame_ok (frame_of msg)"
    and "uint (fr_id (frame_of msg)) = cm_id msg" and "uint (fr_dlc (frame_of msg)) = cm_dlc msg"
    and "bit (fr_flags (frame_of msg)) 0 = cm_ext msg" and "bit (fr_flags (frame_of msg)) 1 = cm_rtr msg"
proof -
  show id: "uint (fr_id (frame_of msg)) = cm_id msg"
    using v by (auto simp: valid_request_def frame_of_def uint_word_of_int split: if_splits)
  show dlc: "uint (fr_dlc (frame_of msg)) = cm_dlc msg"
    using v by (auto simp: valid_request_def frame_of_def uint_word_of_int)
  show fl: "bit (fr_flags (frame_of msg)) 0 = cm_ext msg" "bit (fr_flags (frame_of msg)) 1 = cm_rtr msg"
    by (auto simp: frame_of_def CAN_FRAME_IDE_def CAN_FRAME_RTR_def bit_or_iff)
  have "unat (fr_id (frame_of msg)) < (if cm_ext msg then 2 ^ 29 else 2 ^ 11)"
    using v id by (auto simp: valid_request_def unat_eq_nat_uint split: if_splits)
  moreover have "unat (fr_dlc (frame_of msg)) \<le> 8"
    using v dlc by (auto simp: valid_request_def unat_eq_nat_uint)
  moreover have "fr_flags (frame_of msg) \<le> 3"
    by (simp add: frame_of_def CAN_FRAME_IDE_def CAN_FRAME_RTR_def)
  moreover have "fr_data (frame_of msg) ! i = 0"
    if "i < 8" "unat (fr_dlc (frame_of msg)) \<le> i \<or> cm_rtr msg" for i
  proof -
    have "cm_data_len msg \<le> i"
      using v d dlc that by (cases "has_field flds CAN_JSON_DATA")
        (auto simp: valid_request_def unat_eq_nat_uint split: if_splits)
    then show ?thesis using that by (simp add: frame_of_def CAN_MAX_DLC_def)
  qed
  ultimately show "frame_ok (frame_of msg)"
    using fl by (simp add: frame_ok_def) (simp add: frame_of_def CAN_MAX_DLC_def)
qed

lemma frame_of_data:
  assumes "valid_request msg flds" "length (cm_data msg) = CAN_MAX_DLC" "cm_data_len msg \<le> CAN_MAX_DLC"
  shows "map uint (take (cm_data_len msg) (fr_data (frame_of msg))) = take (cm_data_len msg) (cm_data msg)"
proof (rule nth_equalityI)
  fix i assume "i < length (map uint (take (cm_data_len msg) (fr_data (frame_of msg))))"
  then have i: "i < cm_data_len msg" by simp
  then have "0 \<le> cm_data msg ! i \<and> cm_data msg ! i \<le> 255"
    using assms by (force simp: valid_request_def list_all_iff in_set_conv_nth)
  then have "uint (word_of_int (cm_data msg ! i) :: u8) = cm_data msg ! i"
    by (simp add: uint_word_of_int)
  then show "map uint (take (cm_data_len msg) (fr_data (frame_of msg))) ! i =
      take (cm_data_len msg) (cm_data msg) ! i"
    using i assms(2,3) by (simp add: frame_of_def)
qed (use assms(2,3) in \<open>simp add: frame_of_def\<close>)

section \<open>Mode names\<close>

lemma can_mode_from_name_ok:
  "can_mode_from_name name mode = (0, m) \<Longrightarrow>
    m \<in> {CAN_MODE_NORMAL, CAN_MODE_LOOPBACK, CAN_MODE_LISTENONLY} \<and>
    (name \<noteq> None \<longrightarrow> name = Some (can_mode_name m))"
  by (auto simp: can_mode_from_name_def can_mode_name_def CAN_MODE_NORMAL_def CAN_MODE_LOOPBACK_def
      CAN_MODE_LISTENONLY_def split: if_splits)

section \<open>A reference parser\<close>

text \<open>
  A parser that meets the contract, made of \<open>json_read\<close>: known members are stored when their type
  fits and their value is in range, unknown ones are skipped, and anything else is \<open>-EINVAL\<close>.
\<close>

definition int_items :: "json list \<Rightarrow> int list" where
  "int_items vs = map (\<lambda>v. case v of JInt i \<Rightarrow> i | _ \<Rightarrow> 2 ^ 31) vs"

definition set_field :: "int \<times> can_json_message \<Rightarrow> string \<times> json \<Rightarrow> int \<times> can_json_message" where
  "set_field st kv =
     (let (flds, m) = st; (k, v) = kv;
          bad = (err EINVAL, m);
          number = (\<lambda>f upd. case v of JInt i \<Rightarrow> if is_int32 i then (flds OR BIT f, upd i) else bad | _ \<Rightarrow> bad);
          truth = (\<lambda>f upd. case v of JBool b \<Rightarrow> (flds OR BIT f, upd b) | _ \<Rightarrow> bad);
          words = (\<lambda>f upd. case v of JStr s \<Rightarrow> (flds OR BIT f, upd s) | _ \<Rightarrow> bad)
      in if flds < 0 then st
         else if k = ''type'' then words CAN_JSON_TYPE (\<lambda>s. m\<lparr>cm_type := Some s\<rparr>)
         else if k = ''bus'' then number CAN_JSON_BUS (\<lambda>i. m\<lparr>cm_bus := i\<rparr>)
         else if k = ''id'' then number CAN_JSON_ID (\<lambda>i. m\<lparr>cm_id := i\<rparr>)
         else if k = ''ext'' then truth CAN_JSON_EXT (\<lambda>b. m\<lparr>cm_ext := b\<rparr>)
         else if k = ''rtr'' then truth CAN_JSON_RTR (\<lambda>b. m\<lparr>cm_rtr := b\<rparr>)
         else if k = ''dlc'' then number CAN_JSON_DLC (\<lambda>i. m\<lparr>cm_dlc := i\<rparr>)
         else if k = ''bitrate'' then number CAN_JSON_BITRATE (\<lambda>i. m\<lparr>cm_bitrate := i\<rparr>)
         else if k = ''mode'' then words CAN_JSON_MODE (\<lambda>s. m\<lparr>cm_mode := Some s\<rparr>)
         else if k = ''data'' then
           (case v of JArr vs \<Rightarrow>
              if length vs \<le> CAN_MAX_DLC \<and> list_all is_int32 (int_items vs)
              then (flds OR BIT CAN_JSON_DATA,
                    m\<lparr>cm_data := int_items vs @ replicate (CAN_MAX_DLC - length vs) 0,
                      cm_data_len := length vs\<rparr>)
              else bad
            | _ \<Rightarrow> bad)
         else st)"

definition ref_parse :: json_parse where
  "ref_parse s m = (case json_read s of
     Some (JObj kvs) \<Rightarrow> foldl set_field (0, m) kvs
   | _ \<Rightarrow> (err EINVAL, m))"

definition parsed_ok :: "int \<times> can_json_message \<Rightarrow> bool" where
  "parsed_ok st \<longleftrightarrow> (case st of (flds, m) \<Rightarrow>
     if flds < 0 then is_int32 flds
     else (has_field flds CAN_JSON_TYPE \<longrightarrow> cm_type m \<noteq> None) \<and>
      (\<not> has_field flds CAN_JSON_DATA \<longrightarrow> cm_data_len m = 0) \<and>
      cm_data_len m \<le> CAN_MAX_DLC \<and> length (cm_data m) = CAN_MAX_DLC \<and>
      is_int32 (cm_bus m) \<and> is_int32 (cm_id m) \<and> is_int32 (cm_dlc m) \<and> is_int32 (cm_bitrate m) \<and>
      list_all is_int32 (cm_data m))"

lemma has_field_OR [simp]: "has_field (flds OR BIT f) g \<longleftrightarrow> has_field flds g \<or> f = g"
  by (cases f; cases g) (simp_all add: has_field_bit BIT_def bit_or_iff bit_exp_iff)

lemma BIT_sign [simp]: "\<not> BIT f < 0" "0 \<le> BIT f"
  by (simp_all add: BIT_def)

lemma length_int_items [simp]: "length (int_items vs) = length vs"
  by (simp add: int_items_def)

lemma list_all_int32_zeros [simp]: "list_all is_int32 (replicate n 0)"
  by (simp add: list_all_iff)

lemma set_field_ok: "parsed_ok st \<Longrightarrow> parsed_ok (set_field st kv)"
proof -
  assume ok: "parsed_ok st"
  obtain flds m k v where st: "st = (flds, m)" "kv = (k, v)" by (metis prod.exhaust)
  define P where "P = parsed_ok"
  have bad: "P (err EINVAL, m)" by (simp add: P_def parsed_ok_def)
  show ?thesis
  proof (cases "flds < 0")
    case True
    then show ?thesis using ok st by (simp add: set_field_def)
  next
    case False
    have same: "P (flds, m)" using ok st by (simp add: P_def)
    have upd: "is_int32 i \<Longrightarrow> P (flds OR BIT CAN_JSON_BUS, m\<lparr>cm_bus := i\<rparr>)"
      "is_int32 i \<Longrightarrow> P (flds OR BIT CAN_JSON_ID, m\<lparr>cm_id := i\<rparr>)"
      "is_int32 i \<Longrightarrow> P (flds OR BIT CAN_JSON_DLC, m\<lparr>cm_dlc := i\<rparr>)"
      "is_int32 i \<Longrightarrow> P (flds OR BIT CAN_JSON_BITRATE, m\<lparr>cm_bitrate := i\<rparr>)"
      "P (flds OR BIT CAN_JSON_EXT, m\<lparr>cm_ext := b\<rparr>)" "P (flds OR BIT CAN_JSON_RTR, m\<lparr>cm_rtr := b\<rparr>)"
      "P (flds OR BIT CAN_JSON_TYPE, m\<lparr>cm_type := Some s\<rparr>)"
      "P (flds OR BIT CAN_JSON_MODE, m\<lparr>cm_mode := Some s\<rparr>)" for i b s
      using ok False unfolding P_def st parsed_ok_def by simp_all
    have data: "P (flds OR BIT CAN_JSON_DATA, m\<lparr>cm_data := int_items vs @ replicate (CAN_MAX_DLC - length vs) 0,
        cm_data_len := length vs\<rparr>)"
      if "length vs \<le> CAN_MAX_DLC" "list_all is_int32 (int_items vs)" for vs
      using ok False that unfolding P_def st parsed_ok_def
      by simp
    have "P (set_field (flds, m) (k, v))"
      unfolding set_field_def Let_def prod.case using False
      by (cases v) (simp_all add: bad same upd data)
    then show ?thesis by (simp add: st P_def)
  qed
qed

lemma ref_parse_ok: "parsed_ok (ref_parse s can_json_message_zero)"
proof -
  have "parsed_ok (foldl set_field st kvs)" if "parsed_ok st" for st kvs
    using that by (induction kvs arbitrary: st) (simp_all add: set_field_ok)
  moreover have "parsed_ok (0, can_json_message_zero)"
    by (simp add: parsed_ok_def can_json_message_zero_def has_field_def list_all_iff)
  moreover have "parsed_ok (err EINVAL, m)" for m
    by (simp add: parsed_ok_def)
  ultimately show ?thesis
    by (simp add: ref_parse_def split: option.split json.split)
qed

interpretation ref_json: json_parser ref_parse
proof unfold_locales
  fix s flds m assume "ref_parse s can_json_message_zero = (flds, m)"
  with ref_parse_ok [of s] have "parsed_ok (flds, m)" by simp
  then show "0 \<le> flds \<Longrightarrow>
      (has_field flds CAN_JSON_TYPE \<longrightarrow> cm_type m \<noteq> None) \<and>
      (\<not> has_field flds CAN_JSON_DATA \<longrightarrow> cm_data_len m = 0) \<and>
      cm_data_len m \<le> CAN_MAX_DLC \<and> length (cm_data m) = CAN_MAX_DLC \<and>
      is_int32 (cm_bus m) \<and> is_int32 (cm_id m) \<and> is_int32 (cm_dlc m) \<and> is_int32 (cm_bitrate m) \<and>
      list_all is_int32 (cm_data m)"
    and "flds < 0 \<Longrightarrow> is_int32 flds"
    by (simp_all add: parsed_ok_def)
qed

section \<open>Property\<close>

text \<open>
  C6: for a request the parser accepts, \<open>validate_can_json\<close> returns 0 exactly when the request keeps the field
  rules of the protocol, and then the frame built from it carries the request's identifier, length, flags
  and data, and is one a classical CAN controller can send.
\<close>

theorem validation_exact:
  assumes "json_parser parse" and "parse s can_json_message_zero = (flds, msg)" and "0 \<le> flds"
  shows "(fst (validate_can_json msg flds n response) = 0 \<longleftrightarrow> valid_request msg flds) \<and>
    (valid_request msg flds \<longrightarrow> frame_ok (frame_of msg) \<and>
      uint (fr_id (frame_of msg)) = cm_id msg \<and> uint (fr_dlc (frame_of msg)) = cm_dlc msg \<and>
      bit (fr_flags (frame_of msg)) 0 = cm_ext msg \<and> bit (fr_flags (frame_of msg)) 1 = cm_rtr msg \<and>
      map uint (take (cm_data_len msg) (fr_data (frame_of msg))) = take (cm_data_len msg) (cm_data msg))"
proof -
  have d: "length (cm_data msg) = CAN_MAX_DLC" "cm_data_len msg \<le> CAN_MAX_DLC"
    "\<not> has_field flds CAN_JSON_DATA \<Longrightarrow> cm_data_len msg = 0"
    using json_parser.parse_ok [OF assms] by simp_all
  show ?thesis
    using validate_can_json_ok [OF d(1,2)] frame_of_ok [OF _ d(3)] frame_of_data [OF _ d(1,2)] by blast
qed

theorem validation_exact_witness:
  \<open>let s = ''{"bus":0,"id":2047,"dlc":1,"data":[255]}''; (flds, msg) = ref_parse s can_json_message_zero
   in valid_request msg flds \<and> fst (validate_can_json msg flds 512 []) = 0 \<and> frame_ok (frame_of msg)\<close>
proof -
  let ?s = \<open>''{"bus":0,"id":2047,"dlc":1,"data":[255]}''\<close>
  obtain flds msg where p: "ref_parse ?s can_json_message_zero = (flds, msg)" by force
  have "(case ref_parse ?s can_json_message_zero of (flds, msg) \<Rightarrow> 0 \<le> flds \<and> valid_request msg flds)"
    by code_simp
  then have v: "0 \<le> flds" "valid_request msg flds" by (simp_all add: p)
  show ?thesis
    using validation_exact [OF ref_json.json_parser_axioms p v(1), of 512 "[]"] v(2) by (simp add: p)
qed

end
