(* ===== verification/CanBridge.thy ===== *)
theory CanBridge
  imports CanMessages
begin

text \<open>
  \<open>can_bridge.c\<close>: the state of the CAN bridge and its operations. The static variables are the record
  \<open>can_bridge\<close>; the two message queues are objects of a type \<open>'q\<close> used through the calls \<open>Q\<close>, and
  \<open>parse\<close> is \<open>json_obj_parse\<close> on the descriptor table. An operation runs to its end as one step: the
  other contexts (the receive interrupt, the transmit thread, the WebSocket thread) touch the same
  variables only through single calls on the queues and the atomic flags, and the driver only under
  \<open>can_lock\<close>, but for \<open>can_bridge_init\<close>, which comes first and takes no lock: before it nobody calls the driver, as
  the section on the life of the bridge proves.
\<close>

section \<open>State\<close>

definition CONFIG_CAN_DEFAULT_BITRATE :: u32 where "CONFIG_CAN_DEFAULT_BITRATE = 500000"
definition CAN_WS_JSON_MAX :: nat where [fw_defs]: "CAN_WS_JSON_MAX = 256"
definition CAN_QUEUE_LEN :: nat where [fw_defs]: "CAN_QUEUE_LEN = 8"

record 'q can_bridge =
  can_ready :: bool
  current_bitrate :: u32
  current_mode :: u32
  can_tx_queue :: 'q
  can_rx_queue :: 'q
  can_rx_filter_id :: int
  can_rx_streaming :: bool

definition bridge_boot :: "'q \<Rightarrow> 'q can_bridge" where
  "bridge_boot q = \<lparr>can_ready = False, current_bitrate = CONFIG_CAN_DEFAULT_BITRATE,
     current_mode = CAN_MODE_NORMAL, can_tx_queue = q, can_rx_queue = q,
     can_rx_filter_id = -1, can_rx_streaming = False\<rparr>"

section \<open>Start-up\<close>

definition can_bridge_init :: "env \<Rightarrow> 'q can_bridge \<Rightarrow> hist \<Rightarrow> int \<times> 'q can_bridge \<times> hist" where
  "can_bridge_init E b h =
     (if \<not> env_can_ready E h then (err ENODEV, b, h)
      else let ret = env_can_set_mode E h (current_mode b);
               h1 = h @ [Can_set_mode (current_mode b) ret]
      in if ret < 0 then (ret, b, h1)
      else let ret2 = env_can_start E h1;
               h2 = h1 @ [Can_start ret2]
      in if ret2 < 0 \<and> ret2 \<noteq> err EALREADY then (ret2, b, h2)
      else let filter_id = env_can_add_rx_filter E h2;
               h3 = h2 @ [Can_add_rx_filter filter_id];
               b1 = b\<lparr>can_rx_filter_id := filter_id\<rparr>
      in if filter_id < 0 then (filter_id, b1, h3)
         else (0, b1\<lparr>can_ready := True\<rparr>, h3 @ [K_thread_create Can_tx_thread]))"

section \<open>Status\<close>

definition status_text ::
  "bool \<Rightarrow> can_state \<Rightarrow> u32 \<Rightarrow> u32 \<Rightarrow> u8 \<Rightarrow> u8 \<Rightarrow> nat \<Rightarrow> nat \<Rightarrow> nat \<Rightarrow> nat \<Rightarrow> string" where
  \<open>status_text ready state bitrate mode tx_err rx_err tx_used tx_free rx_used rx_free =
     ''{"type":"can.status","ok":true,"bus":0,'' @
     ''"ready":'' @ bool_text ready @ '',"state":"'' @ can_state_name state @
     ''","bitrate":'' @ dec (unat bitrate) @ '','' @
     ''"mode":"'' @ can_mode_name mode @ ''","txErr":'' @ dec (unat tx_err) @
     '',"rxErr":'' @ dec (unat rx_err) @ '','' @
     ''"txQueueUsed":'' @ dec tx_used @ '',"txQueueFree":'' @ dec tx_free @ '','' @
     ''"rxQueueUsed":'' @ dec rx_used @ '',"rxQueueFree":'' @ dec rx_free @ ''}''\<close>

definition can_bridge_format_status ::
  "'q msgq_api \<Rightarrow> env \<Rightarrow> 'q can_bridge \<Rightarrow> nat \<Rightarrow> hist \<Rightarrow> (int \<times> string) \<times> hist" where
  "can_bridge_format_status Q E b response_len h =
     (let h1 = h @ [K_mutex_lock Can_lock];
          (ret, state, tx_err, rx_err) = env_can_get_state E h1;
          h2 = h1 @ [Can_get_state ret, K_mutex_unlock Can_lock]
      in if ret < 0 then
           (ws_reply response_len ''can_status_failed'' ''Could not read CAN controller status'' ret, h2)
         else
           (snprintk response_len
              (status_text (can_ready b) state (current_bitrate b) (current_mode b) tx_err rx_err
                 (mq_used Q (can_tx_queue b)) (mq_free Q (can_tx_queue b))
                 (mq_used Q (can_rx_queue b)) (mq_free Q (can_rx_queue b))),
            h2))"

section \<open>Receiving\<close>

definition can_rx_callback :: "'q msgq_api \<Rightarrow> can_frame \<Rightarrow> 'q can_bridge \<Rightarrow> 'q can_bridge" where
  "can_rx_callback Q frame b =
     (if \<not> can_rx_streaming b then b
      else b\<lparr>can_rx_queue := snd (mq_put Q frame (can_rx_queue b))\<rparr>)"

definition can_bridge_set_rx_streaming :: "'q msgq_api \<Rightarrow> bool \<Rightarrow> 'q can_bridge \<Rightarrow> 'q can_bridge" where
  "can_bridge_set_rx_streaming Q enabled b =
     (if enabled then
        (let b1 = b\<lparr>can_rx_queue := mq_purge Q (can_rx_queue b)\<rparr> in b1\<lparr>can_rx_streaming := True\<rparr>)
      else
        (let b1 = b\<lparr>can_rx_streaming := False\<rparr> in b1\<lparr>can_rx_queue := mq_purge Q (can_rx_queue b1)\<rparr>))"

definition can_bridge_format_next_rx ::
  "'q msgq_api \<Rightarrow> env \<Rightarrow> 'q can_bridge \<Rightarrow> nat \<Rightarrow> string \<Rightarrow> hist \<Rightarrow>
     (int \<times> string) \<times> 'q can_bridge \<times> hist" where
  "can_bridge_format_next_rx Q E b response_len response h =
     (case mq_get Q (can_rx_queue b) of
        None \<Rightarrow> ((err EAGAIN, response), b, h)
      | Some (frame, q) \<Rightarrow>
          let ts = env_uptime_us E h in
          (fmt_frame response_len (rx_head frame) (rx_items frame) (rx_tail ts),
           b\<lparr>can_rx_queue := q\<rparr>, h @ [K_uptime ts]))"

section \<open>Transmitting\<close>

text \<open>One turn of the transmit thread's loop; \<open>None\<close> while it waits for a frame.\<close>

definition can_tx_turn :: "'q msgq_api \<Rightarrow> env \<Rightarrow> 'q can_bridge \<Rightarrow> hist \<Rightarrow> ('q can_bridge \<times> hist) option" where
  "can_tx_turn Q E b h =
     (case mq_get Q (can_tx_queue b) of
        None \<Rightarrow> None
      | Some (frame, q) \<Rightarrow>
          let h1 = h @ [K_mutex_lock Can_lock];
              ret = env_can_send E h1 frame
          in Some (b\<lparr>can_tx_queue := q\<rparr>, h1 @ [Can_send frame ret, K_mutex_unlock Can_lock]))"

section \<open>Configuration\<close>

text \<open>The four driver calls up to the label \<open>out\<close>: the last result, and whether all went through.\<close>

definition apply_config :: "env \<Rightarrow> u32 \<Rightarrow> u32 \<Rightarrow> hist \<Rightarrow> int \<times> bool \<times> hist" where
  "apply_config E mode bitrate h =
     (let ret = env_can_stop E h; h1 = h @ [Can_stop ret] in
      if ret < 0 \<and> ret \<noteq> err EALREADY then (ret, False, h1)
      else let ret = env_can_set_mode E h1 mode; h2 = h1 @ [Can_set_mode mode ret] in
      if ret < 0 then (ret, False, h2)
      else let ret = env_can_set_bitrate E h2 bitrate; h3 = h2 @ [Can_set_bitrate bitrate ret] in
      if ret < 0 then (ret, False, h3)
      else let ret = env_can_start E h3; h4 = h3 @ [Can_start ret] in
      if ret < 0 \<and> ret \<noteq> err EALREADY then (ret, False, h4)
      else (ret, True, h4))"

text \<open>The settings a request asks for; a mode that is not known gives its error.\<close>

definition requested_bitrate :: "can_json_message \<Rightarrow> int \<Rightarrow> 'q can_bridge \<Rightarrow> u32" where
  "requested_bitrate msg flds b =
     (if has_field flds CAN_JSON_BITRATE then word_of_int (cm_bitrate msg) else current_bitrate b)"

definition requested_mode :: "can_json_message \<Rightarrow> int \<Rightarrow> 'q can_bridge \<Rightarrow> int \<times> u32" where
  "requested_mode msg flds b =
     (if has_field flds CAN_JSON_MODE then can_mode_from_name (cm_mode msg) (current_mode b)
      else (0, current_mode b))"

text \<open>From \<open>atomic_clear(&can_ready)\<close> to the end.\<close>

definition config_commit ::
  "'q msgq_api \<Rightarrow> env \<Rightarrow> u32 \<Rightarrow> u32 \<Rightarrow> 'q can_bridge \<Rightarrow> nat \<Rightarrow> hist \<Rightarrow>
     (int \<times> string) \<times> 'q can_bridge \<times> hist" where
  "config_commit Q E mode bitrate b response_len h =
     (let b1 = b\<lparr>can_ready := False\<rparr>;
          (ret, applied, h1) = apply_config E mode bitrate (h @ [K_mutex_lock Can_lock]);
          b2 = (if applied then b1\<lparr>current_mode := mode, current_bitrate := bitrate, can_ready := True\<rparr>
                else b1);
          h2 = h1 @ [K_mutex_unlock Can_lock]
      in if ret < 0 then
           (let h3 = h2 @ [K_mutex_lock Can_lock];
                ret2 = env_can_start E h3;
                b3 = (if ret2 = 0 \<or> ret2 = err EALREADY then b2\<lparr>can_ready := True\<rparr> else b2)
            in (ws_reply response_len ''can_config_failed'' ''Could not apply CAN configuration'' ret,
                b3, h3 @ [Can_start ret2, K_mutex_unlock Can_lock]))
         else
           (let (reply, h3) = can_bridge_format_status Q E b2 response_len h2 in (reply, b2, h3)))"

definition handle_can_config_set ::
  "'q msgq_api \<Rightarrow> env \<Rightarrow> can_json_message \<Rightarrow> int \<Rightarrow> 'q can_bridge \<Rightarrow> nat \<Rightarrow> hist \<Rightarrow>
     (int \<times> string) \<times> 'q can_bridge \<times> hist" where
  "handle_can_config_set Q E msg flds b response_len h =
     (let (ret, mode) = requested_mode msg flds b in
      if has_field flds CAN_JSON_BITRATE \<and> cm_bitrate msg \<le> 0 then
        (ws_reply response_len ''invalid_bitrate'' ''CAN bitrate must be positive'' (err EINVAL), b, h)
      else if ret < 0 then
        (ws_reply response_len ''invalid_mode''
           ''CAN mode must be normal, loopback or listen-only'' ret, b, h)
      else config_commit Q E mode (requested_bitrate msg flds b) b response_len h)"

section \<open>Requests\<close>

definition handle_can_tx ::
  "'q msgq_api \<Rightarrow> env \<Rightarrow> can_json_message \<Rightarrow> int \<Rightarrow> 'q can_bridge \<Rightarrow> nat \<Rightarrow> string \<Rightarrow> hist \<Rightarrow>
     (int \<times> string) \<times> 'q can_bridge \<times> hist" where
  "handle_can_tx Q E msg flds b response_len response h =
     (let (ret, response1) = validate_can_json msg flds response_len response in
      if ret \<noteq> 0 then ((ret, response1), b, h)
      else let (ret, q) = mq_put Q (frame_of msg) (can_tx_queue b);
               b1 = b\<lparr>can_tx_queue := q\<rparr>
           in if ret < 0 then
                ((ret, snd (ws_reply response_len ''can_tx_failed'' ''CAN TX software queue is full'' ret)), b1, h)
              else let (reply, h1) = format_can_tx_response E msg response_len h in (reply, b1, h1))"

definition can_bridge_handle_ws_text ::
  "'q msgq_api \<Rightarrow> env \<Rightarrow> json_parse \<Rightarrow> 'q can_bridge \<Rightarrow> u8 list \<Rightarrow> nat \<Rightarrow> string \<Rightarrow> hist \<Rightarrow>
     (int \<times> string) \<times> 'q can_bridge \<times> hist" where
  "can_bridge_handle_ws_text Q E parse b payload response_len response h =
     (if \<not> can_ready b then
        (ws_reply response_len ''can_not_ready'' ''CAN controller is not ready'' (err ENODEV), b, h)
      else if CAN_WS_JSON_MAX \<le> length payload then
        (ws_reply response_len ''payload_too_large'' ''WebSocket JSON payload is too large'' (err EMSGSIZE), b, h)
      else let (flds, msg) = parse (to_chars payload) can_json_message_zero in
      if flds < 0 then
        (ws_reply response_len ''invalid_json'' ''Could not parse CAN JSON payload'' flds, b, h)
      else if has_field flds CAN_JSON_TYPE \<and>
              (cm_type msg = Some ''can.status'' \<or> cm_type msg = Some ''can.config.get'') then
        (let (reply, h1) = can_bridge_format_status Q E b response_len h in (reply, b, h1))
      else if has_field flds CAN_JSON_TYPE \<and> cm_type msg = Some ''can.config.set'' then
        handle_can_config_set Q E msg flds b response_len h
      else if has_field flds CAN_JSON_TYPE \<and> cm_type msg \<noteq> Some ''can.tx'' then
        (ws_reply response_len ''unsupported_type'' ''Unsupported WebSocket message type'' (err ENOTSUP), b, h)
      else handle_can_tx Q E msg flds b response_len response h)"

section \<open>The documents of the replies\<close>

definition status_doc ::
  "bool \<Rightarrow> can_state \<Rightarrow> u32 \<Rightarrow> u32 \<Rightarrow> u8 \<Rightarrow> u8 \<Rightarrow> nat \<Rightarrow> nat \<Rightarrow> nat \<Rightarrow> nat \<Rightarrow> json" where
  "status_doc ready state bitrate mode tx_err rx_err tx_used tx_free rx_used rx_free =
     JObj [(''type'', JStr ''can.status''), (''ok'', JBool True), (''bus'', JInt 0), (''ready'', JBool ready),
       (''state'', JStr (can_state_name state)), (''bitrate'', JInt (uint bitrate)),
       (''mode'', JStr (can_mode_name mode)), (''txErr'', JInt (uint tx_err)), (''rxErr'', JInt (uint rx_err)),
       (''txQueueUsed'', JInt (int tx_used)), (''txQueueFree'', JInt (int tx_free)),
       (''rxQueueUsed'', JInt (int rx_used)), (''rxQueueFree'', JInt (int rx_free))]"

lemma dec_int_of_nat [simp]: "dec_int (int n) = dec n"
  by (simp add: dec_int_def)

lemma status_text_doc:
  "status_text ready state bitrate mode tx_err rx_err tx_used tx_free rx_used rx_free =
     json_text (status_doc ready state bitrate mode tx_err rx_err tx_used tx_free rx_used rx_free)"
  by (simp add: status_text_def status_doc_def str_text_def bool_text_def dec_int_0)

lemma can_state_name_length: "length (can_state_name st) \<le> 13"
  by (cases st) simp_all

lemma can_mode_name_length: "length (can_mode_name m) \<le> 11"
  by (simp add: can_mode_name_def)

lemma names_plain [simp]: "list_all plain_char (can_state_name st)" "list_all plain_char (can_mode_name m)"
  by (cases st; simp add: plain_char_def) (simp add: can_mode_name_def plain_char_def)

lemma status_text_length:
  assumes "a \<le> 8" "b \<le> 8" "c \<le> 8" "d \<le> 8"
  shows "length (status_text ready state bitrate mode tx_err rx_err a b c d) < 512"
proof -
  have "length (dec x) \<le> 1" if "x \<le> 8" for x
    using that dec_length [of x 1] by simp
  note this [OF assms(1)] this [OF assms(2)] this [OF assms(3)] this [OF assms(4)]
  then show ?thesis
    using can_state_name_length [of state] can_mode_name_length [of mode]
      dec_word_length(1) [of tx_err] dec_word_length(2) [of bitrate] dec_word_length(1) [of rx_err] bool_text_length [of ready]
    by (simp add: status_text_def)
qed

text \<open>No handler writes more than the response buffer holds.\<close>

lemma format_status_length:
  "0 < n \<Longrightarrow> can_bridge_format_status Q E b n h = ((r, resp), h') \<Longrightarrow> length resp < n"
  using ws_reply_length [of n] snprintk_length [of n]
  by (auto simp: can_bridge_format_status_def Let_def split: prod.splits if_splits) (metis snd_conv)+

lemma config_commit_length:
  "0 < n \<Longrightarrow> config_commit Q E mode br b n h = ((r, resp), b', h') \<Longrightarrow> length resp < n"
  using ws_reply_length [of n] format_status_length [of n Q E]
  by (auto simp: config_commit_def Let_def split: prod.splits if_splits) (metis snd_conv)+

lemma next_rx_length:
  "can_bridge_format_next_rx Q E b n resp0 h = ((r, resp), b', h') \<Longrightarrow> length resp0 < n \<Longrightarrow> length resp < n"
  using fmt_frame_length [of n]
  by (auto simp: can_bridge_format_next_rx_def Let_def split: option.splits prod.splits)
    (metis gr_zeroI less_zeroE snd_conv)

lemma handle_ws_text_length:
  assumes "can_bridge_handle_ws_text Q E parse b payload n resp0 h = ((r, resp), b', h')"
    and n: "length resp0 < n"
  shows "length resp < n"
proof -
  define P where "P v \<longleftrightarrow> length (snd (fst v)) < n" for v :: "(int \<times> string) \<times> 'a can_bridge \<times> hist"
  have "0 < n" using n by simp
  then have reply: "P (ws_reply n code message e, x)" for code message e x
    by (simp add: P_def ws_reply_length)
  have st: "P (case can_bridge_format_status Q E b n h of (reply, h1) \<Rightarrow> (reply, b, h1))"
    using format_status_length [OF \<open>0 < n\<close>, of Q E b h] by (auto simp: P_def split: prod.splits)
  have "P (config_commit Q E mode br b n h)" for mode br
    using config_commit_length [OF \<open>0 < n\<close>, of Q E mode br b h]
    by (cases "config_commit Q E mode br b n h") (auto simp: P_def)
  then have cf: "P (handle_can_config_set Q E msg flds b n h)" for msg flds
    using reply by (simp add: handle_can_config_set_def split: prod.splits)
  have tx: "P (handle_can_tx Q E msg flds b n resp0 h)" for msg flds
    using validate_can_json_length [OF n, of msg flds] ws_reply_length [OF \<open>0 < n\<close>]
      fmt_frame_length [OF \<open>0 < n\<close>]
    by (auto simp: P_def handle_can_tx_def format_can_tx_response_def Let_def split: prod.splits)
  have "P (can_bridge_handle_ws_text Q E parse b payload n resp0 h)"
    unfolding can_bridge_handle_ws_text_def Let_def by (simp add: reply st cf tx split: prod.splits)
  then show ?thesis using assms(1) by (simp add: P_def)
qed

text \<open>A reply that is the whole text of a document, whose \<open>type\<close> and \<open>ok\<close> say what happened.\<close>

definition error_reply :: "string \<Rightarrow> bool" where
  "error_reply text \<longleftrightarrow> (\<exists>code message e. text = json_text (error_doc code message e) \<and>
     json_plain (error_doc code message e))"

definition status_reply :: "string \<Rightarrow> bool" where
  "status_reply text \<longleftrightarrow> (\<exists>ready st br mode te re a b c d.
     text = json_text (status_doc ready st br mode te re a b c d))"

lemma status_replyI: "status_reply (json_text (status_doc ready st br mode te re a b c d))"
  unfolding status_reply_def by blast

lemma status_doc_plain [simp]: "json_plain (status_doc ready st br mode te re a b c d)"
  by (simp add: status_doc_def) (simp add: plain_char_def)

lemma rx_doc_plain [simp]: "json_plain (rx_doc f ts)" and tx_doc_plain [simp]: "json_plain (tx_doc m ts)"
proof -
  have "elems_plain (map g xs)" if "\<And>x. json_plain (g x)" for g :: "'x \<Rightarrow> json" and xs
    using that by (induction xs) simp_all
  note this [of "\<lambda>b. JInt (uint b)"] this [of JInt]
  then show "json_plain (rx_doc f ts)" "json_plain (tx_doc m ts)"
    by (simp_all add: rx_doc_def tx_doc_def) (simp_all add: plain_char_def)
qed

lemma ws_reply_error:
  assumes "length code + length message \<le> 150" "is_int32 e" "256 \<le> n" "list_all plain_char code"
    "list_all plain_char message"
  shows "error_reply (snd (ws_reply n code message e))"
  using assms unfolding error_reply_def
  by (intro exI [of _ code] exI [of _ message] exI [of _ e])
    (simp add: ws_reply_fits, simp add: error_doc_def plain_char_def)

lemma json_read_reply:
  "error_reply text \<or> status_reply text \<Longrightarrow> \<exists>doc. json_read text = Some doc \<and> text = json_text doc"
  using json_read_text unfolding error_reply_def status_reply_def by (metis status_doc_plain)

lemma validate_can_json_error:
  assumes "256 \<le> n" and "fst (validate_can_json msg flds n response) \<noteq> 0"
  shows "error_reply (snd (validate_can_json msg flds n response))"
proof -
  define P where "P v \<longleftrightarrow> fst v = 0 \<or> error_reply (snd v)" for v :: "int \<times> string"
  have "P (ws_reply n code message (err e))"
    if "length code + length message \<le> 150" "list_all plain_char code" "list_all plain_char message"
      "is_int32 (err e)" for code message e
    using ws_reply_error [OF that(1,4) assms(1) that(2,3)] by (simp add: P_def)
  moreover have "P (0, response)" by (simp add: P_def)
  ultimately have "P (validate_can_json msg flds n response)"
    unfolding validate_can_json_def Let_def by (simp add: plain_char_def)
  then show ?thesis
    using assms(2) by (simp add: P_def)
qed

section \<open>The world of the bridge\<close>

locale can_world =
  message_queue Q contents CAN_QUEUE_LEN + can_driver E + json_parser parse
  for Q :: "'q msgq_api" and contents and E and parse

interpretation board_world: can_world "list_msgq CAN_QUEUE_LEN" "\<lambda>q. q" "board inp" ref_parse for inp
  by unfold_locales

definition queues_bounded :: "('q \<Rightarrow> can_frame list) \<Rightarrow> 'q can_bridge \<Rightarrow> bool" where
  "queues_bounded contents b \<longleftrightarrow>
     length (contents (can_tx_queue b)) \<le> CAN_QUEUE_LEN \<and> length (contents (can_rx_queue b)) \<le> CAN_QUEUE_LEN"

context can_world
begin

text \<open>The status of the bridge as the code reads it.\<close>

lemma format_status_doc:
  assumes "queues_bounded contents b" "512 \<le> n"
    and g: "env_can_get_state E (h @ [K_mutex_lock Can_lock]) = (ret, state, te, re)"
  shows "can_bridge_format_status Q E b n h =
    (if ret < 0 then ws_reply n ''can_status_failed'' ''Could not read CAN controller status'' ret
     else let text = json_text (status_doc (can_ready b) state (current_bitrate b) (current_mode b) te re
        (length (contents (can_tx_queue b))) (CAN_QUEUE_LEN - length (contents (can_tx_queue b)))
        (length (contents (can_rx_queue b))) (CAN_QUEUE_LEN - length (contents (can_rx_queue b))))
      in (int (length text), text),
     h @ [K_mutex_lock Can_lock, Can_get_state ret, K_mutex_unlock Can_lock])"
proof -
  let ?t = "status_text (can_ready b) state (current_bitrate b) (current_mode b) te re
        (length (contents (can_tx_queue b))) (CAN_QUEUE_LEN - length (contents (can_tx_queue b)))
        (length (contents (can_rx_queue b))) (CAN_QUEUE_LEN - length (contents (can_rx_queue b)))"
  have "length ?t < 512"
    using assms(1) by (intro status_text_length) (simp_all add: queues_bounded_def CAN_QUEUE_LEN_def)
  then have "snprintk n ?t = (int (length ?t), ?t)"
    using assms(2) by (simp add: snprintk_def)
  then show ?thesis
    using g by (simp add: can_bridge_format_status_def Let_def used_length free_length status_text_doc)
qed

lemma format_status_reply:
  assumes "queues_bounded contents b" "512 \<le> n"
    and "can_bridge_format_status Q E b n h = ((r, resp), h')"
  shows "error_reply resp \<or> status_reply resp"
proof -
  let ?h1 = "h @ [K_mutex_lock Can_lock]"
  obtain ret state te re where g: "env_can_get_state E ?h1 = (ret, state, te, re)"
    by (metis prod.exhaust)
  have "error_reply (snd (ws_reply n ''can_status_failed'' ''Could not read CAN controller status'' ret))"
    using assms(2) driver_ret(1) [of ?h1] g
    by (intro ws_reply_error) (simp_all add: plain_char_def)
  then show ?thesis
    using format_status_doc [OF assms(1,2) g] assms(3)
    by (auto simp: Let_def status_replyI split: if_splits) (metis snd_conv)
qed

end

section \<open>Requests\<close>

text \<open>
  Which requests queue a frame, by the rules of the protocol: the controller is ready, the payload is
  short enough and parses, its type is \<open>can.tx\<close> or absent, it keeps the field rules, and the queue
  has room.
\<close>

definition ws_request_ok :: "can_json_message \<Rightarrow> int \<Rightarrow> bool" where
  "ws_request_ok msg flds \<longleftrightarrow> 0 \<le> flds \<and>
     (has_field flds CAN_JSON_TYPE \<longrightarrow> cm_type msg = Some ''can.tx'') \<and> valid_request msg flds"

definition ws_accepts ::
  "('q \<Rightarrow> can_frame list) \<Rightarrow> json_parse \<Rightarrow> 'q can_bridge \<Rightarrow> u8 list \<Rightarrow> can_json_message option" where
  "ws_accepts contents parse b payload =
     (let (flds, msg) = parse (to_chars payload) can_json_message_zero in
      if can_ready b \<and> length payload < CAN_WS_JSON_MAX \<and> ws_request_ok msg flds \<and>
         length (contents (can_tx_queue b)) < CAN_QUEUE_LEN
      then Some msg else None)"

fun can_driver_call :: "call \<Rightarrow> bool" where
  "can_driver_call (Can_set_mode _ _) = True"
| "can_driver_call (Can_start _) = True"
| "can_driver_call (Can_stop _) = True"
| "can_driver_call (Can_set_bitrate _ _) = True"
| "can_driver_call (Can_get_state _) = True"
| "can_driver_call (Can_send _ _) = True"
| "can_driver_call (Can_add_rx_filter _) = True"
| "can_driver_call _ = False"

text \<open>The calls that only this component makes.\<close>

definition can_call :: "call \<Rightarrow> bool" where
  "can_call c \<longleftrightarrow> can_driver_call c \<or> c = K_mutex_lock Can_lock \<or> c = K_mutex_unlock Can_lock"

text \<open>The frames handed to the controller.\<close>

fun bus_frame :: "call \<Rightarrow> can_frame list" where
  "bus_frame (Can_send f _) = [f]"
| "bus_frame _ = []"

definition bus_frames :: "hist \<Rightarrow> can_frame list" where
  "bus_frames h = concat (map bus_frame h)"

lemma bus_frames_simps [hist_simps, simp]:
  "bus_frames [] = []"
  "bus_frames (c # h) = bus_frame c @ bus_frames h"
  "bus_frames (h @ h') = bus_frames h @ bus_frames h'"
  by (simp_all add: bus_frames_def)

lemma apply_config_frames: "apply_config E mode br h = (r, a, h') \<Longrightarrow> bus_frames h' = bus_frames h"
  by (auto simp: apply_config_def Let_def split: if_splits)

lemma format_status_frames:
  "can_bridge_format_status Q E b n h = (reply, h') \<Longrightarrow> bus_frames h' = bus_frames h"
  by (auto simp: can_bridge_format_status_def Let_def split: if_splits prod.splits)

text \<open>A change of configuration touches the readiness and the settings only.\<close>

lemma config_commit_frame:
  assumes "config_commit Q E mode br b n h = (reply, b', h')"
  shows "can_tx_queue b' = can_tx_queue b" "can_rx_queue b' = can_rx_queue b"
    "can_rx_filter_id b' = can_rx_filter_id b" "can_rx_streaming b' = can_rx_streaming b"
    "bus_frames h' = bus_frames h"
  using assms
  by (auto simp: config_commit_def Let_def split: if_splits prod.splits
      dest!: apply_config_frames format_status_frames)

lemma config_set_frame:
  assumes "handle_can_config_set Q E msg flds b n h = (reply, b', h')"
  shows "can_tx_queue b' = can_tx_queue b" "can_rx_queue b' = can_rx_queue b"
    "can_rx_filter_id b' = can_rx_filter_id b" "can_rx_streaming b' = can_rx_streaming b"
    "bus_frames h' = bus_frames h"
  using assms
  by (auto simp: handle_can_config_set_def Let_def config_commit_frame split: if_splits prod.splits)

context can_world
begin

lemma apply_config_ret: "apply_config E mode br h = (r, a, h') \<Longrightarrow> is_int32 r"
  using driver_ret by (auto simp: apply_config_def Let_def split: if_splits)

lemma error_ws_reply:
  assumes "(r, resp) = ws_reply n code message e \<or> ws_reply n code message e = (r, resp)"
    "length code + length message \<le> 150" "is_int32 e" "256 \<le> n" "list_all plain_char code"
    "list_all plain_char message"
  shows "error_reply resp"
  using ws_reply_error [OF assms(2-6)] assms(1) by (metis snd_conv)

lemma config_commit_reply:
  assumes b: "queues_bounded contents b" and n: "512 \<le> n"
    and c: "config_commit Q E mode br b n h = ((r, resp), b', h')"
  shows "error_reply resp \<or> status_reply resp"
proof -
  obtain ret a h1 where ac: "apply_config E mode br (h @ [K_mutex_lock Can_lock]) = (ret, a, h1)"
    by (metis prod.exhaust)
  have "error_reply (snd (ws_reply n ''can_config_failed'' ''Could not apply CAN configuration'' ret))"
    using n apply_config_ret [OF ac] by (intro ws_reply_error; simp add: plain_char_def)
  moreover have "queues_bounded contents (b\<lparr>current_mode := m, current_bitrate := v, can_ready := x\<rparr>)"
    "queues_bounded contents (b\<lparr>can_ready := x\<rparr>)" for x m v
    using b by (simp_all add: queues_bounded_def)
  note status = format_status_reply [OF this(1) n] format_status_reply [OF this(2) n]
  ultimately show ?thesis
    using c ac by (auto simp: config_commit_def Let_def split: if_splits prod.splits dest: status)
qed

lemma config_set_reply:
  assumes b: "queues_bounded contents b" and n: "512 \<le> n"
    and c: "handle_can_config_set Q E msg flds b n h = ((r, resp), b', h')"
  shows "error_reply resp \<or> status_reply resp"
proof -
  have e: "error_reply (snd (ws_reply n ''invalid_bitrate'' ''CAN bitrate must be positive'' (err EINVAL)))"
    "error_reply (snd (ws_reply n ''invalid_mode'' ''CAN mode must be normal, loopback or listen-only'' (err EINVAL)))"
    using n by (intro ws_reply_error; simp add: plain_char_def)+
  have "fst (requested_mode msg flds b) < 0 \<Longrightarrow> fst (requested_mode msg flds b) = err EINVAL"
    by (auto simp: requested_mode_def can_mode_from_name_def split: if_splits)
  then show ?thesis
    using c e config_commit_reply [OF b n]
    by (auto simp: handle_can_config_set_def split: if_splits prod.splits)
qed

lemma handle_can_tx_queued:
  assumes "valid_request msg flds" "length (cm_data msg) = CAN_MAX_DLC" "cm_data_len msg \<le> CAN_MAX_DLC"
    and "256 \<le> n" and "length (contents (can_tx_queue b)) < CAN_QUEUE_LEN"
  shows "\<exists>q. handle_can_tx Q E msg flds b n resp0 h =
      ((0, json_text (tx_doc msg (env_uptime_us E h))), b\<lparr>can_tx_queue := q\<rparr>, h @ [K_uptime (env_uptime_us E h)]) \<and>
    contents q = contents (can_tx_queue b) @ [frame_of msg]"
proof -
  have "validate_can_json msg flds n resp0 = (0, resp0)"
    using validate_can_json_ok [OF assms(2,3)] validate_can_json_quiet assms(1)
    by (simp add: prod_eq_iff)
  moreover obtain q where "mq_put Q (frame_of msg) (can_tx_queue b) = (0, q)"
      "contents q = contents (can_tx_queue b) @ [frame_of msg]"
    using put_room [OF assms(5), of "frame_of msg"] by (metis prod.collapse)
  ultimately show ?thesis
    using format_tx_doc [OF assms(1-3) uptime assms(4)] by (auto simp: handle_can_tx_def)
qed

lemma handle_can_tx_refused:
  assumes "\<not> (valid_request msg flds \<and> length (contents (can_tx_queue b)) < CAN_QUEUE_LEN)"
    and "length (cm_data msg) = CAN_MAX_DLC" "cm_data_len msg \<le> CAN_MAX_DLC" "256 \<le> n"
    and "handle_can_tx Q E msg flds b n resp0 h = ((r, resp), b', h')"
  shows "error_reply resp \<and> h' = h \<and> (\<exists>q. b' = b\<lparr>can_tx_queue := q\<rparr> \<and> contents q = contents (can_tx_queue b))"
proof (cases "valid_request msg flds")
  case False
  then have v: "fst (validate_can_json msg flds n resp0) \<noteq> 0"
    using validate_can_json_ok [OF assms(2,3)] by simp
  have "((r, resp), b', h') = (validate_can_json msg flds n resp0, b, h)"
    using assms(5) v by (simp add: handle_can_tx_def split: prod.splits)
  moreover have "b = b\<lparr>can_tx_queue := can_tx_queue b\<rparr>" by simp
  ultimately show ?thesis
    using validate_can_json_error [OF assms(4) v] by (metis Pair_inject snd_conv)
next
  case True
  then have "validate_can_json msg flds n resp0 = (0, resp0)"
    using validate_can_json_ok [OF assms(2,3)] validate_can_json_quiet
    by (simp add: prod_eq_iff)
  moreover obtain e q where p: "mq_put Q (frame_of msg) (can_tx_queue b) = (e, q)" "e < 0"
      "contents q = contents (can_tx_queue b)" "is_int32 e"
    using put_full [of "can_tx_queue b" "frame_of msg"] put_ret_int [of "frame_of msg" "can_tx_queue b"]
      assms(1) True by (metis linorder_not_less prod.collapse)
  moreover have "error_reply (snd (ws_reply n ''can_tx_failed'' ''CAN TX software queue is full'' e))"
    using assms(4) p(4) by (intro ws_reply_error; simp add: plain_char_def)
  ultimately show ?thesis
    using assms(5) by (auto simp: handle_can_tx_def)
qed

text \<open>
  What a text message does to the queue and to the bus, and what it is answered: the acknowledgement
  exactly when a frame is queued, else an error or the status.
\<close>

lemma parse_message:
  assumes "parse s can_json_message_zero = (flds, msg)" "0 \<le> flds"
  shows "length (cm_data msg) = CAN_MAX_DLC" "cm_data_len msg \<le> CAN_MAX_DLC"
    and "\<not> has_field flds CAN_JSON_DATA \<Longrightarrow> cm_data_len msg = 0"
  using parse_ok [OF assms] by simp_all

lemma ws_text_queued:
  assumes "ws_accepts contents parse b payload = Some msg" "256 \<le> n"
  shows "\<exists>q. can_bridge_handle_ws_text Q E parse b payload n resp0 h =
      ((0, json_text (tx_doc msg (env_uptime_us E h))), b\<lparr>can_tx_queue := q\<rparr>, h @ [K_uptime (env_uptime_us E h)]) \<and>
    contents q = contents (can_tx_queue b) @ [frame_of msg]"
proof -
  obtain flds where p: "parse (to_chars payload) can_json_message_zero = (flds, msg)" "0 \<le> flds"
    "can_ready b" "length payload < CAN_WS_JSON_MAX"
    "has_field flds CAN_JSON_TYPE \<longrightarrow> cm_type msg = Some ''can.tx''" "valid_request msg flds"
    "length (contents (can_tx_queue b)) < CAN_QUEUE_LEN"
    using assms(1) by (auto simp: ws_accepts_def ws_request_ok_def split: prod.splits if_splits)
  have "can_bridge_handle_ws_text Q E parse b payload n resp0 h = handle_can_tx Q E msg flds b n resp0 h"
    using p by (auto simp: can_bridge_handle_ws_text_def)
  then show ?thesis
    using handle_can_tx_queued [OF p(6) parse_message(1,2) [OF p(1,2)] assms(2) p(7)] by simp
qed

lemma ws_text_not_queued:
  assumes "ws_accepts contents parse b payload = None" "512 \<le> n" "queues_bounded contents b"
    and t: "can_bridge_handle_ws_text Q E parse b payload n resp0 h = ((r, resp), b', h')"
  shows "error_reply resp \<or> status_reply resp"
    and "contents (can_tx_queue b') = contents (can_tx_queue b)" and "bus_frames h' = bus_frames h"
    and "can_rx_queue b' = can_rx_queue b" and "can_rx_streaming b' = can_rx_streaming b"
    and "can_rx_filter_id b' = can_rx_filter_id b"
proof -
  obtain flds msg where p: "parse (to_chars payload) can_json_message_zero = (flds, msg)"
    by (metis prod.exhaust)
  define P where "P v \<longleftrightarrow> (case v of ((r, resp), b', h') \<Rightarrow>
    (error_reply resp \<or> status_reply resp) \<and> contents (can_tx_queue b') = contents (can_tx_queue b) \<and>
    bus_frames h' = bus_frames h \<and> can_rx_queue b' = can_rx_queue b \<and>
    can_rx_streaming b' = can_rx_streaming b \<and> can_rx_filter_id b' = can_rx_filter_id b)"
    for v :: "(int \<times> string) \<times> 'q can_bridge \<times> hist"
  have n: "256 \<le> n" using assms(2) by simp
  have reply: "P (ws_reply n code message e, b, h)"
    if "length code + length message \<le> 150" "is_int32 e" "list_all plain_char code" "list_all plain_char message"
    for code message e
    using ws_reply_error [OF that(1,2) n that(3,4)] by (auto simp: P_def split: prod.splits)
  have st: "P (let (reply, h1) = can_bridge_format_status Q E b n h in (reply, b, h1))"
    using format_status_reply [OF assms(3,2)] format_status_frames [of Q E b n h]
    by (fastforce simp: P_def split: prod.splits)
  have cf: "P (handle_can_config_set Q E msg flds b n h)"
    using config_set_reply [OF assms(3,2), of msg flds h] config_set_frame [of Q E msg flds b n h]
    by (cases "handle_can_config_set Q E msg flds b n h") (auto simp: P_def)
  have tx: "P (handle_can_tx Q E msg flds b n resp0 h)"
    if "0 \<le> flds" "\<not> (valid_request msg flds \<and> length (contents (can_tx_queue b)) < CAN_QUEUE_LEN)"
    using handle_can_tx_refused [OF that(2) parse_message(1,2) [OF p that(1)] n]
    by (cases "handle_can_tx Q E msg flds b n resp0 h") (fastforce simp: P_def)
  have tx': "P (handle_can_tx Q E msg flds b n resp0 h)"
    if "\<not> flds < 0" "can_ready b" "\<not> CAN_WS_JSON_MAX \<le> length payload"
      "has_field flds CAN_JSON_TYPE \<longrightarrow> cm_type msg = Some ''can.tx''"
    using assms(1) that by (intro tx) (auto simp: ws_accepts_def p ws_request_ok_def split: if_splits)
  have "is_int32 flds" if "flds < 0" using parse_err [OF p that] .
  then have "P (can_bridge_handle_ws_text Q E parse b payload n resp0 h)"
    unfolding can_bridge_handle_ws_text_def p Let_def prod.case
    by (simp add: reply st [unfolded Let_def] cf tx' plain_char_def)
  then show "error_reply resp \<or> status_reply resp"
    and "contents (can_tx_queue b') = contents (can_tx_queue b)" and "bus_frames h' = bus_frames h"
    and "can_rx_queue b' = can_rx_queue b" and "can_rx_streaming b' = can_rx_streaming b"
    and "can_rx_filter_id b' = can_rx_filter_id b"
    by (simp_all add: t P_def)
qed

end

section \<open>Interleavings\<close>

text \<open>
  The four contexts that use the bridge, as a step relation: the WebSocket thread handles a text
  message, switches streaming or fetches a received frame; the interrupt delivers a frame; the
  transmit thread takes a turn; another caller reads the status; other parts of the firmware make
  calls that are not the driver's. An event records what happened: the message accepted, whether a frame
  was stored, the frame fetched.
\<close>

datatype bridge_event =
    Ws_text "can_json_message option" int string
  | Rx_frame can_frame bool
  | Tx_turn
  | Rx_streaming bool
  | Next_rx "can_frame option" int string
  | Status_read int string
  | Other_calls

inductive bridge_step ::
  "'q msgq_api \<Rightarrow> ('q \<Rightarrow> can_frame list) \<Rightarrow> env \<Rightarrow> json_parse \<Rightarrow>
     'q can_bridge \<times> hist \<Rightarrow> bridge_event \<Rightarrow> 'q can_bridge \<times> hist \<Rightarrow> bool"
  for Q :: "'q msgq_api" and contents E parse where
  step_ws: "512 \<le> n \<Longrightarrow> can_bridge_handle_ws_text Q E parse b payload n resp0 h = ((r, resp), b', h') \<Longrightarrow>
    bridge_step Q contents E parse (b, h) (Ws_text (ws_accepts contents parse b payload) r resp) (b', h')"
| step_rx: "frame_wf f \<Longrightarrow> bridge_step Q contents E parse (b, h)
    (Rx_frame f (can_rx_streaming b \<and> fst (mq_put Q f (can_rx_queue b)) = 0)) (can_rx_callback Q f b, h)"
| step_tx: "can_tx_turn Q E b h = Some (b', h') \<Longrightarrow>
    bridge_step Q contents E parse (b, h) Tx_turn (b', h')"
| step_streaming: "bridge_step Q contents E parse (b, h) (Rx_streaming on)
    (can_bridge_set_rx_streaming Q on b, h)"
| step_next: "can_bridge_format_next_rx Q E b n resp0 h = ((r, resp), b', h') \<Longrightarrow>
    bridge_step Q contents E parse (b, h) (Next_rx (map_option fst (mq_get Q (can_rx_queue b))) r resp) (b', h')"
| step_status: "can_bridge_format_status Q E b n h = ((r, resp), h') \<Longrightarrow>
    bridge_step Q contents E parse (b, h) (Status_read r resp) (b, h')"
| step_other: "list_all (\<lambda>c. \<not> can_call c) cs \<Longrightarrow>
    bridge_step Q contents E parse (b, h) Other_calls (b, h @ cs)"

inductive_cases bridge_stepE: "bridge_step Q contents E parse (b, h) ev (b', h')"

lemmas bridge_step_cases [consumes 1, case_names ws rx tx streaming next_rx status other] = bridge_stepE

text \<open>A run starts with \<open>can_bridge_init\<close> on empty queues.\<close>

inductive bridge_run ::
  "'q msgq_api \<Rightarrow> ('q \<Rightarrow> can_frame list) \<Rightarrow> env \<Rightarrow> json_parse \<Rightarrow>
     bridge_event list \<Rightarrow> 'q can_bridge \<Rightarrow> hist \<Rightarrow> bool"
  for Q :: "'q msgq_api" and contents E parse where
  run_init: "contents q = [] \<Longrightarrow> list_all (\<lambda>c. \<not> can_call c) h \<Longrightarrow>
    can_bridge_init E (bridge_boot q) h = (r, b, h') \<Longrightarrow> bridge_run Q contents E parse [] b h'"
| run_step: "bridge_run Q contents E parse tr b h \<Longrightarrow>
    bridge_step Q contents E parse (b, h) ev (b', h') \<Longrightarrow>
    bridge_run Q contents E parse (tr @ [ev]) b' h'"

text \<open>The frames accepted in a run; those stored and those fetched since streaming was last switched.\<close>

fun event_accepted :: "bridge_event \<Rightarrow> can_frame list" where
  "event_accepted (Ws_text (Some msg) _ _) = [frame_of msg]"
| "event_accepted _ = []"

definition accepted :: "bridge_event list \<Rightarrow> can_frame list" where
  "accepted tr = concat (map event_accepted tr)"

fun stored_step :: "can_frame list \<Rightarrow> bridge_event \<Rightarrow> can_frame list" where
  "stored_step fs (Rx_frame f True) = fs @ [f]"
| "stored_step fs (Rx_streaming _) = []"
| "stored_step fs _ = fs"

fun fetched_step :: "can_frame list \<Rightarrow> bridge_event \<Rightarrow> can_frame list" where
  "fetched_step fs (Next_rx (Some f) _ _) = fs @ [f]"
| "fetched_step fs (Rx_streaming _) = []"
| "fetched_step fs _ = fs"

definition stored :: "bridge_event list \<Rightarrow> can_frame list" where
  "stored tr = foldl stored_step [] tr"

definition fetched :: "bridge_event list \<Rightarrow> can_frame list" where
  "fetched tr = foldl fetched_step [] tr"

lemma accepted_simps [simp]: "accepted [] = []" "accepted (tr @ [ev]) = accepted tr @ event_accepted ev"
  by (simp_all add: accepted_def)

lemma stored_simps [simp]: "stored [] = []" "stored (tr @ [ev]) = stored_step (stored tr) ev"
  by (simp_all add: stored_def)

lemma fetched_simps [simp]: "fetched [] = []" "fetched (tr @ [ev]) = fetched_step (fetched tr) ev"
  by (simp_all add: fetched_def)

definition bridge_inv ::
  "('q \<Rightarrow> can_frame list) \<Rightarrow> bridge_event list \<Rightarrow> 'q can_bridge \<Rightarrow> hist \<Rightarrow> bool" where
  "bridge_inv contents tr b h \<longleftrightarrow>
     queues_bounded contents b \<and>
     accepted tr = bus_frames h @ contents (can_tx_queue b) \<and>
     list_all frame_ok (bus_frames h) \<and> list_all frame_ok (contents (can_tx_queue b)) \<and>
     stored tr = fetched tr @ contents (can_rx_queue b) \<and> list_all frame_wf (contents (can_rx_queue b)) \<and>
     (\<not> can_rx_streaming b \<longrightarrow> contents (can_rx_queue b) = []) \<and>
     (can_ready b \<longrightarrow> 0 \<le> can_rx_filter_id b)"

lemma no_driver_call_frames: "list_all (\<lambda>c. \<not> can_call c) cs \<Longrightarrow> bus_frames cs = []"
proof (induction cs)
  case (Cons c cs)
  then show ?case by (cases c) (auto simp: can_call_def)
qed simp

lemma can_bridge_init_result:
  assumes "can_bridge_init E b h = (r, b', h')" "\<not> can_ready b"
  shows "(r = 0 \<longleftrightarrow> can_ready b') \<and> (can_ready b' \<longrightarrow> 0 \<le> can_rx_filter_id b') \<and>
    can_tx_queue b' = can_tx_queue b \<and> can_rx_queue b' = can_rx_queue b \<and>
    can_rx_streaming b' = can_rx_streaming b \<and> bus_frames h' = bus_frames h"
  using assms by (auto simp: can_bridge_init_def Let_def ENODEV_def split: if_splits)

lemma ws_text_not_ready:
  "\<not> can_ready b \<Longrightarrow> can_bridge_handle_ws_text Q E parse b payload n resp0 h =
     (ws_reply n ''can_not_ready'' ''CAN controller is not ready'' (err ENODEV), b, h)"
  by (simp add: can_bridge_handle_ws_text_def)

context can_world
begin

lemma init_inv:
  assumes "contents q = []" "list_all (\<lambda>c. \<not> can_call c) h"
    and "can_bridge_init E (bridge_boot q) h = (r, b, h')"
  shows "bridge_inv contents [] b h'"
  using can_bridge_init_result [OF assms(3)] assms(1) no_driver_call_frames [OF assms(2)]
  by (simp add: bridge_inv_def queues_bounded_def bridge_boot_def)

lemma step_inv:
  assumes "bridge_step Q contents E parse (b, h) ev (b', h')" and i: "bridge_inv contents tr b h"
  shows "bridge_inv contents (tr @ [ev]) b' h'"
  using assms(1)
proof (cases rule: bridge_step_cases)
  case (ws n payload resp0 r resp)
  show ?thesis
  proof (cases "ws_accepts contents parse b payload")
    case None
    have q: "queues_bounded contents b" using i by (simp add: bridge_inv_def)
    note w = ws_text_not_queued [OF None ws(2) q ws(3)]
    have "can_ready b" if "can_ready b'"
      using that ws(3) by (cases "can_ready b") (simp_all add: ws_text_not_ready)
    then show ?thesis
      using i w ws None by (simp add: bridge_inv_def queues_bounded_def)
  next
    case (Some msg)
    obtain q where w: "b' = b\<lparr>can_tx_queue := q\<rparr>" "h' = h @ [K_uptime (env_uptime_us E h)]"
      "contents q = contents (can_tx_queue b) @ [frame_of msg]"
      using ws_text_queued [OF Some, of n resp0 h] ws(2,3) by auto
    obtain flds where p: "parse (to_chars payload) can_json_message_zero = (flds, msg)" "0 \<le> flds"
      "valid_request msg flds" "length (contents (can_tx_queue b)) < CAN_QUEUE_LEN"
      using Some by (auto simp: ws_accepts_def ws_request_ok_def split: prod.splits if_splits)
    have "frame_ok (frame_of msg)"
      using frame_of_ok(1) [OF p(3)] parse_message(3) [OF p(1,2)] by blast
    then show ?thesis
      using i w p(4) ws Some by (simp add: bridge_inv_def queues_bounded_def)
  qed
next
  case (rx f)
  then show ?thesis
    using i rx put_contents [of f "can_rx_queue b"] put_fst [of f "can_rx_queue b"]
    by (auto simp: bridge_inv_def queues_bounded_def can_rx_callback_def)
next
  case tx
  then obtain f q where g: "mq_get Q (can_tx_queue b) = Some (f, q)"
    by (auto simp: can_tx_turn_def split: option.splits)
  then show ?thesis
    using i get_Some [OF g] tx
    by (auto simp: bridge_inv_def queues_bounded_def can_tx_turn_def Let_def)
next
  case (streaming on)
  then show ?thesis
    using i purge_empty
    by (auto simp: bridge_inv_def queues_bounded_def can_bridge_set_rx_streaming_def Let_def)
next
  case (next_rx n resp0 r resp)
  show ?thesis
  proof (cases "mq_get Q (can_rx_queue b)")
    case None
    then show ?thesis using i next_rx by (auto simp: bridge_inv_def can_bridge_format_next_rx_def)
  next
    case (Some fq)
    obtain f q where fq: "fq = (f, q)" by force
    have "contents (can_rx_queue b) = f # contents q" using Some fq get_Some by simp
    then show ?thesis
      using i next_rx Some fq
      by (auto simp: bridge_inv_def queues_bounded_def can_bridge_format_next_rx_def Let_def)
  qed
next
  case (status n r resp)
  then show ?thesis using i format_status_frames [of Q E b n h] status by (simp add: bridge_inv_def)
next
  case (other cs)
  then show ?thesis using i other no_driver_call_frames by (simp add: bridge_inv_def)
qed

lemma run_inv: "bridge_run Q contents E parse tr b h \<Longrightarrow> bridge_inv contents tr b h"
  by (induction rule: bridge_run.induct) (auto intro: init_inv step_inv)

end

section \<open>Locking\<close>

text \<open>
  Replays the calls of a stretch of history: no driver call without the lock, no lock taken twice or
  released when free. The result is whether the lock is held at the end.
\<close>

fun lock_replay :: "bool \<Rightarrow> call list \<Rightarrow> bool option" where
  "lock_replay held [] = Some held"
| "lock_replay held (c # cs) =
     (if c = K_mutex_lock Can_lock then (if held then None else lock_replay True cs)
      else if c = K_mutex_unlock Can_lock then (if held then lock_replay False cs else None)
      else if can_driver_call c \<and> \<not> held then None else lock_replay held cs)"

definition can_locked :: "hist \<Rightarrow> hist \<Rightarrow> bool" where
  "can_locked h h' \<longleftrightarrow> (\<exists>cs. h' = h @ cs \<and> lock_replay False cs = Some False)"

lemma lock_replay_append:
  "lock_replay held (cs @ ds) = Option.bind (lock_replay held cs) (\<lambda>held'. lock_replay held' ds)"
  by (induction cs arbitrary: held) simp_all

lemma can_locked_refl [simp]: "can_locked h h"
  by (simp add: can_locked_def)

lemma can_locked_append: "lock_replay False cs = Some False \<Longrightarrow> can_locked h (h @ cs)"
  by (auto simp: can_locked_def)

lemma can_locked_trans: "can_locked h h' \<Longrightarrow> can_locked h' h'' \<Longrightarrow> can_locked h h''"
  by (auto simp: can_locked_def lock_replay_append)

lemma no_can_call_locked: "list_all (\<lambda>c. \<not> can_call c) cs \<Longrightarrow> lock_replay held cs = Some held"
  by (induction cs) (auto simp: can_call_def)

lemma format_status_locked: "can_bridge_format_status Q E b n h = (reply, h') \<Longrightarrow> can_locked h h'"
  by (auto simp: can_bridge_format_status_def Let_def split: if_splits prod.splits
      intro!: can_locked_append)

lemma apply_config_locked:
  "apply_config E mode br h = (r, a, h') \<Longrightarrow> \<exists>cs. h' = h @ cs \<and> lock_replay True cs = Some True"
  by (auto simp: apply_config_def Let_def split: if_splits)

lemma config_commit_locked:
  assumes "config_commit Q E mode br b n h = (reply, b', h')"
  shows "can_locked h h'"
proof -
  obtain ret a h1 where ac: "apply_config E mode br (h @ [K_mutex_lock Can_lock]) = (ret, a, h1)"
    by (metis prod.exhaust)
  from apply_config_locked [OF ac] obtain cs where
    h1: "h1 = h @ K_mutex_lock Can_lock # cs" "lock_replay True cs = Some True" by auto
  have "can_locked h (h1 @ [K_mutex_unlock Can_lock])"
    and "can_locked h (h1 @ [K_mutex_unlock Can_lock, K_mutex_lock Can_lock, Can_start x, K_mutex_unlock Can_lock])"
    for x
    using h1 by (auto simp: lock_replay_append intro!: can_locked_append)
  then show ?thesis
    using assms ac
    by (auto simp: config_commit_def Let_def split: if_splits prod.splits
        intro: can_locked_trans dest: format_status_locked)
qed

lemma handle_ws_text_locked:
  "can_bridge_handle_ws_text Q E parse b payload n resp0 h = (reply, b', h') \<Longrightarrow> can_locked h h'"
  by (auto simp: can_bridge_handle_ws_text_def handle_can_config_set_def handle_can_tx_def
      format_can_tx_response_def Let_def split: if_splits prod.splits
      intro!: can_locked_append dest: format_status_locked config_commit_locked)

lemma step_locked:
  assumes "bridge_step Q contents E parse (b, h) ev (b', h')"
  shows "can_locked h h'"
  using assms
proof (cases rule: bridge_step_cases)
  case ws
  then show ?thesis by (blast dest: handle_ws_text_locked)
next
  case tx
  then show ?thesis
    by (auto simp: can_tx_turn_def Let_def split: option.splits intro!: can_locked_append)
next
  case next_rx
  then show ?thesis
    by (auto simp: can_bridge_format_next_rx_def Let_def split: option.splits intro!: can_locked_append)
qed (auto intro: can_locked_append no_can_call_locked dest: format_status_locked)

section \<open>The life of the bridge\<close>

text \<open>
  From boot on: before \<open>can_bridge_init\<close> the other contexts may already use the bridge (the server can
  be up before it), then \<open>can_bridge_init\<close> runs once, then everything else. The phase is \<open>None\<close> before
  the initialisation, and then the histories before and after it. In the firmware the status is read
  inside \<open>can_bridge_handle_ws_text\<close> only, which reads nothing of a bridge that is not ready.
\<close>

inductive bridge_life ::
  "'q msgq_api \<Rightarrow> ('q \<Rightarrow> can_frame list) \<Rightarrow> env \<Rightarrow> json_parse \<Rightarrow>
     (hist \<times> hist) option \<Rightarrow> 'q can_bridge \<Rightarrow> hist \<Rightarrow> bool"
  for Q :: "'q msgq_api" and contents E parse where
  life_boot: "contents q = [] \<Longrightarrow> list_all (\<lambda>c. \<not> can_call c) h \<Longrightarrow>
    bridge_life Q contents E parse None (bridge_boot q) h"
| life_early: "bridge_life Q contents E parse None b h \<Longrightarrow>
    bridge_step Q contents E parse (b, h) ev (b', h') \<Longrightarrow> (\<And>r text. ev \<noteq> Status_read r text) \<Longrightarrow>
    bridge_life Q contents E parse None b' h'"
| life_init: "bridge_life Q contents E parse None b h \<Longrightarrow> can_bridge_init E b h = (r, b', h') \<Longrightarrow>
    bridge_life Q contents E parse (Some (h, h')) b' h'"
| life_step: "bridge_life Q contents E parse (Some p) b h \<Longrightarrow>
    bridge_step Q contents E parse (b, h) ev (b', h') \<Longrightarrow>
    bridge_life Q contents E parse (Some p) b' h'"






section \<open>The controller's settings\<close>

text \<open>The mode and the bit rate last accepted by the driver.\<close>

fun hw_mode_step :: "u32 option \<Rightarrow> call \<Rightarrow> u32 option" where
  "hw_mode_step m (Can_set_mode x r) = (if r < 0 then m else Some x)"
| "hw_mode_step m _ = m"

fun hw_bitrate_step :: "u32 \<Rightarrow> call \<Rightarrow> u32" where
  "hw_bitrate_step v (Can_set_bitrate x r) = (if r < 0 then v else x)"
| "hw_bitrate_step v _ = v"

definition hw_mode :: "hist \<Rightarrow> u32 option" where
  "hw_mode h = foldl hw_mode_step None h"

definition hw_bitrate :: "hist \<Rightarrow> u32" where
  "hw_bitrate h = foldl hw_bitrate_step CONFIG_CAN_DEFAULT_BITRATE h"

lemma hw_append [simp]:
  "hw_mode (h @ cs) = foldl hw_mode_step (hw_mode h) cs"
  "hw_bitrate (h @ cs) = foldl hw_bitrate_step (hw_bitrate h) cs"
  by (simp_all add: hw_mode_def hw_bitrate_def)

text \<open>No driver call of a change of configuration fails.\<close>

fun config_call_ok :: "call \<Rightarrow> bool" where
  "config_call_ok (Can_set_mode _ r) = (0 \<le> r)"
| "config_call_ok (Can_set_bitrate _ r) = (0 \<le> r)"
| "config_call_ok (Can_start r) = (0 \<le> r \<or> r = err EALREADY)"
| "config_call_ok (Can_stop r) = (0 \<le> r \<or> r = err EALREADY)"
| "config_call_ok _ = True"

definition settings_reported :: "'q can_bridge \<Rightarrow> hist \<Rightarrow> bool" where
  "settings_reported b h \<longleftrightarrow> hw_mode h = Some (current_mode b) \<and> hw_bitrate h = current_bitrate b"

lemma no_can_call_settings:
  "list_all (\<lambda>c. \<not> can_call c) cs \<Longrightarrow> foldl hw_mode_step m cs = m \<and> foldl hw_bitrate_step v cs = v"
proof (induction cs)
  case (Cons c cs)
  then show ?case by (cases c) (auto simp: can_call_def)
qed simp

lemma format_status_settings:
  "can_bridge_format_status Q E b n h = (reply, h') \<Longrightarrow> hw_mode h' = hw_mode h \<and> hw_bitrate h' = hw_bitrate h"
  by (auto simp: can_bridge_format_status_def Let_def split: if_splits prod.splits)

text \<open>The outcome of the driver sequence, call by call.\<close>

lemma apply_config_outcome:
  assumes "apply_config E mode br h = (r, a, h')"
  shows "a \<Longrightarrow> hw_mode h' = Some mode \<and> hw_bitrate h' = br \<and> (0 \<le> r \<or> r = err EALREADY)"
    and "\<not> a \<Longrightarrow> r < 0 \<and> \<not> list_all config_call_ok h'"
  using assms by (auto simp: apply_config_def Let_def split: if_splits)

lemma config_commit_outcome:
  assumes c: "config_commit Q E mode br b n h = (reply, b', h')"
    and ac: "apply_config E mode br (h @ [K_mutex_lock Can_lock]) = (r, a, h1)"
  shows "current_mode b' = (if a then mode else current_mode b)"
    and "current_bitrate b' = (if a then br else current_bitrate b)"
    and "hw_mode h' = hw_mode h1" and "hw_bitrate h' = hw_bitrate h1"
    and "a \<Longrightarrow> can_ready b'" and "\<exists>cs. h' = h1 @ cs"
proof -
  obtain reply1 h2 where f: "can_bridge_format_status Q E (if a then b\<lparr>current_mode := mode,
      current_bitrate := br, can_ready := True\<rparr> else b\<lparr>can_ready := False\<rparr>) n
      (h1 @ [K_mutex_unlock Can_lock]) = (reply1, h2)"
    by (metis prod.exhaust)
  note fs = format_status_settings [OF f] format_status_locked [OF f]
  have "current_mode b' = (if a then mode else current_mode b) \<and>
    current_bitrate b' = (if a then br else current_bitrate b) \<and>
    hw_mode h' = hw_mode h1 \<and> hw_bitrate h' = hw_bitrate h1 \<and> (a \<longrightarrow> can_ready b') \<and> (\<exists>cs. h' = h1 @ cs)"
  proof (cases "r < 0")
    case True
    then show ?thesis using c ac by (cases a) (auto simp: config_commit_def Let_def split: if_splits)
  next
    case False
    then have a: a using apply_config_outcome(2) [OF ac] by blast
    then show ?thesis
      using c ac fs f False by (auto simp: config_commit_def Let_def can_locked_def)
  qed
  then show "current_mode b' = (if a then mode else current_mode b)"
    and "current_bitrate b' = (if a then br else current_bitrate b)"
    and "hw_mode h' = hw_mode h1" and "hw_bitrate h' = hw_bitrate h1"
    and "a \<Longrightarrow> can_ready b'" and "\<exists>cs. h' = h1 @ cs"
    by blast+
qed

text \<open>
  As long as no call of a change of configuration fails, the settings in the status are the controller's.
\<close>

lemma config_commit_settings:
  assumes "config_commit Q E mode br b n h = (reply, b', h')" and "list_all config_call_ok h'"
  shows "settings_reported b' h'"
proof -
  obtain r a h1 where ac: "apply_config E mode br (h @ [K_mutex_lock Can_lock]) = (r, a, h1)"
    by (metis prod.exhaust)
  note o = config_commit_outcome [OF assms(1) ac] apply_config_outcome [OF ac]
  have a using o(6) o(8) assms(2) by (cases a) auto
  then show ?thesis using o by (simp add: settings_reported_def)
qed

lemma ws_text_settings:
  assumes "can_bridge_handle_ws_text Q E parse b payload n resp0 h = (reply, b', h')"
    and "list_all config_call_ok h'" and "settings_reported b h"
  shows "settings_reported b' h'"
proof -
  define P where "P v \<longleftrightarrow> (case v of (reply, b', h') \<Rightarrow>
      list_all config_call_ok h' \<longrightarrow> settings_reported b' h')" for v :: "(int \<times> string) \<times> 'a can_bridge \<times> hist"
  have same: "P (x, b, h)" for x using assms(3) by (simp add: P_def)
  have st: "P (case can_bridge_format_status Q E b n h of (reply, h1) \<Rightarrow> (reply, b, h1))"
    using assms(3) format_status_settings [of Q E b n h]
    by (auto simp: P_def settings_reported_def split: prod.splits)
  have cf: "P (config_commit Q E mode br b n h)" for mode br
    using config_commit_settings by (auto simp: P_def split: prod.splits)
  have "P (handle_can_config_set Q E msg flds b n h)" for msg flds
    using same cf by (simp add: handle_can_config_set_def split: prod.splits)
  moreover have "P (handle_can_tx Q E msg flds b n resp0 h)" for msg flds
    using assms(3) by (auto simp: P_def handle_can_tx_def format_can_tx_response_def Let_def
        settings_reported_def split: prod.splits if_splits)
  ultimately have "P (can_bridge_handle_ws_text Q E parse b payload n resp0 h)"
    unfolding can_bridge_handle_ws_text_def Let_def by (simp add: same st split: prod.splits)
  then show ?thesis using assms(1,2) by (simp add: P_def)
qed

lemma step_settings:
  assumes "bridge_step Q contents E parse (b, h) ev (b', h')" and "settings_reported b h"
    and "list_all config_call_ok h'"
  shows "settings_reported b' h'"
  using assms(1)
proof (cases rule: bridge_step_cases)
  case ws
  then show ?thesis using assms ws_text_settings by blast
next
  case tx
  then show ?thesis
    using assms(2) by (auto simp: can_tx_turn_def Let_def settings_reported_def split: option.splits)
next
  case next_rx
  then show ?thesis
    using assms(2) by (auto simp: can_bridge_format_next_rx_def Let_def settings_reported_def split: option.splits)
next
  case status
  then show ?thesis using assms(2) by (auto simp: settings_reported_def dest!: format_status_settings)
next
  case other
  then show ?thesis using assms(2) no_can_call_settings by (simp add: settings_reported_def)
qed (use assms(2) in \<open>auto simp: settings_reported_def can_rx_callback_def
    can_bridge_set_rx_streaming_def Let_def\<close>)

lemma init_settings:
  assumes "can_bridge_init E (bridge_boot q) h = (0, b, h')" "list_all (\<lambda>c. \<not> can_call c) h"
  shows "settings_reported b h'"
proof -
  have "hw_mode h = None" "hw_bitrate h = CONFIG_CAN_DEFAULT_BITRATE"
    using no_can_call_settings [OF assms(2)] by (simp_all add: hw_mode_def hw_bitrate_def)
  then show ?thesis
    using assms(1) by (auto simp: can_bridge_init_def bridge_boot_def settings_reported_def Let_def ENODEV_def
        split: if_splits)
qed

lemma step_extends: "bridge_step Q contents E parse (b, h) ev (b', h') \<Longrightarrow> \<exists>cs. h' = h @ cs"
  using step_locked by (force simp: can_locked_def)

section \<open>Readiness\<close>

text \<open>Without readiness no step makes the bridge ready again.\<close>

lemma step_not_ready:
  assumes "bridge_step Q contents E parse (b, h) ev (b', h')" and "\<not> can_ready b"
  shows "\<not> can_ready b'"
  using assms(1)
proof (cases rule: bridge_step_cases)
  case ws
  then show ?thesis using assms(2) by (simp add: ws_text_not_ready)
qed (use assms(2) in \<open>auto simp: can_rx_callback_def can_tx_turn_def can_bridge_format_next_rx_def
    can_bridge_set_rx_streaming_def Let_def split: option.splits\<close>)

section \<open>Changes of configuration that fail\<close>

text \<open>
  When the driver takes the new mode and then refuses the bit rate, the old settings stay in the record,
  the controller keeps the new mode, and a successful restart makes the bridge ready again.
\<close>

lemma config_half_applied:
  assumes "h1 = h @ [K_mutex_lock Can_lock]" and "0 \<le> env_can_stop E h1"
    and "h2 = h1 @ [Can_stop (env_can_stop E h1)]" and "0 \<le> env_can_set_mode E h2 mode"
    and "h3 = h2 @ [Can_set_mode mode (env_can_set_mode E h2 mode)]"
    and "env_can_set_bitrate E h3 bitrate < 0"
    and "\<And>h. env_can_start E h = 0"
    and "config_commit Q E mode bitrate b n h = (reply, b', h')"
  shows "current_mode b' = current_mode b \<and> current_bitrate b' = current_bitrate b \<and> can_ready b' \<and>
    hw_mode h' = Some mode"
  using assms by (auto simp: config_commit_def apply_config_def Let_def)

section \<open>Properties\<close>

text \<open>
  C1: a text message queues a frame exactly when the bridge is ready, the payload is shorter than 256 bytes, it
  parses, its type is \<open>can.tx\<close> or absent, it keeps the field rules and the queue has room. The frame
  goes to the end of the queue and the answer is the whole acknowledgement; otherwise the queue and the
  bus are untouched and the answer is an error or the status, again a whole JSON document.
\<close>

theorem ws_text_queues_valid:
  assumes "can_world Q contents E parse" and "queues_bounded contents b" and "512 \<le> n"
    and "can_bridge_handle_ws_text Q E parse b payload n resp0 h = ((r, resp), b', h')"
  shows "case ws_accepts contents parse b payload of
      Some msg \<Rightarrow> r = 0 \<and> resp = json_text (tx_doc msg (env_uptime_us E h)) \<and>
        contents (can_tx_queue b') = contents (can_tx_queue b) @ [frame_of msg]
    | None \<Rightarrow> (error_reply resp \<or> status_reply resp) \<and>
        contents (can_tx_queue b') = contents (can_tx_queue b) \<and> bus_frames h' = bus_frames h"
proof (cases "ws_accepts contents parse b payload")
  case None
  show ?thesis
    using can_world.ws_text_not_queued(1-3) [OF assms(1) None assms(3,2,4)] None by simp
next
  case (Some msg)
  have "256 \<le> n" using assms(3) by simp
  from can_world.ws_text_queued [OF assms(1) Some this, of resp0 h] assms(4) Some show ?thesis by auto
qed

definition demo_request :: "u8 list" where
  \<open>demo_request = to_bytes ''{"type":"can.tx","bus":0,"id":291,"ext":false,"rtr":false,"dlc":2,"data":[1,255]}''\<close>

definition demo_bridge :: "can_frame list can_bridge" where
  "demo_bridge = fst (snd (can_bridge_init (board (\<lambda>h. [])) (bridge_boot []) []))"

definition demo_msg :: can_json_message where
  "demo_msg = \<lparr>cm_type = Some ''can.tx'', cm_bus = 0, cm_id = 291, cm_ext = False, cm_rtr = False,
     cm_dlc = 2, cm_data = [1, 255, 0, 0, 0, 0, 0, 0], cm_data_len = 2, cm_bitrate = 0, cm_mode = None\<rparr>"

lemma demo_accepts: "ws_accepts (\<lambda>q. q) ref_parse demo_bridge demo_request = Some demo_msg"
  by code_simp

lemma demo_bounded: "queues_bounded (\<lambda>q. q) demo_bridge"
  by code_simp

theorem ws_text_queues_valid_witness:
  "\<exists>resp b' h'. can_bridge_handle_ws_text (list_msgq CAN_QUEUE_LEN) (board (\<lambda>h. [])) ref_parse demo_bridge
      demo_request 512 [] [] = ((0, resp), b', h') \<and>
    resp = json_text (tx_doc demo_msg 1000) \<and> can_tx_queue b' = [frame_of demo_msg]"
proof -
  obtain r resp b' h' where t: "can_bridge_handle_ws_text (list_msgq CAN_QUEUE_LEN) (board (\<lambda>h. [])) ref_parse
      demo_bridge demo_request 512 [] [] = ((r, resp), b', h')"
    by (metis prod.exhaust)
  have "env_uptime_us (board (\<lambda>h. [])) [] = 1000" "can_tx_queue demo_bridge = []"
    by (simp add: board_def) code_simp
  then show ?thesis
    using ws_text_queues_valid [OF board_world.can_world_axioms demo_bounded _ t] demo_accepts t by simp
qed

text \<open>
  C2: every frame a client is told was accepted goes to the controller once and in order: at any point of any
  interleaving the accepted frames are those handed to the driver followed by those in the queue. All of
  them are valid classical CAN frames, and neither queue ever holds more than eight.
\<close>

theorem tx_frames_fifo:
  assumes "can_world Q contents E parse" and "bridge_run Q contents E parse tr b h"
  shows "accepted tr = bus_frames h @ contents (can_tx_queue b) \<and>
    list_all frame_ok (bus_frames h) \<and> list_all frame_ok (contents (can_tx_queue b)) \<and>
    length (contents (can_tx_queue b)) \<le> 8 \<and> length (contents (can_rx_queue b)) \<le> 8"
  using can_world.run_inv [OF assms] by (simp add: bridge_inv_def queues_bounded_def CAN_QUEUE_LEN_def)

text \<open>
  C3: received frames reach the client in order, none twice: since streaming was last switched, the frames
  stored are those fetched followed by those in the queue, and a bridge that is not streaming holds none.
\<close>

theorem rx_frames_fifo:
  assumes "can_world Q contents E parse" and "bridge_run Q contents E parse tr b h"
  shows "stored tr = fetched tr @ contents (can_rx_queue b) \<and>
    (\<not> can_rx_streaming b \<longrightarrow> contents (can_rx_queue b) = [])"
  using can_world.run_inv [OF assms] by (simp add: bridge_inv_def)

text \<open>A run in which the demo message is accepted and a frame is received and stored.\<close>

definition demo_rx :: can_frame where
  "demo_rx = \<lparr>fr_id = 5, fr_dlc = 1, fr_flags = 0, fr_data = [9, 0, 0, 0, 0, 0, 0, 0]\<rparr>"

lemma demo_run:
  "\<exists>tr b h. bridge_run (list_msgq CAN_QUEUE_LEN) (\<lambda>q. q) (board (\<lambda>h. [])) ref_parse tr b h \<and>
    accepted tr = [frame_of demo_msg] \<and> stored tr = [demo_rx]"
proof -
  let ?Q = "list_msgq CAN_QUEUE_LEN" and ?E = "board (\<lambda>h. [])" and ?c = "\<lambda>q :: can_frame list. q"
  obtain r b h where i: "can_bridge_init ?E (bridge_boot ([] :: can_frame list)) [] = (r, b, h)" by (metis prod.exhaust)
  then have b: "b = demo_bridge" by (simp add: demo_bridge_def)
  have r0: "bridge_run ?Q ?c ?E ref_parse [] b h"
    by (rule run_init [OF _ _ i]) simp_all
  obtain r1 resp b1 h1 where t: "can_bridge_handle_ws_text ?Q ?E ref_parse b demo_request 512 [] h =
      ((r1, resp), b1, h1)"
    by (metis prod.exhaust)
  have "bridge_step ?Q ?c ?E ref_parse (b, h) (Ws_text (Some demo_msg) r1 resp) (b1, h1)"
    using step_ws [OF _ t, of "?c"] demo_accepts b by simp
  note r1 = run_step [OF r0 this]
  let ?b2 = "can_bridge_set_rx_streaming ?Q True b1"
  note r2 = run_step [OF r1 step_streaming [of ?Q ?c ?E ref_parse b1 h1 True]]
  have "can_rx_streaming ?b2 \<and> fst (mq_put ?Q demo_rx (can_rx_queue ?b2)) = 0"
    by (simp add: can_bridge_set_rx_streaming_def list_msgq_def CAN_QUEUE_LEN_def)
  moreover have "frame_wf demo_rx" by code_simp
  ultimately have "bridge_step ?Q ?c ?E ref_parse (?b2, h1) (Rx_frame demo_rx True) (can_rx_callback ?Q demo_rx ?b2, h1)"
    using step_rx [of demo_rx ?Q ?c ?E ref_parse ?b2 h1] by simp
  note r3 = run_step [OF r2 this]
  show ?thesis
    by (rule exI, rule exI, rule exI, rule conjI, rule r3) (simp add: accepted_def stored_def)
qed

theorem tx_frames_fifo_witness:
  "\<exists>tr b h. accepted tr = [frame_of demo_msg] \<and>
    accepted tr = bus_frames h @ can_tx_queue (b :: can_frame list can_bridge) \<and>
    list_all frame_ok (can_tx_queue b)"
proof -
  obtain tr b h where r: "bridge_run (list_msgq CAN_QUEUE_LEN) (\<lambda>q. q) (board (\<lambda>h. [])) ref_parse tr b h"
    "accepted tr = [frame_of demo_msg]"
    using demo_run by blast
  from tx_frames_fifo [OF board_world.can_world_axioms r(1)] r(2) show ?thesis by blast
qed

theorem rx_frames_fifo_witness:
  "\<exists>tr b. stored tr = [demo_rx] \<and> stored tr = fetched tr @ can_rx_queue (b :: can_frame list can_bridge)"
proof -
  obtain tr b h where r: "bridge_run (list_msgq CAN_QUEUE_LEN) (\<lambda>q. q) (board (\<lambda>h. [])) ref_parse tr b h"
    "stored tr = [demo_rx]"
    using demo_run by blast
  from rx_frames_fifo [OF board_world.can_world_axioms r(1)] r(2) show ?thesis by blast
qed

text \<open>
  C5: every answer to a text message fits the buffer with its NUL, and read as JSON it is one document with no
  text around it.
\<close>

theorem ws_reply_is_json:
  assumes "can_world Q contents E parse" and "queues_bounded contents b" and "512 \<le> n" and "length resp0 < n"
    and "can_bridge_handle_ws_text Q E parse b payload n resp0 h = ((r, resp), b', h')"
  shows "length resp < n \<and> (\<exists>doc. json_read resp = Some doc \<and> resp = json_text doc)"
proof (cases "ws_accepts contents parse b payload")
  case None
  show ?thesis
    using can_world.ws_text_not_queued(1) [OF assms(1) None assms(3,2,5)] json_read_reply
      handle_ws_text_length [OF assms(5,4)] by blast
next
  case (Some msg)
  have "256 \<le> n" using assms(3) by simp
  then show ?thesis
    using can_world.ws_text_queued [OF assms(1) Some, of n resp0 h] assms(5)
      handle_ws_text_length [OF assms(5,4)] json_read_text [OF tx_doc_plain] by auto
qed

theorem ws_reply_is_json_witness:
  "\<exists>r resp b' h'. can_bridge_handle_ws_text (list_msgq CAN_QUEUE_LEN) (board (\<lambda>h. [])) ref_parse demo_bridge
      (to_bytes ''nonsense'') 512 [] [] = ((r, resp), b', h') \<and>
    length resp < 512 \<and> (\<exists>doc. json_read resp = Some doc \<and> resp = json_text doc)"
proof -
  obtain r resp b' h' where t: "can_bridge_handle_ws_text (list_msgq CAN_QUEUE_LEN) (board (\<lambda>h. [])) ref_parse
      demo_bridge (to_bytes ''nonsense'') 512 [] [] = ((r, resp), b', h')"
    by (metis prod.exhaust)
  then show ?thesis
    using ws_reply_is_json [OF board_world.can_world_axioms demo_bounded _ _ t] by simp
qed

text \<open>
  A frame fetched for the client is answered by the whole \<open>can.rx\<close> document of that frame, in a buffer
  of 256 bytes or more, and the document can be read back.
\<close>

theorem next_rx_is_frame:
  assumes "can_world Q contents E parse" and "contents (can_rx_queue b) = f # fs" and "frame_wf f"
    and "256 \<le> n" and "can_bridge_format_next_rx Q E b n resp0 h = ((r, resp), b', h')"
  shows "r = 0 \<and> resp = json_text (rx_doc f (env_uptime_us E h)) \<and>
    json_read resp = Some (rx_doc f (env_uptime_us E h)) \<and> contents (can_rx_queue b') = fs"
proof -
  have mq: "message_queue Q contents CAN_QUEUE_LEN" and dr: "can_driver E"
    using assms(1) by (simp_all add: can_world_def)
  obtain q where q: "mq_get Q (can_rx_queue b) = Some (f, q)" "contents q = fs"
    using message_queue.get_head [OF mq assms(2)] by blast
  show ?thesis
    using assms(5) q format_rx_doc [OF assms(3) can_driver.uptime [OF dr] assms(4), of h]
      json_read_text [OF rx_doc_plain]
    by (auto simp: can_bridge_format_next_rx_def Let_def)
qed

theorem next_rx_is_frame_witness:
  "\<exists>r resp b' h'. can_bridge_format_next_rx (list_msgq CAN_QUEUE_LEN) (board (\<lambda>h. []))
      (demo_bridge\<lparr>can_rx_queue := [demo_rx]\<rparr>) 512 [] [] = ((r, resp), b', h') \<and>
    r = 0 \<and> json_read resp = Some (rx_doc demo_rx 1000)"
proof -
  obtain r resp b' h' where t: "can_bridge_format_next_rx (list_msgq CAN_QUEUE_LEN) (board (\<lambda>h. []))
      (demo_bridge\<lparr>can_rx_queue := [demo_rx]\<rparr>) 512 [] [] = ((r, resp), b', h')"
    by (metis prod.exhaust)
  have "frame_wf demo_rx" by code_simp
  moreover have "env_uptime_us (board (\<lambda>h. [])) [] = 1000" by (simp add: board_def)
  moreover have "can_rx_queue (demo_bridge\<lparr>can_rx_queue := [demo_rx]\<rparr>) = [demo_rx]" by simp
  ultimately show ?thesis
    using next_rx_is_frame [OF board_world.can_world_axioms _ _ _ t] t by force
qed



text \<open>
  C7: as long as no driver call of a change of configuration fails, the mode and the bit rate in the status of
  a ready bridge are those the controller was last given, in every reachable state.
\<close>

theorem status_settings_are_hardware:
  assumes "bridge_run Q contents E parse tr b h" and "list_all config_call_ok h" and "can_ready b"
  shows "hw_mode h = Some (current_mode b) \<and> hw_bitrate h = current_bitrate b"
proof -
  have "list_all config_call_ok h \<longrightarrow> can_ready b \<longrightarrow> settings_reported b h"
    using assms(1)
  proof (induction rule: bridge_run.induct)
    case (run_init q h r b h')
    have "\<not> can_ready (bridge_boot q)" by (simp add: bridge_boot_def)
    from can_bridge_init_result [OF run_init(3) this] have "can_ready b \<Longrightarrow> r = 0" by blast
    then show ?case using init_settings [of E q h b h'] run_init(2,3) by blast
  next
    case (run_step tr b h ev b' h')
    then obtain cs where "h' = h @ cs" using step_extends by blast
    then show ?case using run_step step_settings step_not_ready by fastforce
  qed
  then show ?thesis using assms(2,3) by (simp add: settings_reported_def)
qed

definition demo_config :: "u8 list" where
  \<open>demo_config = to_bytes ''{"type":"can.config.set","mode":"loopback"}''\<close>

lemma demo_config_parsed:
  "case ref_parse (to_chars demo_config) can_json_message_zero of (flds, msg) \<Rightarrow>
     0 \<le> flds \<and> length demo_config < CAN_WS_JSON_MAX \<and>
     has_field flds CAN_JSON_TYPE \<and> cm_type msg = Some ''can.config.set'' \<and>
     \<not> has_field flds CAN_JSON_BITRATE \<and> has_field flds CAN_JSON_MODE \<and> cm_mode msg = Some ''loopback''"
  by code_simp

lemma demo_config_applied:
  assumes "can_bridge_handle_ws_text (list_msgq CAN_QUEUE_LEN) (board inp) ref_parse b demo_config n resp0 h =
      ((r, resp), b', h')" and "can_ready b"
  shows "current_mode b' = CAN_MODE_LOOPBACK \<and> current_bitrate b' = current_bitrate b \<and> can_ready b' \<and>
    (list_all config_call_ok h \<longrightarrow> list_all config_call_ok h')"
proof -
  obtain flds msg where p: "ref_parse (to_chars demo_config) can_json_message_zero = (flds, msg)"
    by (metis prod.exhaust)
  note d = demo_config_parsed [unfolded p prod.case]
  have "can_mode_from_name (cm_mode msg) (current_mode b) = (0, CAN_MODE_LOOPBACK)"
    using d by (simp add: can_mode_from_name_def)
  then have "can_bridge_handle_ws_text (list_msgq CAN_QUEUE_LEN) (board inp) ref_parse b demo_config n resp0 h =
      config_commit (list_msgq CAN_QUEUE_LEN) (board inp) CAN_MODE_LOOPBACK (current_bitrate b) b n h"
    using assms(2) d p
    by (simp add: can_bridge_handle_ws_text_def handle_can_config_set_def requested_mode_def requested_bitrate_def
        can_json_message_zero_def)
  then show ?thesis
    using assms(1) by (auto simp: config_commit_def apply_config_def can_bridge_format_status_def board_def Let_def)
qed

theorem status_settings_are_hardware_witness:
  "\<exists>tr b h. bridge_run (list_msgq CAN_QUEUE_LEN) (\<lambda>q. q) (board (\<lambda>h. [])) ref_parse tr b h \<and>
    current_mode b = CAN_MODE_LOOPBACK \<and> hw_mode h = Some CAN_MODE_LOOPBACK \<and> hw_bitrate h = CONFIG_CAN_DEFAULT_BITRATE"
proof -
  let ?Q = "list_msgq CAN_QUEUE_LEN" and ?E = "board (\<lambda>h. [])" and ?c = "\<lambda>q :: can_frame list. q"
  obtain r b0 h0 where i: "can_bridge_init ?E (bridge_boot ([] :: can_frame list)) [] = (r, b0, h0)"
    by (metis prod.exhaust)
  then have b0: "can_ready b0" "list_all config_call_ok h0" "current_bitrate b0 = CONFIG_CAN_DEFAULT_BITRATE"
    by (auto simp: can_bridge_init_def board_def bridge_boot_def Let_def)
  have r0: "bridge_run ?Q ?c ?E ref_parse [] b0 h0" by (rule run_init [OF _ _ i]) simp_all
  obtain r1 resp b h where t: "can_bridge_handle_ws_text ?Q ?E ref_parse b0 demo_config 512 [] h0 = ((r1, resp), b, h)"
    by (metis prod.exhaust)
  have n: "512 \<le> (512 :: nat)" by simp
  note run = run_step [OF r0 step_ws [OF n t]]
  from status_settings_are_hardware [OF run] run demo_config_applied [OF t b0(1)] b0(2,3) show ?thesis by auto
qed

text \<open>
  C22: when the driver accepts the new mode and refuses the bit rate, and the restart succeeds, the client is
  told that the configuration failed, the status goes on reporting the old mode, and the ready
  controller runs in the new one.
\<close>

theorem failed_config_leaves_new_mode:
  assumes "\<And>h. env_can_stop E h = 0" and "\<And>h. env_can_start E h = 0" and "\<And>h. env_can_set_mode E h mode = 0"
    and "\<And>h. env_can_set_bitrate E h bitrate = err EINVAL"
    and "mode \<noteq> current_mode b" and "config_commit Q E mode bitrate b n h = (reply, b', h')"
  shows "reply = ws_reply n ''can_config_failed'' ''Could not apply CAN configuration'' (err EINVAL) \<and>
    can_ready b' \<and> current_mode b' = current_mode b \<and> hw_mode h' = Some mode \<and>
    hw_mode h' \<noteq> Some (current_mode b')"
proof -
  have "current_mode b' = current_mode b \<and> current_bitrate b' = current_bitrate b \<and> can_ready b' \<and>
      hw_mode h' = Some mode"
    by (rule config_half_applied [OF refl _ refl _ refl _ _ assms(6)]) (simp_all add: assms)
  moreover have "reply = ws_reply n ''can_config_failed'' ''Could not apply CAN configuration'' (err EINVAL)"
    using assms(6) by (auto simp: config_commit_def apply_config_def assms(1-4) Let_def)
  ultimately show ?thesis using assms(5) by simp
qed

theorem failed_config_leaves_new_mode_witness:
  "\<exists>reply b' h'. config_commit (list_msgq CAN_QUEUE_LEN)
      (board (\<lambda>h. [])\<lparr>env_can_set_bitrate := \<lambda>h b. err EINVAL\<rparr>) CAN_MODE_LOOPBACK 1 demo_bridge 512 [] =
      (reply, b', h') \<and> can_ready b' \<and> hw_mode h' \<noteq> Some (current_mode b')"
proof -
  let ?E = "board (\<lambda>h. [])\<lparr>env_can_set_bitrate := \<lambda>h b. err EINVAL\<rparr>"
  obtain reply b' h' where c: "config_commit (list_msgq CAN_QUEUE_LEN) ?E CAN_MODE_LOOPBACK 1 demo_bridge 512 [] =
      (reply, b', h')"
    by (metis prod.exhaust)
  have "CAN_MODE_LOOPBACK \<noteq> current_mode demo_bridge" by code_simp
  moreover have "env_can_stop ?E h = 0" "env_can_start ?E h = 0" "env_can_set_mode ?E h m = 0"
    "env_can_set_bitrate ?E h v = err EINVAL" for h m v
    by (simp_all add: board_def)
  ultimately show ?thesis
    using failed_config_leaves_new_mode [OF _ _ _ _ _ c] c by blast
qed

text \<open>
  C24: once a change of configuration has left the bridge not ready, no interleaving makes it ready again: every
  later text message is answered with \<open>can_not_ready\<close>, the one that could repair the configuration
  included.
\<close>

theorem not_ready_is_final:
  assumes "\<not> can_ready b" and "bridge_step Q contents E parse (b, h) ev (b', h')"
  shows "\<not> can_ready b' \<and>
    can_bridge_handle_ws_text Q E parse b' payload n resp0 h2 =
      (ws_reply n ''can_not_ready'' ''CAN controller is not ready'' (err ENODEV), b', h2)"
  using step_not_ready [OF assms(2,1)] ws_text_not_ready by blast

text \<open>A change of configuration whose calls fail leaves the bridge that way.\<close>

theorem not_ready_is_final_witness:
  "\<exists>E reply b h r resp b' h'.
    config_commit (list_msgq CAN_QUEUE_LEN) E CAN_MODE_LOOPBACK 250000 demo_bridge 512 [] = (reply, b, h) \<and>
    can_bridge_handle_ws_text (list_msgq CAN_QUEUE_LEN) E ref_parse b demo_request 512 [] h = ((r, resp), b', h') \<and>
    \<not> can_ready b'"
proof -
  let ?Q = "list_msgq CAN_QUEUE_LEN"
    and ?E = "board (\<lambda>h. [])\<lparr>env_can_set_bitrate := \<lambda>h b. err EINVAL, env_can_start := \<lambda>h. err ENODEV\<rparr>"
  obtain reply b h where c: "config_commit ?Q ?E CAN_MODE_LOOPBACK 250000 demo_bridge 512 [] = (reply, b, h)"
    by (metis prod.exhaust)
  have "\<not> can_ready b" using c by (auto simp: config_commit_def apply_config_def board_def ENODEV_def EALREADY_def Let_def)
  moreover obtain r resp b' h' where
    t: "can_bridge_handle_ws_text ?Q ?E ref_parse b demo_request 512 [] h = ((r, resp), b', h')"
    by (metis prod.exhaust)
  have n: "512 \<le> (512 :: nat)" by simp
  ultimately have "\<not> can_ready b'"
    using not_ready_is_final [OF _ step_ws [OF n t, where contents = "\<lambda>q. q"]] by blast
  then show ?thesis using c t by blast
qed

end
