(* ===== verification/WebSocket.thy ===== *)
theory WebSocket
  imports HttpIO CanBridge
begin

text \<open>
  The WebSocket side of \<open>http_server.c\<close>: the upgrade in \<open>handle_websocket\<close>, the loop of the session and
  its thread. The bridge is used through the three calls of \<open>can_bridge.h\<close>, the record \<open>ws_service\<close>;
  what the session relies on is the locale \<open>bridge_service\<close>, and the CAN bridge is shown to provide it.
\<close>

section \<open>The code\<close>

definition WS_MAX_PAYLOAD :: nat where [fw_defs]: "WS_MAX_PAYLOAD = 256"
definition WS_RESPONSE_MAX :: nat where [fw_defs]: "WS_RESPONSE_MAX = 512"
definition WS_OPCODE_CONTINUATION :: u8 where [fw_defs]: "WS_OPCODE_CONTINUATION = 0x0"
definition WS_OPCODE_TEXT :: u8 where [fw_defs]: "WS_OPCODE_TEXT = 0x1"
definition WS_OPCODE_CLOSE :: u8 where [fw_defs]: "WS_OPCODE_CLOSE = 0x8"
definition WS_OPCODE_PING :: u8 where [fw_defs]: "WS_OPCODE_PING = 0x9"
definition WS_OPCODE_PONG :: u8 where [fw_defs]: "WS_OPCODE_PONG = 0xa"

record 's ws_service =
  svc_next_rx :: "'s \<Rightarrow> nat \<Rightarrow> string \<Rightarrow> hist \<Rightarrow> (int \<times> string) \<times> 's \<times> hist"
  svc_handle_text :: "'s \<Rightarrow> u8 list \<Rightarrow> nat \<Rightarrow> string \<Rightarrow> hist \<Rightarrow> (int \<times> string) \<times> 's \<times> hist"
  svc_streaming :: "bool \<Rightarrow> 's \<Rightarrow> 's"

definition can_service :: "'q msgq_api \<Rightarrow> env \<Rightarrow> json_parse \<Rightarrow> 'q can_bridge ws_service" where
  "can_service Q E parse = \<lparr>
     svc_next_rx = can_bridge_format_next_rx Q E,
     svc_handle_text = can_bridge_handle_ws_text Q E parse,
     svc_streaming = can_bridge_set_rx_streaming Q \<rparr>"

lemma can_service_sel [simp]:
  "svc_next_rx (can_service Q E parse) = can_bridge_format_next_rx Q E"
  "svc_handle_text (can_service Q E parse) = can_bridge_handle_ws_text Q E parse"
  "svc_streaming (can_service Q E parse) = can_bridge_set_rx_streaming Q"
  by (simp_all add: can_service_def)

text \<open>
  The inner loop that sends received frames; it ends when the queue does, so \<open>None\<close> stands for a queue
  that never empties. The flag says whether the session goes on.
\<close>

partial_function (option) drain_rx ::
  "'s ws_service \<Rightarrow> env \<Rightarrow> int \<Rightarrow> 's \<Rightarrow> string \<Rightarrow> hist \<Rightarrow> (bool \<times> 's \<times> string \<times> hist) option" where
  "drain_rx svc E fd s response h =
     (let ((ret, response1), s1, h1) = svc_next_rx svc s WS_RESPONSE_MAX response h in
      if ret \<noteq> 0 then Some (True, s1, response1, h1)
      else let (ret2, h2) = send_websocket_frame E fd WS_OPCODE_TEXT (to_bytes response1) h1 in
           if ret2 < 0 then Some (False, s1, response1, h2)
           else drain_rx svc E fd s1 response1 h2)"

text \<open>Reading one frame: nothing usable, a frame to refuse with a close, or an opcode and its payload.\<close>

datatype ws_input = Ws_failed | Ws_refused | Ws_message u8 "u8 list"

definition unmask :: "u8 list \<Rightarrow> u8 list \<Rightarrow> u8 list" where
  "unmask key payload = map (\<lambda>i. payload ! i XOR key ! (i mod 4)) [0..<length payload]"

definition ws_read_payload ::
  "env \<Rightarrow> websocket_client \<Rightarrow> u8 \<Rightarrow> bool \<Rightarrow> nat \<Rightarrow> hist \<Rightarrow> ws_input \<times> websocket_client \<times> hist" where
  "ws_read_payload E client opcode masked payload_len h =
     (if \<not> masked \<or> WS_MAX_PAYLOAD < payload_len then (Ws_refused, client, h)
      else let ((ret, key), client, h) = ws_recv_exact E client 4 h in
      if ret < 0 then (Ws_failed, client, h)
      else let ((ret, payload), client, h) = ws_recv_exact E client payload_len h in
      if ret < 0 then (Ws_failed, client, h)
      else (Ws_message opcode (unmask key payload), client, h))"

definition ws_read_frame :: "env \<Rightarrow> websocket_client \<Rightarrow> hist \<Rightarrow> ws_input \<times> websocket_client \<times> hist" where
  "ws_read_frame E client h =
     (let ((ret, header), client, h) = ws_recv_exact E client 2 h in
      if ret < 0 then (Ws_failed, client, h)
      else
        let opcode = header ! 0 AND 0x0f;
            masked = (header ! 1 AND 0x80 \<noteq> 0);
            payload_len = unat (header ! 1 AND 0x7f)
        in if payload_len = 126 then
             (let ((ret, ext), client, h) = ws_recv_exact E client 2 h in
              if ret < 0 then (Ws_failed, client, h)
              else ws_read_payload E client opcode masked (be_nat ext) h)
           else if payload_len = 127 then (Ws_refused, client, h)
           else ws_read_payload E client opcode masked payload_len h)"

text \<open>One turn of the outer loop; the flag says whether there is another.\<close>

definition ws_answer ::
  "'s ws_service \<Rightarrow> env \<Rightarrow> int \<Rightarrow> ws_input \<Rightarrow> 's \<Rightarrow> string \<Rightarrow> hist \<Rightarrow> bool \<times> 's \<times> string \<times> hist" where
  "ws_answer svc E fd input s response h =
     (case input of
        Ws_failed \<Rightarrow> (False, s, response, h)
      | Ws_refused \<Rightarrow> (False, s, response, snd (send_websocket_frame E fd WS_OPCODE_CLOSE [] h))
      | Ws_message opcode payload \<Rightarrow>
          if opcode = WS_OPCODE_CLOSE then
            (False, s, response, snd (send_websocket_frame E fd WS_OPCODE_CLOSE payload h))
          else if opcode = WS_OPCODE_PING then
            (True, s, response, snd (send_websocket_frame E fd WS_OPCODE_PONG payload h))
          else if opcode \<noteq> WS_OPCODE_TEXT \<and> opcode \<noteq> WS_OPCODE_CONTINUATION then
            (False, s, response, snd (send_websocket_frame E fd WS_OPCODE_CLOSE [] h))
          else
            let ((_, response1), s1, h1) = svc_handle_text svc s payload WS_RESPONSE_MAX response h;
                (ret, h2) = send_websocket_frame E fd WS_OPCODE_TEXT (to_bytes response1) h1
            in (0 \<le> ret, s1, response1, h2))"

definition websocket_turn ::
  "'s ws_service \<Rightarrow> env \<Rightarrow> websocket_client \<Rightarrow> 's \<Rightarrow> string \<Rightarrow> hist \<Rightarrow>
     (bool \<times> websocket_client \<times> 's \<times> string \<times> hist) option" where
  "websocket_turn svc E client s response h =
     (case drain_rx svc E (wc_fd client) s response h of
        None \<Rightarrow> None
      | Some (go_on, s1, response1, h1) \<Rightarrow>
          if \<not> go_on then Some (False, client, s1, response1, h1)
          else
            let poll = (if wc_pending_len client \<le> wc_pending_pos client
                        then Some (env_poll E h1 (wc_fd client)) else None);
                h2 = (case poll of None \<Rightarrow> h1 | Some r \<Rightarrow> h1 @ [Sock_poll (wc_fd client) r])
            in (case poll of
                  Some (Inl e) \<Rightarrow> Some (False, client, s1, response1, h2)
                | Some (Inr False) \<Rightarrow> Some (True, client, s1, response1, h2)
                | _ \<Rightarrow>
                    let (input, client1, h3) = ws_read_frame E client h2;
                        (go_on, s2, response2, h4) = ws_answer svc E (wc_fd client) input s1 response1 h3
                    in Some (go_on, client1, s2, response2, h4)))"

text \<open>
  The session: a peer that keeps sending, or stays connected and silent, keeps it running, and \<open>None\<close> stands for that.
\<close>

partial_function (option) websocket_echo_loop ::
  "'s ws_service \<Rightarrow> env \<Rightarrow> websocket_client \<Rightarrow> 's \<Rightarrow> string \<Rightarrow> hist \<Rightarrow> ('s \<times> hist) option" where
  "websocket_echo_loop svc E client s response h =
     (case websocket_turn svc E client s response h of
        None \<Rightarrow> None
      | Some (go_on, client1, s1, response1, h1) \<Rightarrow>
          if go_on then websocket_echo_loop svc E client1 s1 response1 h1 else Some (s1, h1))"

text \<open>The state of the server that the upgrade and the session's thread share.\<close>

record 's ws_state =
  ws_active :: bool
  ws_client :: websocket_client
  ws_bridge :: 's

text \<open>The thread, from \<open>response\<close> on an uninitialised stack: \<open>junk\<close> is what the buffer holds.\<close>

definition websocket_thread ::
  "'s ws_service \<Rightarrow> env \<Rightarrow> string \<Rightarrow> 's ws_state \<Rightarrow> hist \<Rightarrow> ('s ws_state \<times> hist) option" where
  "websocket_thread svc E junk w h =
     (case websocket_echo_loop svc E (ws_client w) (ws_bridge w) junk h of
        None \<Rightarrow> None
      | Some (s1, h1) \<Rightarrow>
          let h2 = zsock_close (wc_fd (ws_client w)) h1;
              s2 = svc_streaming svc False s1
          in Some (w\<lparr>ws_bridge := s2, ws_active := False\<rparr>, h2))"

definition upgrade_text :: "string \<Rightarrow> string" where
  "upgrade_text accept =
     ''HTTP/1.1 101 Switching Protocols'' @ CRLF @
     ''Upgrade: websocket'' @ CRLF @
     ''Connection: Upgrade'' @ CRLF @
     ''Sec-WebSocket-Accept: '' @ accept @ CRLF @ CRLF"

definition handle_websocket ::
  "'s ws_service \<Rightarrow> env \<Rightarrow> int \<Rightarrow> string \<Rightarrow> u8 list \<Rightarrow> nat \<Rightarrow> 's ws_state \<Rightarrow> hist \<Rightarrow>
     int \<times> 's ws_state \<times> hist" where
  "handle_websocket svc E client_fd request pending pending_len w h =
     (if ws_active w then (err EBUSY, w, h)
      else let w1 = w\<lparr>ws_active := True\<rparr>;
          (ret, accept) = build_websocket_accept request 32 in
      if ret < 0 then (ret, w1\<lparr>ws_active := False\<rparr>, h)
      else
          let (len, response_buf) = snprintk 192 (upgrade_text accept) in
          if 192 \<le> len then (err ENOMEM, w1\<lparr>ws_active := False\<rparr>, h)
          else let (ret, h1) = send_all E client_fd (to_bytes response_buf) h in
          if ret < 0 then (ret, w1\<lparr>ws_active := False\<rparr>, h1)
          else let n = min pending_len HTTP_REQUEST_MAX;
                   client = \<lparr>wc_fd = client_fd, wc_pending = take n pending, wc_pending_len = n,
                     wc_pending_pos = 0\<rparr>;
                   w2 = w1\<lparr>ws_client := client, ws_bridge := svc_streaming svc True (ws_bridge w1)\<rparr>
               in (0, w2, h1 @ [K_thread_create Ws_thread]))"

section \<open>The stream of a client\<close>

text \<open>A peer that has \<open>data\<close> to send on \<open>fd\<close> and does not fail; the network cuts it up as it likes.\<close>

locale ws_peer = sockets E for E :: env +
  fixes fd :: int and data :: "u8 list"
  assumes deliver: "env_recv E h fd n = Inr bs \<Longrightarrow> 0 < n \<Longrightarrow> prefix (recvd fd h) data \<Longrightarrow>
      prefix (recvd fd h @ bs) data \<and> (bs = [] \<longrightarrow> recvd fd h = data)"
    and no_failure: "\<exists>bs. env_recv E h fd n = Inr bs"

definition board_peer :: "int \<Rightarrow> u8 list \<Rightarrow> env" where
  "board_peer fd data = board (\<lambda>h. drop (length (recvd fd h)) data)"

interpretation board_ws: ws_peer "board_peer fd data" fd data for fd data
proof unfold_locales
  fix h n bs assume "env_recv (board_peer fd data) h fd n = Inr bs" "0 < n" "prefix (recvd fd h) data"
  then show "prefix (recvd fd h @ bs) data \<and> (bs = [] \<longrightarrow> recvd fd h = data)"
    by (auto simp: board_peer_def board_def prefix_def) (metis append_take_drop_id)
qed (auto simp: board_peer_def board_def)

text \<open>
  \<open>rest\<close> is what the session has still to read: of the bytes behind the upgrade request and then of what
  the peer sends after the \<open>base\<close> bytes it had delivered by then.
\<close>

definition ws_at :: "nat \<Rightarrow> u8 list \<Rightarrow> u8 list \<Rightarrow> websocket_client \<Rightarrow> hist \<Rightarrow> bool" where
  "ws_at base data rest client h \<longleftrightarrow>
     ws_inv base client h \<and> prefix (recvd (wc_fd client) h) data \<and>
     take (wc_pending_len client) (wc_pending client) @ drop base data = ws_taken base client h @ rest"

lemma ws_at_extends:
  "ws_at base data rest client h \<Longrightarrow> recvd (wc_fd client) h' = recvd (wc_fd client) h \<Longrightarrow>
    ws_at base data rest client h'"
  by (simp add: ws_at_def ws_inv_def ws_taken_def)

context ws_peer
begin

lemma recv_rest_delivered:
  "prefix (recvd fd h) data \<Longrightarrow> length buf \<le> len \<Longrightarrow>
    length (recvd fd h) + (len - length buf) \<le> length data \<Longrightarrow>
    recv_rest E fd buf len h = ((r, buf'), h') \<Longrightarrow> r = 0 \<and> prefix (recvd fd h') data"
proof (induction "len - length buf" arbitrary: buf h rule: less_induct)
  case less
  show ?case
  proof (cases "len \<le> length buf")
    case True
    then show ?thesis using less.prems by simp
  next
    case False
    obtain bs where bs: "env_recv E h fd (len - length buf) = Inr bs"
      using no_failure by blast
    note d = deliver [OF bs _ less.prems(1)]
    have ne: "bs \<noteq> []" using d False less.prems(3) by auto
    have l: "length bs \<le> len - length buf" using recv_len [OF bs] .
    have "len - length (buf @ bs) < len - length buf"
      using False ne by (cases bs) auto
    moreover have "recv_rest E fd (buf @ bs) len (h @ [Sock_recv fd (len - length buf) (Inr bs)]) =
        ((r, buf'), h')"
      using less.prems(4) False bs ne by (simp add: recv_rest.simps [of E fd buf len h] zsock_recv_def Let_def)
    ultimately show ?thesis
      using less.hyps [of "buf @ bs" "h @ [Sock_recv fd (len - length buf) (Inr bs)]"] d l False less.prems(2,3)
      by simp
  qed
qed

lemma ws_recv_exact_at:
  assumes a: "ws_at base data (bs @ rest) client h" and "length bs = len" and fd: "wc_fd client = fd"
    and r: "ws_recv_exact E client len h = ((r, buf), client', h')"
  shows "r = 0" and "buf = bs" and "ws_at base data rest client' h'" and "wc_fd client' = fd"
    and "extends (recvs_from fd) h h'"
proof -
  let ?p = "wc_pending client" and ?l = "wc_pending_len client" and ?i = "wc_pending_pos client"
  have i: "ws_inv base client h" using a by (simp add: ws_at_def)
  note x = ws_recv_exact_spec [OF r i]
  have l: "?l \<le> length ?p" "?i \<le> ?l" using i by (simp_all add: ws_inv_def)
  let ?b = "take len (drop ?i (take ?l ?p))"
  have rr: "recv_rest E fd ?b len h = ((r, buf), h')"
    using r fd by (auto simp: ws_recv_exact_def copy_pending_spec [OF l] Let_def split: prod.splits)
  have tot: "?l + (length data - base) = length (ws_taken base client h) + len + length rest"
    using a assms(2) l by (auto simp: ws_at_def dest!: arg_cong [of _ _ length])
  have tk: "length (ws_taken base client h) = ?i + (length (recvd fd h) - base)"
    using l fd by (simp add: ws_taken_def)
  have rc: "base \<le> length (recvd fd h)" "?i < ?l \<longrightarrow> length (recvd fd h) = base"
    "prefix (recvd fd h) data" "length (recvd fd h) \<le> length data"
    using a fd by (auto simp: ws_at_def ws_inv_def dest: prefix_length_le)
  have "length (recvd fd h) + (len - length ?b) \<le> length data"
    using tot tk rc l by (cases "?i < ?l") (auto simp: min_def)
  then have "r = 0 \<and> prefix (recvd fd h') data"
    using recv_rest_delivered [OF rc(3) _ _ rr] by simp
  moreover obtain pos where c: "client' = client\<lparr>wc_pending_pos := pos\<rparr>" using x(7) by blast
  moreover have lb: "length buf = length bs" using calculation x(4) assms(2) by simp
  moreover have e: "take ?l ?p @ drop base data = (ws_taken base client h @ bs) @ rest"
    using a by (simp add: ws_at_def)
  moreover have p2: "prefix (ws_taken base client' h') (take ?l ?p @ drop base data)"
  proof -
    obtain z where z: "data = recvd fd h' @ z" using calculation(1) by (auto simp: prefix_def)
    have "base \<le> length (recvd fd h')" "pos \<le> ?l" "pos < ?l \<longrightarrow> length (recvd fd h') = base"
      using x(1) c fd by (simp_all add: ws_inv_def)
    moreover from this have "prefix (take pos ?p) (take ?l ?p)"
      by (metis min.absorb1 take_is_prefix take_take)
    ultimately show ?thesis
      using z c fd by (cases "pos < ?l") (auto simp: ws_taken_def)
  qed
  ultimately show "r = 0" and "buf = bs" and "ws_at base data rest client' h'" and "wc_fd client' = fd"
    and "extends (recvs_from fd) h h'"
    using x fd by (auto simp: ws_at_def prefix_def)
qed

end

section \<open>Frames of a client\<close>

text \<open>
  A masked frame as RFC 6455 has a client write it: the first byte with the opcode, the shortest length, the
  masking key and the masked payload.
\<close>

definition client_frame :: "u8 \<Rightarrow> u8 list \<Rightarrow> u8 list \<Rightarrow> u8 list" where
  "client_frame b0 key payload =
     b0 # (if length payload \<le> 125 then [0x80 OR word_of_nat (length payload)]
           else 0xfe # be_bytes 2 (length payload)) @ key @ unmask key payload"

lemma length_unmask [simp]: "length (unmask key payload) = length payload"
  by (simp add: unmask_def)

lemma unmask_unmask [simp]: "unmask key (unmask key payload) = payload"
  by (rule nth_equalityI) (simp_all add: unmask_def xor.assoc)

lemma masked_length_bits:
  "n \<le> 125 \<Longrightarrow> (0x80 OR (word_of_nat n :: u8)) AND 0x80 \<noteq> 0 \<and>
     unat ((0x80 OR (word_of_nat n :: u8)) AND 0x7f) = n"
proof -
  have "list_all (\<lambda>n. (0x80 OR (word_of_nat n :: u8)) AND 0x80 \<noteq> 0 \<and>
     unat ((0x80 OR (word_of_nat n :: u8)) AND 0x7f) = n) [0..<126]"
    by (simp add: upt_conv_Cons)
  then show "n \<le> 125 \<Longrightarrow> ?thesis"
    unfolding list_all_iff by simp
qed

context ws_peer
begin

text \<open>
  The session reads a frame off the stream exactly, however it arrives: the handler is given the opcode and
  the unmasked payload, and the stream is left at the next frame.
\<close>

lemma ws_read_payload_at:
  assumes a: "ws_at base data (key @ unmask key payload @ rest) client h" and k: "length key = 4"
    and n: "length payload \<le> WS_MAX_PAYLOAD" and fd: "wc_fd client = fd"
  shows "\<exists>client' h'. ws_read_payload E client opcode True (length payload) h =
      (Ws_message opcode payload, client', h') \<and> ws_at base data rest client' h' \<and> wc_fd client' = fd \<and>
      extends (recvs_from fd) h h'"
proof -
  obtain r1 b1 c1 h1 where r1: "ws_recv_exact E client 4 h = ((r1, b1), c1, h1)"
    by (metis prod.exhaust)
  note x1 = ws_recv_exact_at [OF a k fd r1]
  obtain r2 b2 c2 h2 where r2: "ws_recv_exact E c1 (length payload) h1 = ((r2, b2), c2, h2)"
    by (metis prod.exhaust)
  have "length (unmask key payload) = length payload" by simp
  note x2 = ws_recv_exact_at [OF x1(3) this x1(4) r2]
  show ?thesis
    using x1 x2 r1 r2 n extends_trans [OF x1(5) x2(5)] by (simp add: ws_read_payload_def)
qed

lemma ws_read_frame_at:
  assumes a: "ws_at base data (client_frame b0 key payload @ rest) client h" and k: "length key = 4"
    and n: "length payload \<le> WS_MAX_PAYLOAD" and fd: "wc_fd client = fd"
  shows "\<exists>client' h'. ws_read_frame E client h = (Ws_message (b0 AND 0x0f) payload, client', h') \<and>
      ws_at base data rest client' h' \<and> wc_fd client' = fd \<and> extends (recvs_from fd) h h'"
proof -
  let ?n = "length payload"
  obtain r1 b1 c1 h1 where r1: "ws_recv_exact E client 2 h = ((r1, b1), c1, h1)"
    by (metis prod.exhaust)
  show ?thesis
  proof (cases "?n \<le> 125")
    case True
    have a1: "ws_at base data ([b0, 0x80 OR word_of_nat ?n] @ key @ unmask key payload @ rest) client h"
      using a True by (simp add: client_frame_def)
    note x1 = ws_recv_exact_at [OF a1 _ fd r1, simplified]
    obtain c2 h2 where x2: "ws_read_payload E c1 (b0 AND 0x0f) True ?n h1 =
        (Ws_message (b0 AND 0x0f) payload, c2, h2)" "ws_at base data rest c2 h2" "wc_fd c2 = fd"
        "extends (recvs_from fd) h1 h2"
      using ws_read_payload_at [OF x1(3) k n x1(4)] by blast
    show ?thesis
      using x1 x2 r1 masked_length_bits [OF True] True extends_trans [OF x1(5) x2(4)]
      by (simp add: ws_read_frame_def)
  next
    case False
    have a1: "ws_at base data ([b0, 0xfe] @ be_bytes 2 ?n @ key @ unmask key payload @ rest) client h"
      using a False by (simp add: client_frame_def)
    note x1 = ws_recv_exact_at [OF a1 _ fd r1, simplified]
    obtain r2 b2 c2 h2 where r2: "ws_recv_exact E c1 2 h1 = ((r2, b2), c2, h2)"
      by (metis prod.exhaust)
    note x2 = ws_recv_exact_at [OF x1(3) _ x1(4) r2, simplified]
    have be: "be_nat (be_bytes 2 ?n) = ?n"
      using n by (intro be_nat_be_bytes) (simp add: WS_MAX_PAYLOAD_def)
    obtain c3 h3 where x3: "ws_read_payload E c2 (b0 AND 0x0f) True ?n h2 =
        (Ws_message (b0 AND 0x0f) payload, c3, h3)" "ws_at base data rest c3 h3" "wc_fd c3 = fd"
        "extends (recvs_from fd) h2 h3"
      using ws_read_payload_at [OF x2(3) k n x2(4)] by blast
    show ?thesis
      using x1 x2 x3 r1 r2 be extends_trans [OF x1(5) extends_trans [OF x2(5) x3(4)]]
      by (simp add: ws_read_frame_def)
  qed
qed

end

section \<open>What a session relies on\<close>

text \<open>The calls the bridge makes on behalf of a session; none of them is a socket call.\<close>

fun is_uptime :: "call \<Rightarrow> bool" where
  "is_uptime (K_uptime _) = True"
| "is_uptime _ = False"

definition service_call :: "call \<Rightarrow> bool" where
  "service_call c \<longleftrightarrow> can_call c \<or> is_uptime c"

text \<open>The calls of a session on its connection.\<close>

fun polls :: "int \<Rightarrow> call \<Rightarrow> bool" where
  "polls fd (Sock_poll fd' _) = (fd' = fd)"
| "polls fd _ = False"

definition session_call :: "int \<Rightarrow> call \<Rightarrow> bool" where
  "session_call fd c \<longleftrightarrow> service_call c \<or> sends_to fd c \<or> recvs_from fd c \<or> polls fd c"

lemma service_call_quiet [simp]:
  assumes "service_call c"
  shows "sent_by fd c = []" "recvd_by fd c = []" "c \<noteq> Sock_close fd"
  using assms by (cases c; auto simp: service_call_def can_call_def)+

lemma sent_by_other: "fd' \<noteq> fd \<Longrightarrow> sent_by fd' (Sock_send fd bs r) = []"
  by (cases r) simp_all

lemma recvd_by_other: "fd' \<noteq> fd \<Longrightarrow> recvd_by fd' (Sock_recv fd n r) = []"
  by (cases r) simp_all

lemma polls_quiet [simp]:
  "polls fd c \<Longrightarrow> sent_by fd' c = []" "polls fd c \<Longrightarrow> recvd_by fd' c = []" "polls fd c \<Longrightarrow> c \<noteq> Sock_close fd'"
  by (cases c; auto)+

lemma sends_to_other: "sends_to fd c \<Longrightarrow> fd' \<noteq> fd \<Longrightarrow> sent_by fd' c = []"
  by (auto elim!: sends_to.elims intro: sent_by_other)

lemma recvs_from_other: "recvs_from fd c \<Longrightarrow> fd' \<noteq> fd \<Longrightarrow> recvd_by fd' c = []"
  by (auto elim!: recvs_from.elims intro: recvd_by_other)

lemma session_call_other:
  assumes "session_call fd c" and "fd' \<noteq> fd"
  shows "sent_by fd' c = []" and "recvd_by fd' c = []"
  using assms sends_to_other recvs_from_other by (auto simp: session_call_def)

lemma session_call_not_close: "session_call fd c \<Longrightarrow> c \<noteq> Sock_close fd'"
  using service_call_quiet(3) polls_quiet(3) sends_to_quiet(2) recvs_from_quiet(2)
  unfolding session_call_def by blast

text \<open>The part of them that reads nothing.\<close>

definition talk_call :: "int \<Rightarrow> call \<Rightarrow> bool" where
  "talk_call fd c \<longleftrightarrow> service_call c \<or> sends_to fd c \<or> polls fd c"

lemma talk_call_quiet: "talk_call fd c \<Longrightarrow> recvd_by fd' c = []"
  by (auto simp: talk_call_def)

lemma talk_extends:
  "extends service_call h h' \<Longrightarrow> extends (talk_call fd) h h'"
  "extends (sends_to fd) h h' \<Longrightarrow> extends (talk_call fd) h h'"
  by (auto elim!: extends_mono simp: talk_call_def)

lemma session_extends:
  "extends (talk_call fd) h h' \<Longrightarrow> extends (session_call fd) h h'"
  "extends (recvs_from fd) h h' \<Longrightarrow> extends (session_call fd) h h'"
  by (auto elim!: extends_mono simp: session_call_def talk_call_def)

lemma talk_recvd: "extends (talk_call fd) h h' \<Longrightarrow> recvd fd' h' = recvd fd' h"
  by (erule extends_keeps) (simp add: talk_call_quiet)

lemma recvs_sent: "extends (recvs_from fd) h h' \<Longrightarrow> sent fd' h' = sent fd' h"
  by (erule extends_keeps) simp

lemma sends_recvd: "extends (sends_to fd) h h' \<Longrightarrow> recvd fd' h' = recvd fd' h"
  by (erule extends_keeps) simp

text \<open>What the bridge and the sending loops do between the polls, and how often the poll has timed out.\<close>

definition serve_call :: "int \<Rightarrow> call \<Rightarrow> bool" where
  "serve_call fd c \<longleftrightarrow> service_call c \<or> sends_to fd c"

lemma serve_extends:
  "extends service_call h h' \<Longrightarrow> extends (serve_call fd) h h'"
  "extends (sends_to fd) h h' \<Longrightarrow> extends (serve_call fd) h h'"
  "extends (serve_call fd) h h' \<Longrightarrow> extends (talk_call fd) h h'"
  by (auto elim!: extends_mono simp: serve_call_def talk_call_def)

definition timeouts :: "int \<Rightarrow> hist \<Rightarrow> nat" where
  "timeouts fd h = length (filter (\<lambda>c. c = Sock_poll fd (Inr False)) h)"

lemma timeouts_append [simp]: "timeouts fd (h @ h') = timeouts fd h + timeouts fd h'"
  by (simp add: timeouts_def)

lemma timeouts_simps [simp]:
  "timeouts fd [] = 0"
  "timeouts fd (c # h) = (if c = Sock_poll fd (Inr False) then Suc (timeouts fd h) else timeouts fd h)"
  by (simp_all add: timeouts_def)

lemma serve_timeouts: "extends (serve_call fd) h h' \<Longrightarrow> timeouts fd' h' = timeouts fd' h"
  by (erule extends_keeps) (auto simp: serve_call_def service_call_def can_call_def)

lemma extends_timeouts: "extends P h h' \<Longrightarrow> timeouts fd h \<le> timeouts fd h'"
  by (auto simp: extends_def)

text \<open>One more time-out than before, at a moment when no other had come in between.\<close>

definition timed_out :: "env \<Rightarrow> int \<Rightarrow> hist \<Rightarrow> hist \<Rightarrow> bool" where
  "timed_out E fd h h' \<longleftrightarrow> timeouts fd h' = Suc (timeouts fd h) \<and>
     (\<exists>h1. env_poll E h1 fd = Inr False \<and> timeouts fd h1 = timeouts fd h)"

lemma session_frame:
  assumes "extends (session_call fd) h h'"
  shows "closes fd' h' = closes fd' h" and "fd' \<noteq> fd \<Longrightarrow> sent fd' h' = sent fd' h"
    and "fd' \<noteq> fd \<Longrightarrow> recvd fd' h' = recvd fd' h"
  using assms by (erule_tac extends_keeps; simp add: session_call_not_close session_call_other)+

locale bridge_service =
  fixes svc :: "'s ws_service" and okay :: "'s \<Rightarrow> bool" and waiting :: "'s \<Rightarrow> nat"
  assumes next_rx: "svc_next_rx svc s WS_RESPONSE_MAX resp h = ((r, resp'), s', h') \<Longrightarrow> okay s \<Longrightarrow>
      length resp < WS_RESPONSE_MAX \<Longrightarrow>
      okay s' \<and> length resp' < WS_RESPONSE_MAX \<and> extends service_call h h' \<and>
      (r = 0 \<longrightarrow> waiting s' < waiting s)"
    and handle_text: "svc_handle_text svc s payload WS_RESPONSE_MAX resp h = ((r, resp'), s', h') \<Longrightarrow>
      okay s \<Longrightarrow> length resp < WS_RESPONSE_MAX \<Longrightarrow>
      okay s' \<and> length resp' < WS_RESPONSE_MAX \<and> extends service_call h h'"
    and streaming_okay: "okay s \<Longrightarrow> okay (svc_streaming svc on s)"
begin

text \<open>Sending what has been received ends, because every frame sent is one fewer waiting.\<close>

lemma drain_returns:
  assumes E: "sockets E"
  shows "okay s \<Longrightarrow> length resp < WS_RESPONSE_MAX \<Longrightarrow>
    \<exists>go_on s' resp' h'. drain_rx svc E fd s resp h = Some (go_on, s', resp', h') \<and> okay s' \<and>
      length resp' < WS_RESPONSE_MAX \<and> extends (serve_call fd) h h'"
proof (induction "waiting s" arbitrary: s resp h rule: less_induct)
  case less
  obtain r resp1 s1 h1 where n: "svc_next_rx svc s WS_RESPONSE_MAX resp h = ((r, resp1), s1, h1)"
    by (metis prod.exhaust)
  note x = next_rx [OF n less.prems]
  obtain r2 h2 where f: "send_websocket_frame E fd WS_OPCODE_TEXT (to_bytes resp1) h1 = (r2, h2)"
    by force
  have e1: "extends (serve_call fd) h h1" using x serve_extends(1) by blast
  have e2: "extends (serve_call fd) h h2"
    using extends_trans [OF e1 serve_extends(2)] sockets.send_websocket_frame_sent(1) [OF E f] by blast
  show ?case
  proof (cases "r \<noteq> 0 \<or> r2 < 0")
    case True
    then show ?thesis
      using n f x e1 e2 by (auto simp: drain_rx.simps [of svc E fd s resp h])
  next
    case False
    then have "waiting s1 < waiting s" using x by blast
    from less.hyps [OF this, of resp1 h2] x obtain go_on s' resp' h' where
      "drain_rx svc E fd s1 resp1 h2 = Some (go_on, s', resp', h')" "okay s'"
      "length resp' < WS_RESPONSE_MAX" "extends (serve_call fd) h2 h'"
      by blast
    then show ?thesis
      using n f False extends_trans [OF e2] by (auto simp: drain_rx.simps [of svc E fd s resp h])
  qed
qed

end

text \<open>The CAN bridge is such a service.\<close>

lemma format_status_service:
  "can_bridge_format_status Q E b n h = (reply, h') \<Longrightarrow> extends service_call h h'"
  by (auto simp: can_bridge_format_status_def Let_def service_call_def can_call_def split: if_splits prod.splits
      intro!: extends_append)

lemma apply_config_service: "apply_config E mode br h = (r, a, h') \<Longrightarrow> extends service_call h h'"
  by (auto simp: apply_config_def Let_def service_call_def can_call_def split: if_splits
      intro!: extends_append)

lemma config_commit_service:
  assumes "config_commit Q E mode br b n h = (reply, b', h')"
  shows "extends service_call h h'"
proof -
  obtain r a h1 where ac: "apply_config E mode br (h @ [K_mutex_lock Can_lock]) = (r, a, h1)"
    by (metis prod.exhaust)
  have e1: "extends service_call h h1"
    using apply_config_service [OF ac] by (rule extends_shift) (simp add: service_call_def can_call_def)
  have e2: "extends service_call h (h1 @ [K_mutex_unlock Can_lock])"
    "extends service_call h (h1 @ [K_mutex_unlock Can_lock, K_mutex_lock Can_lock, Can_start x, K_mutex_unlock Can_lock])"
    for x
    using e1 by (auto intro!: extends_snoc simp: service_call_def can_call_def)
  show ?thesis
    using assms ac e2 by (auto simp: config_commit_def Let_def split: if_splits prod.splits
        intro: extends_trans dest: format_status_service)
qed

lemma uptime_service [simp, intro]: "extends service_call h (h @ [K_uptime t])"
  by (rule extends_append) (simp add: service_call_def)

lemma handle_can_tx_service:
  "handle_can_tx Q E msg flds b n resp0 h = (reply, b', h') \<Longrightarrow> extends service_call h h'"
  by (auto simp: handle_can_tx_def format_can_tx_response_def Let_def split: if_splits prod.splits)

lemma handle_ws_text_service:
  "can_bridge_handle_ws_text Q E parse b payload n resp0 h = (reply, b', h') \<Longrightarrow> extends service_call h h'"
  by (auto simp: can_bridge_handle_ws_text_def handle_can_config_set_def Let_def
      split: if_splits prod.splits dest: format_status_service config_commit_service handle_can_tx_service)

sublocale can_world \<subseteq> service: bridge_service "can_service Q E parse" "queues_bounded contents"
    "\<lambda>b. length (contents (can_rx_queue b))"
proof unfold_locales
  fix s resp h r resp' s' h'
  assume n: "svc_next_rx (can_service Q E parse) s WS_RESPONSE_MAX resp h = ((r, resp'), s', h')"
    and ok: "queues_bounded contents s" and l: "length resp < WS_RESPONSE_MAX"
  then have n: "can_bridge_format_next_rx Q E s WS_RESPONSE_MAX resp h = ((r, resp'), s', h')"
    by (simp add: can_service_def)
  show "queues_bounded contents s' \<and> length resp' < WS_RESPONSE_MAX \<and> extends service_call h h' \<and>
      (r = 0 \<longrightarrow> length (contents (can_rx_queue s')) < length (contents (can_rx_queue s)))"
  proof (cases "mq_get Q (can_rx_queue s)")
    case None
    then show ?thesis using n ok l by (auto simp: can_bridge_format_next_rx_def EAGAIN_def)
  next
    case (Some fq)
    obtain f q where fq: "fq = (f, q)" by force
    have "contents (can_rx_queue s) = f # contents q" using Some fq get_Some by simp
    moreover have "s' = s\<lparr>can_rx_queue := q\<rparr>" "h' = h @ [K_uptime (env_uptime_us E h)]"
      using n Some fq by (auto simp: can_bridge_format_next_rx_def Let_def)
    moreover have "extends service_call h (h @ [K_uptime (env_uptime_us E h)])"
      by (rule extends_append) (simp add: service_call_def)
    ultimately show ?thesis
      using next_rx_length [OF n l] ok by (simp add: queues_bounded_def)
  qed
next
  fix s payload resp h r resp' s' h'
  assume t: "svc_handle_text (can_service Q E parse) s payload WS_RESPONSE_MAX resp h = ((r, resp'), s', h')"
    and ok: "queues_bounded contents s" and l: "length resp < WS_RESPONSE_MAX"
  then have t: "can_bridge_handle_ws_text Q E parse s payload WS_RESPONSE_MAX resp h = ((r, resp'), s', h')"
    by (simp add: can_service_def)
  have n: "512 \<le> WS_RESPONSE_MAX" "256 \<le> WS_RESPONSE_MAX" by (simp_all add: WS_RESPONSE_MAX_def)
  have "queues_bounded contents s'"
  proof (cases "ws_accepts contents parse s payload")
    case None
    then show ?thesis
      using ws_text_not_queued(2,4) [OF None n(1) ok t] ok by (simp add: queues_bounded_def)
  next
    case (Some msg)
    have "length (contents (can_tx_queue s)) < CAN_QUEUE_LEN"
      using Some by (auto simp: ws_accepts_def split: prod.splits if_splits)
    then show ?thesis
      using ws_text_queued [OF Some n(2), of resp h] t ok by (auto simp: queues_bounded_def)
  qed
  then show "queues_bounded contents s' \<and> length resp' < WS_RESPONSE_MAX \<and> extends service_call h h'"
    using handle_ws_text_length [OF t l] handle_ws_text_service [OF t] by blast
next
  fix s on assume "queues_bounded contents s"
  then show "queues_bounded contents (svc_streaming (can_service Q E parse) on s)"
    using purge_empty
    by (simp add: can_service_def can_bridge_set_rx_streaming_def queues_bounded_def Let_def)
qed

context can_world
begin

lemma bridge_is_service:
  "bridge_service (can_service Q E parse) (queues_bounded contents) (\<lambda>b. length (contents (can_rx_queue b)))"
  by unfold_locales

end

section \<open>A session\<close>

text \<open>Reading moves the client forward on its stream and makes no other call.\<close>

definition ws_reads :: "nat \<Rightarrow> websocket_client \<Rightarrow> hist \<Rightarrow> websocket_client \<Rightarrow> hist \<Rightarrow> bool" where
  "ws_reads base c h c' h' \<longleftrightarrow> ws_inv base c' h' \<and> prefix (ws_taken base c h) (ws_taken base c' h') \<and>
     extends (recvs_from (wc_fd c)) h h' \<and> (\<exists>pos. c' = c\<lparr>wc_pending_pos := pos\<rparr>)"

lemma ws_reads_refl: "ws_inv base c h \<Longrightarrow> ws_reads base c h c h"
  unfolding ws_reads_def by (metis extends_refl prefix_order.order_refl websocket_client.surjective
      websocket_client.update_convs(4))

lemma ws_reads_trans: "ws_reads base c h c1 h1 \<Longrightarrow> ws_reads base c1 h1 c2 h2 \<Longrightarrow> ws_reads base c h c2 h2"
  unfolding ws_reads_def
  by (auto intro: prefix_order.trans extends_trans)

lemma ws_reads_inv: "ws_reads base c h c' h' \<Longrightarrow> ws_inv base c' h'"
  by (simp add: ws_reads_def)

context sockets
begin

lemma ws_recv_exact_reads:
  assumes "ws_recv_exact E client len h = ((r, buf), c', h')" and "ws_inv base client h"
  shows "ws_reads base client h c' h'" and "r = 0 \<Longrightarrow> length buf = len"
    and "ws_taken base c' h' = ws_taken base client h @ buf"
  using ws_recv_exact_spec [OF assms] by (auto simp: ws_reads_def)

lemma ws_read_payload_reads:
  assumes i: "ws_inv base client h" and p: "ws_read_payload E client opcode masked n h = (i, c', h')"
  shows "ws_reads base client h c' h'"
proof -
  obtain r1 b1 c1 h1 where r1: "ws_recv_exact E client 4 h = ((r1, b1), c1, h1)"
    by (metis prod.exhaust)
  obtain r2 b2 c2 h2 where r2: "ws_recv_exact E c1 n h1 = ((r2, b2), c2, h2)"
    by (metis prod.exhaust)
  note x1 = ws_recv_exact_reads(1) [OF r1 i]
  note x2 = ws_recv_exact_reads(1) [OF r2 ws_reads_inv [OF x1]]
  show ?thesis
    using p r1 r2 x1 ws_reads_trans [OF x1 x2] ws_reads_refl [OF i]
    by (auto simp: ws_read_payload_def split: if_splits)
qed

lemma ws_read_frame_reads:
  assumes i: "ws_inv base client h" and p: "ws_read_frame E client h = (inp, c', h')"
  shows "ws_reads base client h c' h'"
    and "inp \<noteq> Ws_failed \<Longrightarrow> length (ws_taken base client h) < length (ws_taken base c' h')"
proof -
  obtain r1 b1 c1 h1 where r1: "ws_recv_exact E client 2 h = ((r1, b1), c1, h1)"
    by (metis prod.exhaust)
  obtain r2 b2 c2 h2 where r2: "ws_recv_exact E c1 2 h1 = ((r2, b2), c2, h2)"
    by (metis prod.exhaust)
  note x1 = ws_recv_exact_reads [OF r1 i]
  note x2 = ws_recv_exact_reads(1) [OF r2 ws_reads_inv [OF x1(1)]]
  note y1 = ws_read_payload_reads [OF ws_reads_inv [OF x1(1)]]
  note y2 = ws_read_payload_reads [OF ws_reads_inv [OF x2]]
  have c1: "ws_reads base c1 h1 c' h'" if "0 \<le> r1"
    using p r1 r2 x2 y1 ws_reads_trans [OF x2 y2] ws_reads_refl [OF ws_reads_inv [OF x1(1)]] that
    by (auto simp: ws_read_frame_def Let_def split: if_splits)
  have c2: "inp = Ws_failed" "c' = c1" "h' = h1" if "r1 < 0"
    using p r1 that by (auto simp: ws_read_frame_def)
  show "ws_reads base client h c' h'"
    using c1 c2 ws_reads_trans [OF x1(1)] x1(1) by (cases "r1 < 0") auto
  assume "inp \<noteq> Ws_failed"
  then have "0 \<le> r1" using c2 by force
  moreover have "r1 \<le> 0" using ws_recv_exact_spec(3) [OF r1 i] .
  ultimately have "length b1 = 2" using x1(2) by simp
  then show "length (ws_taken base client h) < length (ws_taken base c' h')"
    using x1(3) c1 [OF \<open>0 \<le> r1\<close>] by (auto simp: ws_reads_def dest!: prefix_length_le)
qed

end

context bridge_service
begin

lemma answer_session:
  assumes E: "sockets E" and a: "ws_answer svc E fd inp s resp h = (go_on, s', resp', h')"
    and "okay s" and "length resp < WS_RESPONSE_MAX"
  shows "okay s'" and "length resp' < WS_RESPONSE_MAX" and "extends (talk_call fd) h h'"
    and "go_on \<Longrightarrow> inp \<noteq> Ws_failed"
proof -
  define P where "P v \<longleftrightarrow> (case v of (go_on, s', resp', h') \<Rightarrow>
    okay s' \<and> length resp' < WS_RESPONSE_MAX \<and> extends (talk_call fd) h h' \<and> (go_on \<longrightarrow> inp \<noteq> Ws_failed))"
    for v :: "bool \<times> 's \<times> string \<times> hist"
  have sd: "extends (talk_call fd) h1 (snd (send_websocket_frame E fd opcode payload h1))" for opcode payload h1
    using sockets.send_websocket_frame_sent(1) [OF E] talk_extends(2) by (metis prod.collapse)
  have "P (ws_answer svc E fd inp s resp h)"
  proof (cases inp)
    case (Ws_message opcode payload)
    obtain r resp1 s1 h1 where t: "svc_handle_text svc s payload WS_RESPONSE_MAX resp h = ((r, resp1), s1, h1)"
      by (metis prod.exhaust)
    note x = handle_text [OF t assms(3,4)]
    obtain r2 h2 where f: "send_websocket_frame E fd WS_OPCODE_TEXT (to_bytes resp1) h1 = (r2, h2)"
      by force
    have "extends (talk_call fd) h h2"
      using x f sd [of h1 WS_OPCODE_TEXT "to_bytes resp1"] talk_extends(1) extends_trans by (metis snd_conv)
    then show ?thesis
      using Ws_message t f x sd assms(3,4) by (simp add: ws_answer_def P_def)
  qed (simp_all add: ws_answer_def P_def sd assms(3,4))
  then show "okay s'" and "length resp' < WS_RESPONSE_MAX" and "extends (talk_call fd) h h'"
    and "go_on \<Longrightarrow> inp \<noteq> Ws_failed"
    using a by (simp_all add: P_def)
qed

text \<open>
  A turn always returns and keeps the service in order; it reads a frame between calls that read nothing,
  unless it ends the session before or the poll has timed out.
\<close>

lemma turn_returns:
  assumes E: "sockets E" and ok: "okay s" and l: "length resp < WS_RESPONSE_MAX"
  shows "\<exists>go_on client' s' resp' h'. websocket_turn svc E client s resp h = Some (go_on, client', s', resp', h') \<and>
    okay s' \<and> length resp' < WS_RESPONSE_MAX \<and>
    ((go_on \<longrightarrow> timed_out E (wc_fd client) h h') \<and> client' = client \<and>
       extends (talk_call (wc_fd client)) h h' \<or>
     (\<exists>h1 inp h2. extends (talk_call (wc_fd client)) h h1 \<and> ws_read_frame E client h1 = (inp, client', h2) \<and>
       (go_on \<longrightarrow> inp \<noteq> Ws_failed) \<and> extends (talk_call (wc_fd client)) h2 h'))"
proof -
  let ?fd = "wc_fd client"
  obtain go1 s1 resp1 h1 where d: "drain_rx svc E ?fd s resp h = Some (go1, s1, resp1, h1)" and
    d': "okay s1" "length resp1 < WS_RESPONSE_MAX" "extends (talk_call ?fd) h h1"
    and q: "timeouts ?fd h1 = timeouts ?fd h"
    using drain_returns [OF E ok l] serve_extends(3) serve_timeouts by blast
  define poll where "poll = (if wc_pending_len client \<le> wc_pending_pos client
    then Some (env_poll E h1 ?fd) else None)"
  define h2 where "h2 = (case poll of None \<Rightarrow> h1 | Some r \<Rightarrow> h1 @ [Sock_poll ?fd r])"
  have e2: "extends (talk_call ?fd) h h2"
    using d'(3) by (auto simp: h2_def talk_call_def split: option.splits intro!: extends_snoc)
  obtain inp client1 h3 where f: "ws_read_frame E client h2 = (inp, client1, h3)" by (metis prod.exhaust)
  obtain go2 s2 resp2 h4 where a: "ws_answer svc E ?fd inp s1 resp1 h3 = (go2, s2, resp2, h4)"
    by (metis prod.exhaust)
  note an = answer_session [OF E a d'(1,2)]
  have t: "websocket_turn svc E client s resp h =
    (if \<not> go1 then Some (False, client, s1, resp1, h1)
     else case poll of Some (Inl e) \<Rightarrow> Some (False, client, s1, resp1, h2)
       | Some (Inr False) \<Rightarrow> Some (True, client, s1, resp1, h2)
       | _ \<Rightarrow> Some (go2, client1, s2, resp2, h4))"
    using d f a by (auto simp: websocket_turn_def poll_def [symmetric] h2_def Let_def
        split: option.splits sum.splits bool.splits)
  have rd: "\<exists>h1 inp h2. extends (talk_call ?fd) h h1 \<and> ws_read_frame E client h1 = (inp, client1, h2) \<and>
      (go2 \<longrightarrow> inp \<noteq> Ws_failed) \<and> extends (talk_call ?fd) h2 h4"
    using e2 f an by blast
  have to: "poll = Some (Inr False) \<Longrightarrow> timed_out E ?fd h h2"
    using q by (auto simp: poll_def h2_def timed_out_def split: if_splits)
  show ?thesis
    unfolding t using d' an(1,2) e2 rd to
    by (cases go1; cases poll; (cases "the poll")?) (auto split: bool.splits)
qed

end

text \<open>What a session leaves on the other connections, and of its own until it is closed.\<close>

context bridge_service
begin

lemma turn_session:
  assumes E: "sockets E" and "okay s" and "length resp < WS_RESPONSE_MAX" and i: "ws_inv base client h"
  shows "\<exists>go_on client' s' resp' h'. websocket_turn svc E client s resp h = Some (go_on, client', s', resp', h') \<and>
    okay s' \<and> length resp' < WS_RESPONSE_MAX \<and> ws_inv base client' h' \<and>
    (\<exists>pos. client' = client\<lparr>wc_pending_pos := pos\<rparr>) \<and>
    prefix (ws_taken base client h) (ws_taken base client' h') \<and>
    extends (session_call (wc_fd client)) h h' \<and>
    (go_on \<longrightarrow> length (ws_taken base client h) < length (ws_taken base client' h') \<or>
      timed_out E (wc_fd client) h h')"
proof -
  have talk: "ws_inv base c h2 = ws_inv base c h1 \<and> ws_taken base c h2 = ws_taken base c h1"
    if "extends (talk_call fd) h1 h2" for c h1 h2 fd
    using talk_recvd [OF that] by (simp add: ws_inv_def ws_taken_def)
  obtain go_on client' s' resp' h' where t:
    "websocket_turn svc E client s resp h = Some (go_on, client', s', resp', h')" "okay s'"
    "length resp' < WS_RESPONSE_MAX" and
    r: "(go_on \<longrightarrow> timed_out E (wc_fd client) h h') \<and> client' = client \<and>
       extends (talk_call (wc_fd client)) h h' \<or>
     (\<exists>h1 inp h2. extends (talk_call (wc_fd client)) h h1 \<and> ws_read_frame E client h1 = (inp, client', h2) \<and>
       (go_on \<longrightarrow> inp \<noteq> Ws_failed) \<and> extends (talk_call (wc_fd client)) h2 h')"
    using turn_returns [OF assms(1-3), of client h] by blast
  from r have "ws_inv base client' h' \<and> (\<exists>pos. client' = client\<lparr>wc_pending_pos := pos\<rparr>) \<and>
    prefix (ws_taken base client h) (ws_taken base client' h') \<and>
    extends (session_call (wc_fd client)) h h' \<and>
    (go_on \<longrightarrow> length (ws_taken base client h) < length (ws_taken base client' h') \<or>
      timed_out E (wc_fd client) h h')"
  proof (elim disjE conjE exE)
    assume e: "extends (talk_call (wc_fd client)) h h'" and c: "client' = client"
      and g: "go_on \<longrightarrow> timed_out E (wc_fd client) h h'"
    have "\<exists>pos. client = client\<lparr>wc_pending_pos := pos\<rparr>" by (rule exI [of _ "wc_pending_pos client"]) simp
    then show ?thesis using e c g i talk [OF e] session_extends(1) [OF e] by auto
  next
    fix h1 inp h2
    assume e1: "extends (talk_call (wc_fd client)) h h1" and f: "ws_read_frame E client h1 = (inp, client', h2)"
      and g: "go_on \<longrightarrow> inp \<noteq> Ws_failed" and e2: "extends (talk_call (wc_fd client)) h2 h'"
    have i1: "ws_inv base client h1" using i talk [OF e1] by simp
    note x = sockets.ws_read_frame_reads [OF E i1 f]
    have e: "extends (recvs_from (wc_fd client)) h1 h2" using x(1) by (simp add: ws_reads_def)
    have "extends (session_call (wc_fd client)) h h'"
      by (rule extends_trans [OF session_extends(1) [OF e1]
          extends_trans [OF session_extends(2) [OF e] session_extends(1) [OF e2]]])
    then show ?thesis
      using x g talk [OF e1] talk [OF e2] by (auto simp: ws_reads_def)
  qed
  then show ?thesis using t by blast
qed

end

text \<open>
  A peer that sends at most \<open>M\<close> bytes in all (it may then close, reset or fall silent in the middle of a
  frame), and that lets the poll of 100 ms time out at most \<open>N\<close> times. Such a session ends: each turn takes
  bytes of the stream or uses up one of the time-outs.
\<close>

definition sends_at_most :: "env \<Rightarrow> int \<Rightarrow> nat \<Rightarrow> bool" where
  "sends_at_most E fd M \<longleftrightarrow>
     (\<forall>h n bs. env_recv E h fd n = Inr bs \<longrightarrow> length (recvd fd h) \<le> M \<longrightarrow> length (recvd fd h) + length bs \<le> M)"

definition pauses_at_most :: "env \<Rightarrow> int \<Rightarrow> nat \<Rightarrow> bool" where
  "pauses_at_most E fd N \<longleftrightarrow> (\<forall>h. env_poll E h fd = Inr False \<longrightarrow> timeouts fd h < N)"

lemma recv_rest_most:
  assumes M: "sends_at_most E fd M"
  shows "length (recvd fd h) \<le> M \<Longrightarrow> recv_rest E fd buf len h = ((r, buf'), h') \<Longrightarrow> length (recvd fd h') \<le> M"
proof (induction "len - length buf" arbitrary: buf h rule: less_induct)
  case less
  note unf = recv_rest.simps [of E fd buf len h]
  show ?case
  proof (cases "len \<le> length buf")
    case True
    then show ?thesis using less.prems by simp
  next
    case False
    show ?thesis
    proof (cases "env_recv E h fd (len - length buf)")
      case (Inl e)
      then show ?thesis using less.prems False by (auto simp: unf zsock_recv_def Let_def)
    next
      case (Inr bs)
      let ?h = "h @ [Sock_recv fd (len - length buf) (Inr bs)]"
      have d: "length (recvd fd ?h) \<le> M" using M Inr less.prems(1) unfolding sends_at_most_def by simp
      show ?thesis
      proof (cases "bs = []")
        case True
        then show ?thesis using less.prems False Inr d by (auto simp: unf zsock_recv_def Let_def)
      next
        case ne: False
        then have "len - length (buf @ bs) < len - length buf" using False by (cases bs) auto
        moreover have "recv_rest E fd (buf @ bs) len ?h = ((r, buf'), h')"
          using less.prems(2) False Inr ne by (simp add: unf zsock_recv_def Let_def)
        ultimately show ?thesis using less.hyps d by blast
      qed
    qed
  qed
qed

lemma ws_recv_exact_most:
  "ws_recv_exact E client len h = (res, c', h') \<Longrightarrow> sends_at_most E (wc_fd client) M \<Longrightarrow>
    length (recvd (wc_fd client) h) \<le> M \<Longrightarrow> length (recvd (wc_fd client) h') \<le> M \<and> wc_fd c' = wc_fd client"
  using recv_rest_most by (cases res) (auto simp: ws_recv_exact_def Let_def split: prod.splits)

lemma ws_read_payload_most:
  "ws_read_payload E client opcode masked n h = (inp, c', h') \<Longrightarrow> sends_at_most E (wc_fd client) M \<Longrightarrow>
    length (recvd (wc_fd client) h) \<le> M \<Longrightarrow> length (recvd (wc_fd client) h') \<le> M"
  by (auto simp: ws_read_payload_def Let_def split: prod.splits if_splits dest!: ws_recv_exact_most)

lemma ws_read_frame_most:
  "ws_read_frame E client h = (inp, c', h') \<Longrightarrow> sends_at_most E (wc_fd client) M \<Longrightarrow>
    length (recvd (wc_fd client) h) \<le> M \<Longrightarrow> length (recvd (wc_fd client) h') \<le> M"
  by (auto simp: ws_read_frame_def Let_def split: prod.splits if_splits
      dest!: ws_recv_exact_most ws_read_payload_most)

context bridge_service
begin

lemma turn_most:
  assumes "sockets E" and "okay s" and "length resp < WS_RESPONSE_MAX"
    and "sends_at_most E (wc_fd client) M" and "length (recvd (wc_fd client) h) \<le> M"
    and "websocket_turn svc E client s resp h = Some (go_on, client', s', resp', h')"
  shows "length (recvd (wc_fd client) h') \<le> M"
  using turn_returns [OF assms(1-3), of client h] assms(4-)
  by (auto dest!: talk_recvd [where fd' = "wc_fd client"] ws_read_frame_most)

lemma session_ends:
  assumes E: "sockets E" and M: "sends_at_most E fd M" and N: "pauses_at_most E fd N"
  shows "okay s \<Longrightarrow> length resp < WS_RESPONSE_MAX \<Longrightarrow> ws_inv base client h \<Longrightarrow> wc_fd client = fd \<Longrightarrow>
    length (recvd fd h) \<le> M \<Longrightarrow>
    \<exists>s' h'. websocket_echo_loop svc E client s resp h = Some (s', h') \<and> okay s' \<and> extends (session_call fd) h h'"
proof (induction "(length (wc_pending client) + M - length (ws_taken base client h)) + (N - timeouts fd h)"
    arbitrary: client s resp h rule: less_induct)
  case less
  obtain go_on client' s' resp' h' where t:
    "websocket_turn svc E client s resp h = Some (go_on, client', s', resp', h')" "okay s'"
    "length resp' < WS_RESPONSE_MAX" "ws_inv base client' h'" "extends (session_call fd) h h'"
    "prefix (ws_taken base client h) (ws_taken base client' h')"
    "go_on \<longrightarrow> length (ws_taken base client h) < length (ws_taken base client' h') \<or> timed_out E fd h h'" and
    c: "\<exists>pos. client' = client\<lparr>wc_pending_pos := pos\<rparr>"
    using turn_session [OF E less.prems(1-3)] less.prems(4) by blast
  have c: "wc_fd client' = fd" "wc_pending client' = wc_pending client"
    using c less.prems(4) by auto
  have p: "length (recvd fd h') \<le> M"
    using turn_most [OF E less.prems(1,2) _ _ t(1)] M less.prems(4,5) by simp
  show ?case
  proof (cases go_on)
    case False
    then show ?thesis using t by (simp add: websocket_echo_loop.simps [of svc E client])
  next
    case True
    let ?m = "\<lambda>c h. length (wc_pending c) + M - length (ws_taken base c h) + (N - timeouts fd h)"
    have b: "length (ws_taken base client' h') \<le> length (wc_pending client) + M"
      using p c by (simp add: ws_taken_def)
    have le: "length (ws_taken base client h) \<le> length (ws_taken base client' h')" "timeouts fd h \<le> timeouts fd h'"
      using prefix_length_le [OF t(6)] extends_timeouts [OF t(5)] .
    have "timed_out E fd h h' \<Longrightarrow> timeouts fd h < N \<and> timeouts fd h' = Suc (timeouts fd h)"
      using N by (auto simp: timed_out_def pauses_at_most_def)
    then have "?m client' h' < ?m client h"
      using t(7) True le b c(2) by auto
    then have "\<exists>s2 h2. websocket_echo_loop svc E client' s' resp' h' = Some (s2, h2) \<and> okay s2 \<and>
        extends (session_call fd) h' h2"
      using less.hyps [of client' h' s' resp'] t c p by simp
    then show ?thesis
      using t True extends_trans [OF t(5)] by (auto simp: websocket_echo_loop.simps [of svc E client])
  qed
qed

end

text \<open>
  A peer that keeps the connection open and says nothing: as long as no frame is received from the bus, every
  turn is a poll that times out, and the loop never ends.
\<close>

lemma silent_turn:
  assumes "mq_get Q (can_rx_queue b) = None" and "wc_pending_len client \<le> wc_pending_pos client"
    and "env_poll E h (wc_fd client) = Inr False"
  shows "websocket_turn (can_service Q E parse) E client b resp h =
    Some (True, client, b, resp, h @ [Sock_poll (wc_fd client) (Inr False)])"
  using assms by (simp add: websocket_turn_def can_bridge_format_next_rx_def EAGAIN_def
      drain_rx.simps [of "can_service Q E parse" E "wc_fd client" b resp h] Let_def)

lemma silent_session:
  assumes q: "mq_get Q (can_rx_queue b) = None" and p: "wc_pending_len client \<le> wc_pending_pos client"
    and silent: "\<And>k. env_poll E (h0 @ replicate k (Sock_poll (wc_fd client) (Inr False))) (wc_fd client) = Inr False"
  shows "websocket_echo_loop (can_service Q E parse) E client b resp h0 = None"
proof (rule ccontr)
  let ?svc = "can_service Q E parse" and ?c = "Sock_poll (wc_fd client) (Inr False)"
  assume "websocket_echo_loop ?svc E client b resp h0 \<noteq> None"
  then obtain y where y: "websocket_echo_loop ?svc E client b resp h0 = Some y" by blast
  have "\<not> ((\<exists>k. h0 = h0 @ replicate k ?c) \<and> (?svc, E, client, b, resp) = (?svc, E, client, b, resp))"
  proof (rule websocket_echo_loop.raw_induct [OF _ y, where P = "\<lambda>svc' E' client' b' resp' h y.
      \<not> ((\<exists>k. h = h0 @ replicate k ?c) \<and> (svc', E', client', b', resp') = (?svc, E, client, b, resp))"])
    fix loop svc' E' client' b' resp' h y'
    assume IH: "\<And>svc' E' client' b' resp' h y. loop svc' E' client' b' resp' h = Some y \<Longrightarrow>
        \<not> ((\<exists>k. h = h0 @ replicate k ?c) \<and> (svc', E', client', b', resp') = (?svc, E, client, b, resp))"
      and step: "(case websocket_turn svc' E' client' b' resp' h of None \<Rightarrow> None
        | Some (go_on, client1, s1, response1, h1) \<Rightarrow>
            if go_on then loop svc' E' client1 s1 response1 h1 else Some (s1, h1)) = Some y'"
    show "\<not> ((\<exists>k. h = h0 @ replicate k ?c) \<and> (svc', E', client', b', resp') = (?svc, E, client, b, resp))"
    proof
      assume a: "(\<exists>k. h = h0 @ replicate k ?c) \<and> (svc', E', client', b', resp') = (?svc, E, client, b, resp)"
      then obtain k where k: "h = h0 @ replicate k ?c" by blast
      have "loop ?svc E client b resp (h @ [?c]) = Some y'"
        using step a silent_turn [OF q p silent, of parse resp k] k by simp
      from IH [OF this] have "\<nexists>k. h @ [?c] = h0 @ replicate k ?c" by simp
      moreover have "h @ [?c] = h0 @ replicate (Suc k) ?c" using k by (simp add: replicate_append_same)
      ultimately show False by blast
    qed
  qed
  moreover have "\<exists>k. h0 = h0 @ replicate k ?c" by (rule exI [of _ 0]) simp
  ultimately show False by simp
qed

section \<open>The upgrade\<close>

lemma upgrade_text_length: "length (upgrade_text accept) = 101 + length accept"
  by (simp add: upgrade_text_def)

text \<open>The upgrade as the protocol has it, for a request with a blank line.\<close>

definition upgrade_key :: "string \<Rightarrow> string option" where
  "upgrade_key request =
     (case header_field request ''Sec-WebSocket-Key'' of
        None \<Rightarrow> None
      | Some key \<Rightarrow> if key = [] \<or> 64 < length key then None else Some key)"

lemma build_accept_key:
  assumes "[] \<in> set (tl (lines request))"
  shows "build_websocket_accept request 32 =
    (case upgrade_key request of None \<Rightarrow> (err EINVAL, []) | Some key \<Rightarrow> (0, accept_key key))"
  using build_websocket_accept_spec [OF assms, of 32] by (auto simp: upgrade_key_def split: option.splits)

context sockets
begin

lemma handle_websocket_spec:
  assumes l: "[] \<in> set (tl (lines request))" and a: "\<not> ws_active w"
    and r: "handle_websocket svc E fd request pending n w h = (r, w', h')"
    and n: "n \<le> length pending"
  shows "(case upgrade_key request of
      None \<Rightarrow> r = err EINVAL \<and> w' = w \<and> h' = h
    | Some key \<Rightarrow>
        (\<exists>p. prefix p (to_bytes (upgrade_text (accept_key key))) \<and> sent fd h' = sent fd h @ p \<and>
          (r = 0 \<longleftrightarrow> p = to_bytes (upgrade_text (accept_key key)))) \<and>
        (r = 0 \<longrightarrow> ws_active w' \<and> ws_bridge w' = svc_streaming svc True (ws_bridge w) \<and>
          wc_fd (ws_client w') = fd \<and> wc_pending (ws_client w') = take (min n HTTP_REQUEST_MAX) pending \<and>
          ws_inv (length (recvd fd h)) (ws_client w') h' \<and>
          (\<exists>h1. extends (sends_to fd) h h1 \<and> h' = h1 @ [K_thread_create Ws_thread])) \<and>
        (r < 0 \<longrightarrow> w' = w \<and> extends (sends_to fd) h h') \<and> r \<le> 0)"
proof (cases "upgrade_key request")
  case None
  have "w\<lparr>ws_active := False\<rparr> = w" using a by simp
  then show ?thesis
    using None r a build_accept_key [OF l] by (auto simp: handle_websocket_def Let_def)
next
  case (Some key)
  let ?t = "upgrade_text (accept_key key)"
  have t: "snprintk 192 ?t = (int (length ?t), ?t)" "length ?t < 192"
    by (simp_all add: snprintk_def upgrade_text_length)
  obtain r1 h1 where s: "send_all E fd (to_bytes ?t) h = (r1, h1)" by force
  note x = send_all_sent [OF s] send_all_extends [OF s]
  have rc: "recvd fd h1 = recvd fd h" using x(2) by (rule extends_keeps) simp
  have wa: "w\<lparr>ws_active := False\<rparr> = w" using a by simp
  show ?thesis
  proof (cases "r1 < 0")
    case True
    have "r = r1 \<and> w' = w \<and> h' = h1"
      using r a build_accept_key [OF l] Some t s True wa by (simp add: handle_websocket_def Let_def)
    then show ?thesis using x Some True by auto
  next
    case False
    have "r = 0 \<and> h' = h1 @ [K_thread_create Ws_thread] \<and> w' = w\<lparr>ws_active := True,
        ws_client := \<lparr>wc_fd = fd, wc_pending = take (min n HTTP_REQUEST_MAX) pending,
          wc_pending_len = min n HTTP_REQUEST_MAX, wc_pending_pos = 0\<rparr>,
        ws_bridge := svc_streaming svc True (ws_bridge w)\<rparr>"
      using r a build_accept_key [OF l] Some t s False by (simp add: handle_websocket_def Let_def)
    then show ?thesis using x Some False rc n by (auto simp: ws_inv_def)
  qed
qed

end

section \<open>Properties\<close>

text \<open>
  C9: one turn of a session with the CAN bridge behind it always returns, and whatever the peer sends, it makes no
  call on any other connection and closes none, keeps both queues within their eight frames and the
  reader's position on its stream.
\<close>

theorem websocket_turn_confined:
  assumes "sockets E" and "can_world Q contents E parse" and "queues_bounded contents b"
    and "length resp < WS_RESPONSE_MAX" and "ws_inv base client h"
  shows "\<exists>go_on client' b' resp' h'.
    websocket_turn (can_service Q E parse) E client b resp h = Some (go_on, client', b', resp', h') \<and>
    queues_bounded contents b' \<and> length resp' < WS_RESPONSE_MAX \<and> ws_inv base client' h' \<and>
    prefix (ws_taken base client h) (ws_taken base client' h') \<and>
    (\<forall>fd'. closes fd' h' = closes fd' h) \<and>
    (\<forall>fd'. fd' \<noteq> wc_fd client \<longrightarrow> sent fd' h' = sent fd' h \<and> recvd fd' h' = recvd fd' h)"
proof -
  have S: "bridge_service (can_service Q E parse) (queues_bounded contents) (\<lambda>b. length (contents (can_rx_queue b)))"
    using assms(2) by (rule can_world.bridge_is_service)
  obtain go_on client' b' resp' h' where
    t: "websocket_turn (can_service Q E parse) E client b resp h = Some (go_on, client', b', resp', h')"
    "queues_bounded contents b'" "length resp' < WS_RESPONSE_MAX" "ws_inv base client' h'"
    "prefix (ws_taken base client h) (ws_taken base client' h')" and
    e: "extends (session_call (wc_fd client)) h h'"
    using bridge_service.turn_session [OF S assms(1,3-5)] by blast
  show ?thesis using t session_frame [OF e] by blast
qed


text \<open>
  C23: without such bounds it need not end. A client that has been upgraded and then keeps its connection open without
  sending anything holds the only place for good: as long as no frame arrives from the bus each turn is a poll
  that times out, the thread never returns (so it neither closes the connection nor clears \<open>ws_active\<close>), and every
  other upgrade is refused with \<open>-EBUSY\<close>. There is no idle time-out and no ping of the server's own.
\<close>

theorem silent_peer_keeps_place:
  assumes "message_queue Q contents CAN_QUEUE_LEN" and "ws_active w"
    and "contents (can_rx_queue (ws_bridge w)) = []"
    and "wc_pending_len (ws_client w) \<le> wc_pending_pos (ws_client w)"
    and "\<And>k. env_poll E (h @ replicate k (Sock_poll (wc_fd (ws_client w)) (Inr False))) (wc_fd (ws_client w)) = Inr False"
  shows "websocket_thread (can_service Q E parse) E junk w h = None \<and>
    handle_websocket (can_service Q E parse) E fd2 request pending n w h2 = (err EBUSY, w, h2)"
proof -
  have "mq_get Q (can_rx_queue (ws_bridge w)) = None"
    using message_queue.get_None [OF assms(1)] assms(3) by blast
  from silent_session [OF this assms(4,5)] show ?thesis
    using assms(2) by (simp add: websocket_thread_def handle_websocket_def)
qed

text \<open>A session on the demo bridge: the peer sends the demo request as a masked frame and goes.\<close>

definition demo_frame :: "u8 list" where
  "demo_frame = client_frame 0x81 [1, 2, 3, 4] demo_request"

definition demo_client :: websocket_client where
  "demo_client = \<lparr>wc_fd = 4, wc_pending = [], wc_pending_len = 0, wc_pending_pos = 0\<rparr>"

definition demo_session :: "can_frame list can_bridge ws_state" where
  "demo_session = \<lparr>ws_active = True, ws_client = demo_client, ws_bridge = demo_bridge\<rparr>"

interpretation demo_ws: can_world "list_msgq CAN_QUEUE_LEN" "\<lambda>q. q" "board_peer fd data" ref_parse for fd data
  unfolding board_peer_def by unfold_locales

lemma board_peer_poll: "env_poll (board_peer fd data) h fd' = Inr True"
  by (simp add: board_peer_def board_def)


theorem websocket_turn_confined_witness:
  "\<exists>go_on client' b' resp' h'.
    websocket_turn (can_service (list_msgq CAN_QUEUE_LEN) (board_peer 4 demo_frame) ref_parse)
      (board_peer 4 demo_frame) demo_client demo_bridge [] [] = Some (go_on, client', b', resp', h') \<and>
    queues_bounded (\<lambda>q. q) b' \<and> closes 4 h' = 0 \<and> sent 5 h' = []"
proof -
  have i: "ws_inv 0 demo_client []" and fd: "wc_fd demo_client = 4" and l: "length [] < WS_RESPONSE_MAX"
    by (simp_all add: ws_inv_def demo_client_def WS_RESPONSE_MAX_def)
  obtain go_on client' b' resp' h' where t:
    "websocket_turn (can_service (list_msgq CAN_QUEUE_LEN) (board_peer 4 demo_frame) ref_parse)
      (board_peer 4 demo_frame) demo_client demo_bridge [] [] = Some (go_on, client', b', resp', h')"
    "queues_bounded (\<lambda>q. q) b'" "closes 4 h' = closes 4 []" and
    c: "\<forall>fd'. fd' \<noteq> wc_fd demo_client \<longrightarrow> sent fd' h' = sent fd' [] \<and> recvd fd' h' = recvd fd' []"
    using websocket_turn_confined [OF board_ws.sockets_axioms demo_ws.can_world_axioms demo_bounded l i]
    by blast
  have "closes 4 h' = 0" "sent 5 h' = []" using t(3) c fd by simp_all
  then show ?thesis using t(1,2) by blast
qed


theorem silent_peer_keeps_place_witness:
  "\<exists>E. websocket_thread (can_service (list_msgq CAN_QUEUE_LEN) E ref_parse) E [] demo_session [] = None \<and>
    handle_websocket (can_service (list_msgq CAN_QUEUE_LEN) E ref_parse) E 5 sample_request [] 0 demo_session [] =
      (err EBUSY, demo_session, [])"
proof -
  let ?E = "board (\<lambda>h. [])\<lparr>env_poll := \<lambda>h fd. Inr False\<rparr>"
  have q: "can_rx_queue (ws_bridge demo_session) = []" by code_simp
  have m: "message_queue (list_msgq CAN_QUEUE_LEN) (\<lambda>q. q) CAN_QUEUE_LEN"
    using demo_ws.can_world_axioms by (simp add: can_world_def)
  have w: "ws_active demo_session" "wc_pending_len (ws_client demo_session) \<le> wc_pending_pos (ws_client demo_session)"
    by (simp_all add: demo_session_def demo_client_def)
  show ?thesis
    by (rule exI [of _ ?E], rule silent_peer_keeps_place [OF m w(1) q w(2)]) simp
qed

text \<open>An acceptable request of the client is queued, and the reply that is sent, or cut off, is its acknowledgement.\<close>

lemma can_tx_answered:
  assumes E: "sockets E" and W: "can_world Q contents E parse" and acc: "ws_accepts contents parse b payload = Some msg"
  shows "\<exists>go_on q ts h' p reply. ws_answer (can_service Q E parse) E fd (Ws_message WS_OPCODE_TEXT payload) b resp h =
      (go_on, b\<lparr>can_tx_queue := q\<rparr>, json_text (tx_doc msg ts), h') \<and>
    contents q = contents (can_tx_queue b) @ [frame_of msg] \<and>
    ws_parse reply = Some (WS_OPCODE_TEXT, to_bytes (json_text (tx_doc msg ts)), []) \<and>
    sent fd h' = sent fd h @ p \<and> prefix p reply \<and> (go_on \<longleftrightarrow> p = reply) \<and> (sends_work E fd \<longrightarrow> go_on) \<and>
    extends (sends_to fd) (h @ [K_uptime ts]) h'"
proof -
  let ?svc = "can_service Q E parse" and ?ts = "env_uptime_us E h"
  let ?doc = "json_text (tx_doc msg ?ts)"
  have n: "256 \<le> WS_RESPONSE_MAX" by (simp add: WS_RESPONSE_MAX_def)
  obtain q where q: "svc_handle_text ?svc b payload WS_RESPONSE_MAX resp h =
      ((0, ?doc), b\<lparr>can_tx_queue := q\<rparr>, h @ [K_uptime ?ts])" "contents q = contents (can_tx_queue b) @ [frame_of msg]"
    using can_world.ws_text_queued [OF W acc n, of resp h] by (auto simp: can_service_def)
  obtain r h3 where w: "send_websocket_frame E fd WS_OPCODE_TEXT (to_bytes ?doc) (h @ [K_uptime ?ts]) = (r, h3)"
    by force
  note x = sockets.send_websocket_frame_sent [OF E w]
  have dl: "length (to_bytes ?doc) \<le> 0xffff"
    using handle_ws_text_length [of Q E parse b payload WS_RESPONSE_MAX "[]" h 0 ?doc]
      can_world.ws_text_queued [OF W acc n, of "[]" h] by (force simp: WS_RESPONSE_MAX_def)
  obtain p where p: "prefix p (ws_frame WS_OPCODE_TEXT (to_bytes ?doc))" "sent fd h3 = sent fd h @ p"
    "r = 0 \<longleftrightarrow> p = ws_frame WS_OPCODE_TEXT (to_bytes ?doc)"
    using x(3) dl by auto
  have "ws_answer ?svc E fd (Ws_message WS_OPCODE_TEXT payload) b resp h = (0 \<le> r, b\<lparr>can_tx_queue := q\<rparr>, ?doc, h3)"
    using q(1) w by (simp add: ws_answer_def fw_defs)
  moreover have "ws_parse (ws_frame WS_OPCODE_TEXT (to_bytes ?doc)) = Some (WS_OPCODE_TEXT, to_bytes ?doc, [])"
    using ws_parse_frame [of WS_OPCODE_TEXT "to_bytes ?doc" "[]"] dl by (simp add: WS_OPCODE_TEXT_def)
  moreover have "0 \<le> r \<longleftrightarrow> p = ws_frame WS_OPCODE_TEXT (to_bytes ?doc)" using x(2) p(3) by auto
  moreover have "sends_work E fd \<longrightarrow> 0 \<le> r"
    using send_frame_works [OF _ dl, of E fd WS_OPCODE_TEXT "h @ [K_uptime ?ts]"] w by auto
  ultimately show ?thesis using q(2) p(1,2) x(1) by blast
qed

text \<open>
  C8: from the bytes of the connection to the queue of the controller: when the next frame on the stream is a
  masked text frame with a request the protocol accepts, and no received frame waits, the turn appends
  exactly that CAN frame to the transmit queue, moves to the byte behind the frame, and answers with a
  frame a client reads as the acknowledgement: all of it goes out unless a send fails, and the session goes on
  if and only if all of it was sent.
\<close>

theorem can_tx_over_websocket:
  assumes "ws_peer E fd data" and "can_world Q contents E parse"
    and "ws_at base data (client_frame 0x81 key payload @ rest) client h" and "length key = 4"
    and "wc_fd client = fd" and "\<And>h. env_poll E h fd = Inr True"
    and "contents (can_rx_queue b) = []" and "ws_accepts contents parse b payload = Some msg"
  shows "\<exists>go_on client' q resp' h' p ts reply.
    websocket_turn (can_service Q E parse) E client b resp h =
      Some (go_on, client', b\<lparr>can_tx_queue := q\<rparr>, resp', h') \<and>
    contents q = contents (can_tx_queue b) @ [frame_of msg] \<and>
    ws_at base data rest client' h' \<and>
    ws_parse reply = Some (WS_OPCODE_TEXT, to_bytes (json_text (tx_doc msg ts)), []) \<and>
    sent fd h' = sent fd h @ p \<and> prefix p reply \<and> (go_on \<longleftrightarrow> p = reply) \<and>
    (sends_work E fd \<longrightarrow> go_on \<and> p = reply)"
proof -
  let ?svc = "can_service Q E parse"
  have E: "sockets E" using assms(1) by (simp add: ws_peer_def)
  have Q: "message_queue Q contents CAN_QUEUE_LEN" using assms(2) by (simp add: can_world_def)
  have "mq_get Q (can_rx_queue b) = None"
    using message_queue.get_None [OF Q] assms(7) by blast
  then have d: "drain_rx ?svc E fd b resp h = Some (True, b, resp, h)"
    by (simp add: drain_rx.simps [of ?svc E fd b resp h] can_bridge_format_next_rx_def)
  define h1 where "h1 = (if wc_pending_len client \<le> wc_pending_pos client then h @ [Sock_poll fd (Inr True)] else h)"
  have h1: "sent fd h1 = sent fd h" "ws_at base data (client_frame 0x81 key payload @ rest) client h1"
    using assms(3,5) by (auto simp: h1_def intro: ws_at_extends)
  have pl: "length payload \<le> WS_MAX_PAYLOAD"
    using assms(8) by (auto simp: ws_accepts_def CAN_WS_JSON_MAX_def WS_MAX_PAYLOAD_def split: prod.splits if_splits)
  have op: "(0x81 AND 0x0f :: u8) = WS_OPCODE_TEXT" by (simp add: WS_OPCODE_TEXT_def)
  obtain client' h2 where f: "ws_read_frame E client h1 = (Ws_message WS_OPCODE_TEXT payload, client', h2)"
    "ws_at base data rest client' h2" "wc_fd client' = fd" "extends (recvs_from fd) h1 h2"
    using ws_peer.ws_read_frame_at [OF assms(1) h1(2) assms(4) pl assms(5)] unfolding op by blast
  have s2: "sent fd h2 = sent fd h" using recvs_sent [OF f(4)] h1(1) by simp
  obtain go_on q ts h3 p reply where a: "ws_answer ?svc E fd (Ws_message WS_OPCODE_TEXT payload) b resp h2 =
      (go_on, b\<lparr>can_tx_queue := q\<rparr>, json_text (tx_doc msg ts), h3)"
    "contents q = contents (can_tx_queue b) @ [frame_of msg]"
    "ws_parse reply = Some (WS_OPCODE_TEXT, to_bytes (json_text (tx_doc msg ts)), [])"
    "sent fd h3 = sent fd h2 @ p" "prefix p reply" "go_on \<longleftrightarrow> p = reply" "sends_work E fd \<longrightarrow> go_on" "extends (sends_to fd) (h2 @ [K_uptime ts]) h3"
    using can_tx_answered [OF E assms(2,8), of fd resp h2] by blast
  have at: "ws_at base data rest client' h3"
    using ws_at_extends [OF f(2), of h3] a(8) f(3) by (simp add: sends_recvd)
  have "websocket_turn ?svc E client b resp h = Some (go_on, client', b\<lparr>can_tx_queue := q\<rparr>, json_text (tx_doc msg ts), h3)"
    using d f(1) a(1) assms(5,6) by (simp add: websocket_turn_def h1_def Let_def split: if_splits)
  then show ?thesis using a(2-7) at s2 by metis
qed

theorem can_tx_over_websocket_witness:
  "\<exists>client' b' resp' h' ts.
    websocket_turn (can_service (list_msgq CAN_QUEUE_LEN) (board_peer 4 demo_frame) ref_parse)
      (board_peer 4 demo_frame) demo_client demo_bridge [] [] = Some (True, client', b', resp', h') \<and>
    can_tx_queue b' = [frame_of demo_msg] \<and>
    ws_parse (sent 4 h') = Some (WS_OPCODE_TEXT, to_bytes (json_text (tx_doc demo_msg ts)), [])"
proof -
  have a: "ws_at 0 demo_frame (client_frame 0x81 [1, 2, 3, 4] demo_request @ []) demo_client []"
    by (simp add: ws_at_def ws_inv_def ws_taken_def demo_client_def demo_frame_def)
  have k: "length [1, 2, 3, 4 :: u8] = 4" "wc_fd demo_client = 4" by (simp_all add: demo_client_def)
  have q: "can_rx_queue demo_bridge = []" "can_tx_queue demo_bridge = []" by code_simp+
  from can_tx_over_websocket [OF board_ws.ws_peer_axioms demo_ws.can_world_axioms a k board_peer_poll q(1) demo_accepts]
  obtain go_on client' tq resp' h' p ts reply where t:
    "websocket_turn (can_service (list_msgq CAN_QUEUE_LEN) (board_peer 4 demo_frame) ref_parse)
      (board_peer 4 demo_frame) demo_client demo_bridge [] [] =
      Some (go_on, client', demo_bridge\<lparr>can_tx_queue := tq\<rparr>, resp', h')"
    "tq = can_tx_queue demo_bridge @ [frame_of demo_msg]"
    "ws_parse reply = Some (WS_OPCODE_TEXT, to_bytes (json_text (tx_doc demo_msg ts)), [])"
    "sent 4 h' = sent 4 [] @ p" "sends_work (board_peer 4 demo_frame) 4 \<longrightarrow> go_on \<and> p = reply"
    by blast
  have "go_on" "p = reply" using t(5) board_sends_work [of _ 4] by (simp_all add: board_peer_def)
  moreover have "can_tx_queue (demo_bridge\<lparr>can_tx_queue := tq\<rparr>) = [frame_of demo_msg]" "sent 4 h' = p"
    using t(2,4) q(2) by simp_all
  ultimately show ?thesis using t(1,3) by auto
qed

text \<open>
  C21: a frame the server does not take (unmasked, with a 64-bit length, or with a payload over 256 bytes) never
  reaches the bridge: the session sends a close frame, the whole of it unless a send fails, and ends, its state
  unchanged.
\<close>

theorem bad_frame_refused:
  assumes "ws_peer E fd data" and "wc_fd client = fd"
    and "ws_at base data ([b0, b1] @ (if b1 AND 0x7f = 126 then ext else []) @ rest) client h"
    and "length ext = 2"
    and "b1 AND 0x80 = 0 \<or> b1 AND 0x7f = 127 \<or> b1 AND 0x7f = 126 \<and> 256 < be_nat ext"
    and "ws_read_frame E client h = (inp, client', h1)"
    and "ws_answer svc E fd inp s resp h1 = (go_on, s', resp', h')"
  shows "inp = Ws_refused \<and> \<not> go_on \<and> s' = s \<and> resp' = resp \<and>
    (\<exists>p. prefix p (ws_frame WS_OPCODE_CLOSE []) \<and> sent fd h' = sent fd h @ p \<and>
      (sends_work E fd \<longrightarrow> p = ws_frame WS_OPCODE_CLOSE []))"
proof -
  have E: "sockets E" using assms(1) by (simp add: ws_peer_def)
  obtain r1 x1 c1 h2 where r1: "ws_recv_exact E client 2 h = ((r1, x1), c1, h2)"
    by (metis prod.exhaust)
  note a1 = ws_peer.ws_recv_exact_at [OF assms(1,3) _ assms(2) r1]
  have b1: "unat (b1 AND 0x7f) = 126 \<longleftrightarrow> b1 AND 0x7f = 126" "unat (b1 AND 0x7f) = 127 \<longleftrightarrow> b1 AND 0x7f = 127"
    by (simp_all add: word_unat_eq_iff)
  have "inp = Ws_refused \<and> extends (recvs_from fd) h h1"
  proof (cases "b1 AND 0x7f = 126")
    case False
    then show ?thesis
      using assms(5,6) r1 a1 b1 by (auto simp: ws_read_frame_def ws_read_payload_def Let_def split: if_splits)
  next
    case True
    obtain r2 x2 c2 h3 where r2: "ws_recv_exact E c1 2 h2 = ((r2, x2), c2, h3)"
      by (metis prod.exhaust)
    have "ws_at base data (ext @ rest) c1 h2" "wc_fd c1 = fd" using a1 True by simp_all
    note a2 = ws_peer.ws_recv_exact_at [OF assms(1) this(1) assms(4) this(2) r2]
    show ?thesis
      using assms(5,6) r1 a1 r2 a2 True b1 extends_trans [of "recvs_from fd" h h2 h3]
      by (auto simp: ws_read_frame_def ws_read_payload_def WS_MAX_PAYLOAD_def Let_def split: if_splits)
  qed
  then have i: "inp = Ws_refused" "sent fd h1 = sent fd h" using recvs_sent by blast+
  obtain r h2 where w: "send_websocket_frame E fd WS_OPCODE_CLOSE [] h1 = (r, h2)" by force
  have "sends_work E fd \<Longrightarrow> r = 0" using send_frame_works [of E fd "[]" WS_OPCODE_CLOSE h1] w by simp
  then show ?thesis
    using i w assms(7) sockets.send_websocket_frame_sent(3) [OF E w] by (auto simp: ws_answer_def)
qed

theorem bad_frame_refused_witness:
  "\<exists>go_on s' resp' client' h1 h'. ws_read_frame (board_peer 4 [0x81, 0x05]) demo_client [] = (Ws_refused, client', h1) \<and>
    ws_answer (can_service (list_msgq CAN_QUEUE_LEN) (board_peer 4 [0x81, 0x05]) ref_parse) (board_peer 4 [0x81, 0x05])
      4 Ws_refused demo_bridge [] h1 = (go_on, s', resp', h') \<and> \<not> go_on \<and> s' = demo_bridge \<and>
    sent 4 h' = [0x88, 0]"
proof -
  let ?E = "board_peer 4 [0x81, 0x05]"
  obtain inp c1 h1 where f: "ws_read_frame ?E demo_client [] = (inp, c1, h1)"
    by (metis prod.exhaust)
  obtain go_on s' resp' h' where a: "ws_answer (can_service (list_msgq CAN_QUEUE_LEN) ?E ref_parse) ?E
      4 inp demo_bridge [] h1 = (go_on, s', resp', h')"
    by (metis prod.exhaust)
  have "ws_at 0 [0x81, 0x05] ([0x81, 0x05] @ (if 0x05 AND 0x7f = (126 :: u8) then [0, 0] else []) @ []) demo_client []"
    by (simp add: ws_at_def ws_inv_def ws_taken_def demo_client_def)
  note x = bad_frame_refused [OF board_ws.ws_peer_axioms _ this _ _ f a]
  have "ws_frame WS_OPCODE_CLOSE [] = [0x88, 0]"
    by (simp add: ws_frame_def ws_frame_header_def WS_OPCODE_CLOSE_def)
  moreover have "sends_work ?E 4" by (simp add: board_peer_def board_sends_work)
  ultimately show ?thesis using x f a by (auto simp: demo_client_def)
qed

lemma upgrade_outcome:
  assumes "sockets E" and "[] \<in> set (tl (lines request))" and "n \<le> length pending"
    and "handle_websocket svc E fd request pending n w h = (r, w', h')"
  shows "if ws_active w then r = err EBUSY \<and> w' = w \<and> h' = h
    else case upgrade_key request of
      None \<Rightarrow> r = err EINVAL \<and> w' = w \<and> h' = h
    | Some key \<Rightarrow>
        (\<exists>p. prefix p (to_bytes (upgrade_text (accept_key key))) \<and> sent fd h' = sent fd h @ p \<and>
          (r = 0 \<longleftrightarrow> p = to_bytes (upgrade_text (accept_key key)))) \<and>
        (if r = 0 then ws_active w' \<and> ws_bridge w' = svc_streaming svc True (ws_bridge w) \<and>
          wc_fd (ws_client w') = fd \<and> wc_pending (ws_client w') = take (min n HTTP_REQUEST_MAX) pending \<and>
          ws_inv (length (recvd fd h)) (ws_client w') h' \<and>
          (\<exists>h1. extends (sends_to fd) h h1 \<and> h' = h1 @ [K_thread_create Ws_thread])
        else r < 0 \<and> w' = w \<and> extends (sends_to fd) h h')"
proof (cases "ws_active w")
  case True
  then show ?thesis using assms(4) by (simp add: handle_websocket_def)
next
  case False
  show ?thesis
    using sockets.handle_websocket_spec [OF assms(1,2) False assms(4,3)] False
    by (auto split: option.splits)
qed

text \<open>
  C11: there is at most one session. While one is active an upgrade is refused with \<open>-EBUSY\<close> and nothing is sent or
  changed. Otherwise the answer to an upgrade request is the 101 response with the accept value of its key:
  if all of it was sent the session is active, streaming and reading behind the request, and its thread has
  been started; if not, or without a usable key, nothing is active and no thread was started.
\<close>

theorem upgrade_exclusive:
  assumes "sockets E" and "[] \<in> set (tl (lines request))" and "n \<le> length pending"
    and "handle_websocket svc E fd request pending n w h = (r, w', h')"
  shows "if ws_active w then r = err EBUSY \<and> w' = w \<and> h' = h
    else case upgrade_key request of
      None \<Rightarrow> r = err EINVAL \<and> w' = w \<and> h' = h
    | Some key \<Rightarrow>
        (\<exists>p. prefix p (to_bytes (upgrade_text (accept_key key))) \<and> sent fd h' = sent fd h @ p \<and>
          (r = 0 \<longleftrightarrow> p = to_bytes (upgrade_text (accept_key key)))) \<and>
        (if r = 0 then ws_active w' \<and> ws_bridge w' = svc_streaming svc True (ws_bridge w) \<and>
          wc_fd (ws_client w') = fd \<and> wc_pending (ws_client w') = take (min n HTTP_REQUEST_MAX) pending \<and>
          ws_inv (length (recvd fd h)) (ws_client w') h' \<and>
          (\<exists>h1. extends (sends_to fd) h h1 \<and> h' = h1 @ [K_thread_create Ws_thread])
        else r < 0 \<and> w' = w \<and> extends (sends_to fd) h h')"
  by (rule upgrade_outcome [OF assms])

lemma board_send_all: "fst (send_all (board inp) fd data h) = 0"
  by (rule send_all_works [OF board_sends_work])

theorem upgrade_exclusive_witness:
  "\<exists>w' h'. handle_websocket (can_service (list_msgq CAN_QUEUE_LEN) (board (\<lambda>h. [])) ref_parse) (board (\<lambda>h. []))
      4 sample_request [1, 2] 2 (demo_session\<lparr>ws_active := False\<rparr>) [] = (0, w', h') \<and>
    ws_active w' \<and> wc_pending (ws_client w') = [1, 2] \<and>
    sent 4 h' = to_bytes (upgrade_text (accept_key ''dGhlIHNhbXBsZSBub25jZQ==''))"
proof -
  let ?w = "demo_session\<lparr>ws_active := False\<rparr>" and ?E = "board (\<lambda>h. [])"
    and ?svc = "can_service (list_msgq CAN_QUEUE_LEN) (board (\<lambda>h. [])) ref_parse"
  obtain r w' h' where u: "handle_websocket ?svc ?E 4 sample_request [1, 2] 2 ?w [] = (r, w', h')"
    by (metis prod.exhaust)
  have l: "[] \<in> set (tl (lines sample_request))" and k: "upgrade_key sample_request = Some ''dGhlIHNhbXBsZSBub25jZQ==''"
    by code_simp+
  have "\<exists>h1. handle_websocket ?svc ?E 4 sample_request [1, 2] 2 ?w [] = (0, h1)"
    using build_accept_key [OF l] k board_send_all
    by (simp add: handle_websocket_def snprintk_def upgrade_text_length split_beta Let_def)
  then have r: "r = 0" using u by simp
  have "wc_pending (ws_client w') = take (min 2 HTTP_REQUEST_MAX) [1, 2] \<and> ws_active w' \<and>
      sent 4 h' = to_bytes (upgrade_text (accept_key ''dGhlIHNhbXBsZSBub25jZQ==''))"
    using upgrade_exclusive [OF board_sockets.sockets_axioms l _ u] k r by auto
  then show ?thesis using u r by (simp add: HTTP_REQUEST_MAX_def)
qed

end
