(* ===== verification/HttpServer.thy ===== *)
theory HttpServer
  imports WebSocket
begin

text \<open>
  The HTTP server of \<open>http_server.c\<close>: reading the request head, the routes of \<open>handle_client\<close>, the accept
  loop of \<open>http_thread\<close> and \<open>http_server_start\<close>. The page \<open>index_html\<close> is a parameter, and so are the
  services of the CAN bridge. The reference for the routes reads the request line as words.
\<close>

section \<open>The code\<close>

definition HTTP_PORT :: nat where [fw_defs]: "HTTP_PORT = 80"
definition USER_INDEX_MAX :: u32 where [fw_defs]: "USER_INDEX_MAX = 524288"

text \<open>
  Reading until the blank line: the peer is gone, the buffer is full without one, or the bytes read and the
  length of the head. The buffer is searched as a C string, so only up to a NUL.
\<close>

datatype request_head = Head_lost | Head_too_large | Head "u8 list" nat

definition header_end :: "u8 list \<Rightarrow> nat option" where
  "header_end buf =
     (let request = c_str (to_chars buf) in
      map_option (\<lambda>e. length request - length e + 4) (strstr request (CRLF @ CRLF)))"

function recv_head :: "env \<Rightarrow> int \<Rightarrow> u8 list \<Rightarrow> hist \<Rightarrow> request_head \<times> hist" where
  "recv_head E fd buf h =
     (if HTTP_REQUEST_MAX - 1 \<le> length buf then (Head_too_large, h)
      else case zsock_recv E fd (HTTP_REQUEST_MAX - 1 - length buf) h of
             (Inl e, h1) \<Rightarrow> (Head_lost, h1)
           | (Inr bs, h1) \<Rightarrow>
               if bs = [] then (Head_lost, h1)
               else (case header_end (buf @ bs) of
                       Some n \<Rightarrow> (Head (buf @ bs) n, h1)
                     | None \<Rightarrow> recv_head E fd (buf @ bs) h1))"
  by pat_completeness auto
termination
  by (relation "measure (\<lambda>(E, fd, buf, h). HTTP_REQUEST_MAX - 1 - length buf)") (auto simp: neq_Nil_conv)

declare recv_head.simps [simp del]

definition request_too_large :: string where
  "request_too_large =
     ''HTTP/1.0 431 Request Header Fields Too Large'' @ CRLF @ ''Connection: close'' @ CRLF @ CRLF"

definition no_content :: string where
  "no_content = ''HTTP/1.0 204 No Content'' @ CRLF @ ''Connection: close'' @ CRLF @ CRLF"

definition user_not_found :: string where
  "user_not_found = ''HTTP/1.0 404 Not Found'' @ CRLF @
     ''Content-Type: text/plain; charset=utf-8'' @ CRLF @ ''Content-Length: 20'' @ CRLF @
     ''Connection: close'' @ CRLF @ CRLF @ ''user page not found'' @ [LF]"

definition not_found :: string where
  "not_found = ''HTTP/1.0 404 Not Found'' @ CRLF @
     ''Content-Type: text/plain; charset=utf-8'' @ CRLF @ ''Content-Length: 10'' @ CRLF @
     ''Connection: close'' @ CRLF @ CRLF @ ''not found'' @ [LF]"

definition text_plain :: string where "text_plain = ''text/plain; charset=utf-8''"
definition text_html :: string where "text_html = ''text/html; charset=utf-8''"

text \<open>The two ways most paths end: a fixed text, or a text response, and the close.\<close>

definition send_and_close :: "env \<Rightarrow> int \<Rightarrow> string \<Rightarrow> hist \<Rightarrow> hist" where
  "send_and_close E fd text h = zsock_close fd (snd (send_all E fd (to_bytes text) h))"

definition respond_and_close :: "env \<Rightarrow> int \<Rightarrow> string \<Rightarrow> string \<Rightarrow> hist \<Rightarrow> hist" where
  "respond_and_close E fd status body h =
     zsock_close fd (snd (send_text_response E fd status text_plain (body @ [LF]) h))"

text \<open>The digits of \<open>Content-Length\<close>, accumulated in a \<open>size_t\<close> of 32 bits; \<open>None\<close> at the first other character.\<close>

fun body_len_loop :: "string \<Rightarrow> u32 \<Rightarrow> u32 option" where
  "body_len_loop [] body_len = Some body_len"
| "body_len_loop (c # cs) body_len =
     (if \<not> is_digit c then None else body_len_loop cs (body_len * 10 + of_nat (digit_val c)))"

definition handle_put ::
  "env \<Rightarrow> int \<Rightarrow> string \<Rightarrow> u8 list \<Rightarrow> nat \<Rightarrow> storage \<Rightarrow> hist \<Rightarrow> storage \<times> hist" where
  "handle_put E fd request buf header_len s h =
     (case find_header_value request ''Content-Length'' of
        None \<Rightarrow> (s, respond_and_close E fd ''411 Length Required'' ''content-length required'' h)
      | Some content_length \<Rightarrow>
      (case body_len_loop (take (header_value_len content_length) content_length) 0 of
         None \<Rightarrow> (s, respond_and_close E fd ''400 Bad Request'' ''invalid content-length'' h)
       | Some body_len \<Rightarrow>
           if USER_INDEX_MAX < body_len then
             (s, respond_and_close E fd ''413 Payload Too Large'' ''user page too large'' h)
           else let pending_len = length buf - header_len in
           if unat body_len < pending_len then
             (s, respond_and_close E fd ''400 Bad Request'' ''body larger than content-length'' h)
           else let reader = \<lparr>rb_fd = fd, rb_pending = drop header_len buf, rb_pending_len = pending_len,
                      rb_pending_pos = 0\<rparr>;
                    (ret, reader1, s1, h1) = storage_write_user_index_stream E (unat body_len)
                      (Some (request_body_read E)) reader s h in
           if ret < 0 then
             (s1, respond_and_close E fd ''500 Internal Server Error'' ''user page write failed'' h1)
           else (s1, respond_and_close E fd ''201 Created'' ''user page written'' h1)))"

definition handle_fs_status :: "env \<Rightarrow> int \<Rightarrow> storage \<Rightarrow> hist \<Rightarrow> storage \<times> hist" where
  "handle_fs_status E fd s h =
     (let ((body_len, body), s1, h1) = storage_format_status_json E 192 s h in
      if body_len < 0 \<or> 192 \<le> body_len then (s1, zsock_close fd h1)
      else let (header_len, header) = snprintk 128 (text_header ''200 OK'' ''application/json'' (nat body_len)) in
      if header_len < 0 \<or> 128 \<le> header_len then (s1, zsock_close fd h1)
      else (s1, zsock_close fd (snd (send_both E fd header body h1))))"

text \<open>The user page; \<open>None\<close> stands for a file that never ends.\<close>

definition handle_user_page :: "env \<Rightarrow> int \<Rightarrow> storage \<Rightarrow> hist \<Rightarrow> (storage \<times> hist) option" where
  "handle_user_page E fd s h =
     (let ((ret, len), s1, h1) = storage_user_index_size E False s h;
          body_len = (case len of None \<Rightarrow> 0 | Some n \<Rightarrow> n) in
      if ret < 0 then Some (s1, send_and_close E fd user_not_found h1)
      else if unat USER_INDEX_MAX < body_len then
        Some (s1, respond_and_close E fd ''413 Payload Too Large'' ''user page too large'' h1)
      else let (header_len, header) = snprintk 128 (text_header ''200 OK'' text_html body_len) in
      if header_len < 0 \<or> 128 \<le> header_len then Some (s1, zsock_close fd h1)
      else let (ret2, h2) = send_all E fd (to_bytes header) h1 in
      if ret2 < 0 then Some (s1, zsock_close fd h2)
      else map_option (\<lambda>(ret3, s2, h3). (s2, zsock_close fd h3))
             (storage_stream_user_index E (Some (socket_write E fd)) s1 h2))"

definition handle_index :: "env \<Rightarrow> string \<Rightarrow> int \<Rightarrow> hist \<Rightarrow> hist" where
  "handle_index E index_html fd h =
     (let (header_len, header) = snprintk 128 (text_header ''200 OK'' text_html (length index_html)) in
      if header_len < 0 \<or> 128 \<le> header_len then zsock_close fd h
      else zsock_close fd (snd (send_both E fd header index_html h)))"

text \<open>The statics of \<open>http_server.c\<close> and what it uses of the other files.\<close>

record 's http_state =
  server_fd :: int
  server_started :: bool
  http_ws :: "'s ws_state"
  http_storage :: storage

definition handle_client ::
  "'s ws_service \<Rightarrow> env \<Rightarrow> string \<Rightarrow> int \<Rightarrow> 's http_state \<Rightarrow> hist \<Rightarrow> ('s http_state \<times> hist) option" where
  "handle_client svc E index_html client_fd st h =
     (case recv_head E client_fd [] h of
        (Head_lost, h1) \<Rightarrow> Some (st, zsock_close client_fd h1)
      | (Head_too_large, h1) \<Rightarrow> Some (st, send_and_close E client_fd request_too_large h1)
      | (Head buf header_len, h1) \<Rightarrow>
          let request = c_str (to_chars buf) in
          if request_is_websocket request then
            (let (ret, w1, h2) = handle_websocket svc E client_fd request (drop header_len buf)
                                   (length buf - header_len) (http_ws st) h1
             in Some (st\<lparr>http_ws := w1\<rparr>, if ret < 0 then zsock_close client_fd h2 else h2))
          else if strncmp_eq request ''PUT /user/index.html '' 21 then
            (let (s1, h2) = handle_put E client_fd request buf header_len (http_storage st) h1
             in Some (st\<lparr>http_storage := s1\<rparr>, h2))
          else if strncmp_eq request ''GET /favicon.ico '' 17 \<or>
                  strncmp_eq request ''GET /apple-touch-icon.png '' 26 \<or>
                  strncmp_eq request ''GET /apple-touch-icon-precomposed.png '' 38 then
            Some (st, send_and_close E client_fd no_content h1)
          else if strncmp_eq request ''GET /fs/status '' 15 then
            (let (s1, h2) = handle_fs_status E client_fd (http_storage st) h1
             in Some (st\<lparr>http_storage := s1\<rparr>, h2))
          else if strncmp_eq request ''GET /user '' 10 \<or> strncmp_eq request ''GET /user/ '' 11 then
            map_option (\<lambda>(s1, h2). (st\<lparr>http_storage := s1\<rparr>, h2))
              (handle_user_page E client_fd (http_storage st) h1)
          else if \<not> strncmp_eq request ''GET / '' 6 \<and> \<not> strncmp_eq request ''GET /index.html '' 16 then
            Some (st, send_and_close E client_fd not_found h1)
          else Some (st, handle_index E index_html client_fd h1))"

text \<open>What the thread does before it serves: the socket is opened, bound and listened on, or closed again.\<close>

definition http_listen :: "env \<Rightarrow> 's http_state \<Rightarrow> hist \<Rightarrow> bool \<times> 's http_state \<times> hist" where
  "http_listen E st h =
     (let r = env_socket E h; h1 = h @ [Sock_socket r] in
      case r of
        Inl e \<Rightarrow> (False, st\<lparr>server_fd := -1\<rparr>, h1)
      | Inr fd \<Rightarrow>
          let b = env_bind E h1; h2 = h1 @ [Sock_bind fd b] in
          if b \<noteq> None then (False, st\<lparr>server_fd := -1\<rparr>, zsock_close fd h2)
          else let l = env_listen E h2; h3 = h2 @ [Sock_listen fd l] in
          if l \<noteq> None then (False, st\<lparr>server_fd := -1\<rparr>, zsock_close fd h3)
          else (True, st\<lparr>server_fd := fd\<rparr>, h3))"

text \<open>One turn of the accept loop, which never ends.\<close>

definition http_turn ::
  "'s ws_service \<Rightarrow> env \<Rightarrow> string \<Rightarrow> 's http_state \<Rightarrow> hist \<Rightarrow> ('s http_state \<times> hist) option" where
  "http_turn svc E index_html st h =
     (let r = env_accept E h; h1 = h @ [Sock_accept (server_fd st) r] in
      case r of
        Inl e \<Rightarrow> Some (st, h1 @ [K_sleep_ms 100])
      | Inr client_fd \<Rightarrow> handle_client svc E index_html client_fd st h1)"

definition http_server_start :: "'s http_state \<Rightarrow> hist \<Rightarrow> int \<times> 's http_state \<times> hist" where
  "http_server_start st h =
     (if server_started st then (0, st, h)
      else (0, st\<lparr>server_started := True\<rparr>, h @ [K_thread_start Http_thread, K_thread_start Mdns_thread]))"

section \<open>The head of a request\<close>

lemma lines_append_CRLF: "lines (a @ CR # LF # b) = lines a @ lines b"
proof (induction a rule: lines.induct)
  case (1 s)
  show ?case
  proof (cases s)
    case Nil
    then show ?thesis by (simp add: lines.simps [of "[]"])
  next
    case (Cons c s')
    show ?thesis
    proof (cases "prefix CRLF s")
      case True
      then obtain t where "s = CR # LF # t" by (auto simp: prefix_CRLF)
      then show ?thesis using 1(1) by simp
    next
      case False
      have "\<not> prefix CRLF (s @ CR # LF # b)" using False Cons by (cases s') (auto simp: prefix_CRLF)
      moreover have "lines (s' @ CR # LF # b) = lines s' @ lines b" using 1(2) Cons False by simp
      ultimately show ?thesis
        using Cons False by (simp add: lines.simps [of "c # s' @ CR # LF # b"] lines.simps [of "c # s'"])
    qed
  qed
qed

lemma blank_line: "[] \<in> set (tl (lines (a @ CRLF @ CRLF @ b)))"
  by (cases "lines a") (simp_all add: lines_append_CRLF)

lemma header_field_head: "header_field (a @ CRLF @ CRLF @ b) name = header_field (a @ CRLF @ CRLF) name"
  by (cases "lines a") (simp_all add: header_field_def lines_append_CRLF lines.simps [of "[]"] takeWhile_tail)

lemma strstr_split: "strstr s n = Some e \<Longrightarrow> \<exists>a. s = a @ e \<and> prefix n e"
  using strstr_Some [of s n e] by (auto simp: suffix_def)

lemma strstr_append: "strstr s n = Some e \<Longrightarrow> strstr (s @ t) n = Some (e @ t)"
proof (induction s)
  case Nil
  then show ?case by (cases t) (auto split: if_splits)
next
  case (Cons a s)
  show ?case
  proof (cases "prefix n (a # s)")
    case True
    then have "e = a # s" and "prefix n ((a # s) @ t)"
      using Cons.prems by (auto intro: prefix_prefix)
    then show ?thesis by simp
  next
    case False
    then have e: "strstr s n = Some e" using Cons.prems by simp
    then have "length n \<le> length (a # s)"
      using strstr_Some [OF e] prefix_length_le suffix_length_le by fastforce
    then have "\<not> prefix n ((a # s) @ t)"
      using False prefix_length_prefix [of n "(a # s) @ t" "a # s"] by auto
    then show ?thesis using Cons.IH [OF e] by simp
  qed
qed

text \<open>The request of a head that has been read whole.\<close>

lemma header_end_blank:
  assumes "header_end buf = Some n"
  shows "[] \<in> set (tl (lines (c_str (to_chars buf))))" and "n \<le> length buf"
proof -
  obtain e where e: "strstr (c_str (to_chars buf)) (CRLF @ CRLF) = Some e"
    and n: "n = length (c_str (to_chars buf)) - length e + 4"
    using assms by (auto simp: header_end_def Let_def)
  obtain a b where s: "c_str (to_chars buf) = a @ CRLF @ CRLF @ b" and eb: "e = CRLF @ CRLF @ b"
    using strstr_split [OF e] by (auto simp: prefix_def)
  show "[] \<in> set (tl (lines (c_str (to_chars buf))))" unfolding s by (rule blank_line)
  have "n = length a + 4" using n s eb by simp
  then have "n \<le> length (c_str (to_chars buf))" using s by simp
  then show "n \<le> length buf" using prefix_length_le [OF c_str_prefix [of "to_chars buf"]] by simp
qed

lemma header_end_append:
  assumes "NUL \<notin> set (to_chars head)" and "header_end head = Some n"
  shows "header_end (head @ x) = Some n"
proof -
  have c: "c_str (to_chars head) = to_chars head" "c_str (to_chars (head @ x)) = to_chars head @ c_str (to_chars x)"
    using assms(1) by (simp_all add: c_str_id c_str_append)
  from assms(2) obtain e where "strstr (to_chars head) (CRLF @ CRLF) = Some e" "n = length head - length e + 4"
    using c by (auto simp: header_end_def Let_def)
  moreover from this have "length e \<le> length head" using strstr_length by fastforce
  ultimately show ?thesis
    using strstr_append [of "to_chars head" "CRLF @ CRLF" e "c_str (to_chars x)"] c
    by (simp add: header_end_def Let_def)
qed

lemma header_end_strict:
  assumes nul: "NUL \<notin> set (to_chars head)" and h: "header_end head = Some (length head)"
    and p: "prefix p head" "p \<noteq> head"
  shows "header_end p = None"
proof (rule ccontr)
  assume "header_end p \<noteq> None"
  then obtain n where n: "header_end p = Some n" by blast
  obtain x where x: "head = p @ x" using p by (auto simp: prefix_def)
  have "header_end head = Some n"
    unfolding x using nul x by (intro header_end_append n) simp
  then have "length head \<le> length p" using h header_end_blank(2) [OF n] by simp
  then show False using x p by simp
qed

lemma header_end_head:
  assumes "NUL \<notin> set (to_chars head)" and "header_end head = Some (length head)"
  shows "\<exists>a. to_chars head = a @ CRLF @ CRLF"
proof -
  obtain e where e: "strstr (to_chars head) (CRLF @ CRLF) = Some e" "length head = length head - length e + 4"
    using assms by (auto simp: header_end_def Let_def c_str_id)
  obtain a b where "to_chars head = a @ e" "e = CRLF @ CRLF @ b"
    using strstr_split [OF e(1)] by (auto simp: prefix_def)
  moreover from this have "length head = length a + length e" by (metis length_append length_map)
  ultimately show ?thesis using e(2) by auto
qed

lemma recv_head_step:
  "recv_head E fd buf h =
     (let n = HTTP_REQUEST_MAX - 1 - length buf; r = env_recv E h fd n; h1 = h @ [Sock_recv fd n r] in
      if n = 0 then (Head_too_large, h)
      else case r of
        Inl e \<Rightarrow> (Head_lost, h1)
      | Inr bs \<Rightarrow> if bs = [] then (Head_lost, h1)
          else case header_end (buf @ bs) of
              Some k \<Rightarrow> (Head (buf @ bs) k, h1)
            | None \<Rightarrow> recv_head E fd (buf @ bs) h1)"
  by (simp add: recv_head.simps [of E fd buf h] zsock_recv_def Let_def HTTP_REQUEST_MAX_def split: sum.splits)

lemma recv_head_result:
  "recv_head E fd buf h = (r, h') \<Longrightarrow>
    extends (recvs_from fd) h h' \<and> (\<forall>buf' n. r = Head buf' n \<longrightarrow> header_end buf' = Some n)"
proof (induction "HTTP_REQUEST_MAX - 1 - length buf" arbitrary: buf h rule: less_induct)
  case less
  let ?n = "HTTP_REQUEST_MAX - 1 - length buf"
  let ?r = "env_recv E h fd ?n"
  let ?h1 = "h @ [Sock_recv fd ?n ?r]"
  have e: "extends (recvs_from fd) h ?h1" by (rule extends_append) simp
  have rec: "extends (recvs_from fd) ?h1 h' \<and> (\<forall>buf' n. r = Head buf' n \<longrightarrow> header_end buf' = Some n)"
    if "?r = Inr bs" "bs \<noteq> []" "recv_head E fd (buf @ bs) ?h1 = (r, h')" "?n \<noteq> 0" for bs
    using that less.hyps [of "buf @ bs" ?h1] by (cases bs) auto
  show ?case
    using less.prems e rec extends_trans [OF e]
    unfolding recv_head_step [of E fd buf h] Let_def
    by (auto split: if_splits sum.splits option.splits)
qed

section \<open>What a request does to the connections\<close>

text \<open>The calls made for a request, and a connection served: nothing else is called, then it is closed.\<close>

definition conn_call :: "int \<Rightarrow> call \<Rightarrow> bool" where
  "conn_call fd c \<longleftrightarrow> sends_to fd c \<or> recvs_from fd c \<or> storage_call c"

definition served :: "int \<Rightarrow> hist \<Rightarrow> hist \<Rightarrow> bool" where
  "served fd h h' \<longleftrightarrow> (\<exists>h1. extends (conn_call fd) h h1 \<and> h' = zsock_close fd h1)"

lemma conn_extends:
  "extends (sends_to fd) h h' \<Longrightarrow> extends (conn_call fd) h h'"
  "extends (recvs_from fd) h h' \<Longrightarrow> extends (conn_call fd) h h'"
  "extends storage_call h h' \<Longrightarrow> extends (conn_call fd) h h'"
  by (auto elim!: extends_mono simp: conn_call_def)

lemma conn_frame:
  assumes "extends (conn_call fd) h h'"
  shows "closes fd' h' = closes fd' h" and "fd' \<noteq> fd \<Longrightarrow> sent fd' h' = sent fd' h"
    and "fd' \<noteq> fd \<Longrightarrow> recvd fd' h' = recvd fd' h"
  using assms by (erule_tac extends_keeps; auto simp: conn_call_def sends_to_other recvs_from_other)+

lemma served_frame:
  assumes "served fd h h'"
  shows "closes fd' h' = closes fd' h + (if fd' = fd then 1 else 0)"
    and "fd' \<noteq> fd \<Longrightarrow> sent fd' h' = sent fd' h \<and> recvd fd' h' = recvd fd' h"
proof -
  obtain h1 where e: "extends (conn_call fd) h h1" and h: "h' = zsock_close fd h1"
    using assms by (auto simp: served_def)
  show "closes fd' h' = closes fd' h + (if fd' = fd then 1 else 0)"
    using conn_frame(1) [OF e, of fd'] h by (simp add: zsock_close_def)
  show "fd' \<noteq> fd \<Longrightarrow> sent fd' h' = sent fd' h \<and> recvd fd' h' = recvd fd' h"
    using conn_frame(2,3) [OF e, of fd'] h by (simp add: zsock_close_def)
qed

lemma served_close: "extends (conn_call fd) h h1 \<Longrightarrow> served fd h (zsock_close fd h1)"
  by (auto simp: served_def)

lemma served_send: "extends (conn_call fd) h h1 \<Longrightarrow> served fd h (send_and_close E fd text h1)"
  unfolding send_and_close_def
  by (rule served_close) (erule extends_trans, rule conn_extends, rule send_all_extends')

lemma served_after: "extends (conn_call fd) h h1 \<Longrightarrow> served fd h1 h' \<Longrightarrow> served fd h h'"
  using extends_trans by (fastforce simp: served_def)

lemma both_extends: "extends (sends_to fd) h (snd (send_both E fd header body h))"
proof -
  obtain r1 h1 where s1: "send_all E fd (to_bytes header) h = (r1, h1)" by force
  obtain r2 h2 where s2: "send_all E fd (to_bytes body) h1 = (r2, h2)" by force
  show ?thesis
    using s1 s2 send_all_extends [OF s1] extends_trans [OF send_all_extends [OF s1] send_all_extends [OF s2]]
    by (simp add: send_both_def)
qed

lemma respond_extends: "extends (sends_to fd) h (snd (send_text_response E fd status ct body h))"
  using both_extends [of fd h E "snd (snprintk 128 (text_header status ct (length body)))" body]
  by (simp add: send_text_response_def Let_def split_beta)

lemma served_respond: "extends (conn_call fd) h h1 \<Longrightarrow> served fd h (respond_and_close E fd status body h1)"
  unfolding respond_and_close_def
  by (rule served_close) (erule extends_trans, rule conn_extends, rule respond_extends)

lemma body_read_extends:
  "rb_fd c = fd \<Longrightarrow> extends (conn_call fd) h (snd (snd (request_body_read E c m h))) \<and>
    rb_fd (fst (snd (request_body_read E c m h))) = fd"
  by (auto simp: request_body_read_def zsock_recv_def conn_call_def Let_def split: prod.splits sum.splits
      intro: extends_append)

text \<open>Every route but an upgrade ends with the connection closed.\<close>

lemma put_served:
  assumes "handle_put E fd request buf n s h = (s', h')"
  shows "served fd h h'"
proof (cases "find_header_value request ''Content-Length''")
  case None
  then show ?thesis using assms by (auto simp: handle_put_def intro: served_respond)
next
  case (Some cl)
  let ?reader = "\<lparr>rb_fd = fd, rb_pending = drop n buf, rb_pending_len = length buf - n, rb_pending_pos = 0\<rparr>"
  show ?thesis
  proof (cases "body_len_loop (take (header_value_len cl) cl) 0")
    case None
    then show ?thesis using assms Some by (auto simp: handle_put_def intro: served_respond)
  next
    case (Some len)
    obtain r c1 s1 h1 where w: "storage_write_user_index_stream E (unat len) (Some (request_body_read E)) ?reader s h =
        (r, c1, s1, h1)"
      by (metis prod.exhaust)
    have "extends (conn_call fd) h h1"
      by (rule write_user_index_extends [OF w, where K = "\<lambda>c. rb_fd c = fd"])
        (use body_read_extends in \<open>auto simp: conn_call_def [of fd "_ :: call"]\<close>)
    then show ?thesis
      using assms \<open>find_header_value request _ = Some cl\<close> Some w
      by (auto simp: handle_put_def Let_def split: if_splits intro: served_respond)
  qed
qed

lemma fs_status_served:
  assumes "handle_fs_status E fd s h = (s', h')"
  shows "served fd h h'"
proof -
  obtain body_len body s1 h1 where f: "storage_format_status_json E 192 s h = ((body_len, body), s1, h1)"
    by (metis prod.exhaust)
  have e: "extends (conn_call fd) h h1" using format_status_extends [OF f] by (rule conn_extends)
  show ?thesis
    using assms f e extends_trans [OF e conn_extends(1) [OF both_extends]]
    by (auto simp: handle_fs_status_def Let_def split_beta split: if_splits intro!: served_close)
qed

lemma index_served: "served fd h (handle_index E index_html fd h)"
  using conn_extends(1) [OF both_extends]
  by (auto simp: handle_index_def Let_def split_beta intro!: served_close)

lemma user_page_served:
  assumes E: "sockets E" and F: "page_store E p0"
  shows "\<exists>s' h'. handle_user_page E fd s h = Some (s', h') \<and> served fd h h'"
proof -
  obtain r len s1 h1 where z: "storage_user_index_size E False s h = ((r, len), s1, h1)"
    by (metis prod.exhaust)
  have e: "extends (conn_call fd) h h1" using user_index_size_extends [OF z] by (rule conn_extends)
  define hd where "hd = snprintk 128 (text_header ''200 OK'' text_html (case len of None \<Rightarrow> 0 | Some n \<Rightarrow> n))"
  obtain r2 h2 where a: "send_all E fd (to_bytes (snd hd)) h1 = (r2, h2)" by force
  have e2: "extends (conn_call fd) h h2"
    using extends_trans [OF e conn_extends(1) [OF send_all_extends [OF a]]] .
  obtain r3 s3 h3 where st: "storage_stream_user_index E (Some (socket_write E fd)) s1 h2 = Some (r3, s3, h3)"
    using body_sink.stream_page [OF sockets.is_sink [OF E] F] by blast
  have "extends (conn_call fd) h2 h3"
    by (rule stream_user_index_extends [OF st])
      (auto simp: conn_call_def socket_write_def intro!: extends_mono [OF send_all_extends'])
  then have e3: "extends (conn_call fd) h h3" by (rule extends_trans [OF e2])
  show ?thesis
    using z a st e e2 e3
    by (auto simp: handle_user_page_def hd_def [symmetric] Let_def split_beta
        intro: served_send served_respond served_close)
qed

section \<open>Routes\<close>

text \<open>The first two words of a request line.\<close>

definition request_words :: "string \<Rightarrow> (string \<times> string) option" where
  "request_words request =
     (let rest = dropWhile (\<lambda>c. c \<noteq> SP) request; target = takeWhile (\<lambda>c. c \<noteq> SP) (tl rest) in
      if rest = [] \<or> dropWhile (\<lambda>c. c \<noteq> SP) (tl rest) = [] then None
      else Some (takeWhile (\<lambda>c. c \<noteq> SP) request, target))"

datatype route = Put_page | No_icon | Fs_status | User_page | Index_page | Unknown

definition route_of :: "string \<Rightarrow> route" where
  "route_of request =
     (case request_words request of
        None \<Rightarrow> Unknown
      | Some (verb, target) \<Rightarrow>
          if verb = ''PUT'' then (if target = ''/user/index.html'' then Put_page else Unknown)
          else if verb \<noteq> ''GET'' then Unknown
          else if target \<in> {''/favicon.ico'', ''/apple-touch-icon.png'', ''/apple-touch-icon-precomposed.png''}
          then No_icon
          else if target = ''/fs/status'' then Fs_status
          else if target \<in> {''/user'', ''/user/''} then User_page
          else if target \<in> {''/'', ''/index.html''} then Index_page
          else Unknown)"

lemma span_word: "SP \<notin> set w \<Longrightarrow> prefix (w @ [SP]) s \<longleftrightarrow> takeWhile (\<lambda>c. c \<noteq> SP) s = w \<and> dropWhile (\<lambda>c. c \<noteq> SP) s \<noteq> []"
proof (induction w arbitrary: s)
  case Nil
  then show ?case by (cases s) (auto simp: prefix_def)
next
  case (Cons a w)
  then show ?case by (cases s) (auto simp: prefix_def)
qed

lemma strncmp_prefix: "n = length w \<Longrightarrow> strncmp_eq s w n \<longleftrightarrow> prefix w s"
  by (auto simp: strncmp_eq_def prefix_def) (metis append_take_drop_id)

lemma prefix_append_iff: "prefix (u @ v) s \<longleftrightarrow> prefix u s \<and> prefix v (drop (length u) s)"
  by (auto simp: prefix_def)

lemma tl_drop_Suc: "drop (n + 1) s = tl (drop n s)"
  by (induction n arbitrary: s) (simp_all add: drop_Suc tl_drop)

lemma if_words:
  "(v = verb \<Longrightarrow> x = y) \<Longrightarrow> (v = verb \<and> r \<noteq> [] \<and> f x = target \<and> g x \<noteq> []) \<longleftrightarrow>
    (if r = [] \<or> g y = [] then None else Some (v, f y)) = Some (verb, target)"
  by auto

lemma words_test:
  assumes "SP \<notin> set verb" and "SP \<notin> set target"
  shows "prefix (verb @ SP # target @ [SP]) s \<longleftrightarrow> request_words s = Some (verb, target)"
proof -
  let ?P = "\<lambda>c. c \<noteq> SP"
  have "prefix (verb @ SP # target @ [SP]) s \<longleftrightarrow>
      prefix (verb @ [SP]) s \<and> prefix (target @ [SP]) (drop (length verb + 1) s)"
    using prefix_append_iff [of "verb @ [SP]" "target @ [SP]" s] by simp
  also have "\<dots> \<longleftrightarrow> takeWhile ?P s = verb \<and> dropWhile ?P s \<noteq> [] \<and>
      takeWhile ?P (drop (length verb + 1) s) = target \<and> dropWhile ?P (drop (length verb + 1) s) \<noteq> []"
    using assms by (simp add: span_word)
  also have "\<dots> \<longleftrightarrow> request_words s = Some (verb, target)"
  proof -
    have d: "drop (length (takeWhile ?P s) + 1) s = tl (dropWhile ?P s)"
      by (subst dropWhile_eq_drop) (rule tl_drop_Suc)
    have "drop (length verb + 1) s = tl (dropWhile ?P s)" if "takeWhile ?P s = verb"
      using d that by simp
    then show ?thesis
      unfolding request_words_def Let_def by (rule if_words)
  qed
  finally show ?thesis .
qed

lemma route_test:
  "SP \<notin> set verb \<Longrightarrow> SP \<notin> set target \<Longrightarrow> n = length verb + length target + 2 \<Longrightarrow>
    strncmp_eq s (verb @ SP # target @ [SP]) n \<longleftrightarrow> request_words s = Some (verb, target)"
  by (subst strncmp_prefix) (simp_all add: words_test)

lemma route_tests:
  "strncmp_eq s ''PUT /user/index.html '' 21 \<longleftrightarrow> request_words s = Some (''PUT'', ''/user/index.html'')"
  "strncmp_eq s ''GET /favicon.ico '' 17 \<longleftrightarrow> request_words s = Some (''GET'', ''/favicon.ico'')"
  "strncmp_eq s ''GET /apple-touch-icon.png '' 26 \<longleftrightarrow> request_words s = Some (''GET'', ''/apple-touch-icon.png'')"
  "strncmp_eq s ''GET /apple-touch-icon-precomposed.png '' 38 \<longleftrightarrow> request_words s = Some (''GET'', ''/apple-touch-icon-precomposed.png'')"
  "strncmp_eq s ''GET /fs/status '' 15 \<longleftrightarrow> request_words s = Some (''GET'', ''/fs/status'')"
  "strncmp_eq s ''GET /user '' 10 \<longleftrightarrow> request_words s = Some (''GET'', ''/user'')"
  "strncmp_eq s ''GET /user/ '' 11 \<longleftrightarrow> request_words s = Some (''GET'', ''/user/'')"
  "strncmp_eq s ''GET / '' 6 \<longleftrightarrow> request_words s = Some (''GET'', ''/'')"
  "strncmp_eq s ''GET /index.html '' 16 \<longleftrightarrow> request_words s = Some (''GET'', ''/index.html'')"
  "strncmp_eq s ''GET /can '' 9 \<longleftrightarrow> request_words s = Some (''GET'', ''/can'')"
  "strncmp_eq s ''GET /ws '' 8 \<longleftrightarrow> request_words s = Some (''GET'', ''/ws'')"
  using route_test [of "''PUT''" "''/user/index.html''" 21 s]
    route_test [of "''GET''" "''/favicon.ico''" 17 s]
    route_test [of "''GET''" "''/apple-touch-icon.png''" 26 s]
    route_test [of "''GET''" "''/apple-touch-icon-precomposed.png''" 38 s]
    route_test [of "''GET''" "''/fs/status''" 15 s]
    route_test [of "''GET''" "''/user''" 10 s]
    route_test [of "''GET''" "''/user/''" 11 s]
    route_test [of "''GET''" "''/''" 6 s]
    route_test [of "''GET''" "''/index.html''" 16 s]
    route_test [of "''GET''" "''/can''" 9 s]
    route_test [of "''GET''" "''/ws''" 8 s]
  by simp_all

lemma route_of_chain:
  "route_of s = (let w = request_words s in
     if w = Some (''PUT'', ''/user/index.html'') then Put_page
     else if w = Some (''GET'', ''/favicon.ico'') \<or> w = Some (''GET'', ''/apple-touch-icon.png'') \<or>
             w = Some (''GET'', ''/apple-touch-icon-precomposed.png'') then No_icon
     else if w = Some (''GET'', ''/fs/status'') then Fs_status
     else if w = Some (''GET'', ''/user'') \<or> w = Some (''GET'', ''/user/'') then User_page
     else if \<not> w = Some (''GET'', ''/'') \<and> \<not> w = Some (''GET'', ''/index.html'') then Unknown else Index_page)"
proof (cases "request_words s")
  case (Some vt)
  obtain verb target where vt: "vt = (verb, target)" by force
  consider "verb = ''PUT''" | "verb = ''GET''" | "verb \<noteq> ''PUT''" "verb \<noteq> ''GET''" by blast
  then show ?thesis
    by cases (simp_all add: route_of_def Some vt Let_def)
qed (simp add: route_of_def)

lemma if_chain_route:
  "(if b1 then x1 else if b2 then x2 else if b3 then x3 else if b4 then x4 else if b5 then x6 else x5) =
   (case (if b1 then Put_page else if b2 then No_icon else if b3 then Fs_status else if b4 then User_page
          else if b5 then Unknown else Index_page) of
      Put_page \<Rightarrow> x1 | No_icon \<Rightarrow> x2 | Fs_status \<Rightarrow> x3 | User_page \<Rightarrow> x4 | Index_page \<Rightarrow> x5 | Unknown \<Rightarrow> x6)"
  by simp

text \<open>The chain of \<open>strncmp\<close>s is the choice of a route by the words of the request.\<close>

definition dispatch ::
  "'s ws_service \<Rightarrow> env \<Rightarrow> string \<Rightarrow> int \<Rightarrow> string \<Rightarrow> u8 list \<Rightarrow> nat \<Rightarrow> 's http_state \<Rightarrow> hist \<Rightarrow>
     ('s http_state \<times> hist) option" where
  "dispatch svc E index_html fd request buf n st h =
     (case route_of request of
        Put_page \<Rightarrow> let (s1, h2) = handle_put E fd request buf n (http_storage st) h
                    in Some (st\<lparr>http_storage := s1\<rparr>, h2)
      | No_icon \<Rightarrow> Some (st, send_and_close E fd no_content h)
      | Fs_status \<Rightarrow> let (s1, h2) = handle_fs_status E fd (http_storage st) h
                     in Some (st\<lparr>http_storage := s1\<rparr>, h2)
      | User_page \<Rightarrow> map_option (\<lambda>(s1, h2). (st\<lparr>http_storage := s1\<rparr>, h2))
                       (handle_user_page E fd (http_storage st) h)
      | Index_page \<Rightarrow> Some (st, handle_index E index_html fd h)
      | Unknown \<Rightarrow> Some (st, send_and_close E fd not_found h))"

lemma handle_client_dispatch:
  assumes "recv_head E fd [] h = (Head buf n, h1)" and "\<not> request_is_websocket (c_str (to_chars buf))"
  shows "handle_client svc E index_html fd st h =
    dispatch svc E index_html fd (c_str (to_chars buf)) buf n st h1"
  unfolding handle_client_def assms(1) dispatch_def route_of_chain Let_def prod.case request_head.case
    if_not_P [OF assms(2)] route_tests
  by (rule if_chain_route)

lemma dispatch_served:
  assumes E: "sockets E" and F: "page_store E p0"
  shows "\<exists>st' h'. dispatch svc E index_html fd request buf n st h = Some (st', h') \<and>
    http_ws st' = http_ws st \<and> served fd h h'"
proof (cases "route_of request")
  case Put_page
  then show ?thesis
    using put_served by (cases "handle_put E fd request buf n (http_storage st) h") (fastforce simp: dispatch_def)
next
  case Fs_status
  then show ?thesis
    using fs_status_served by (cases "handle_fs_status E fd (http_storage st) h") (fastforce simp: dispatch_def)
next
  case User_page
  then show ?thesis
    using user_page_served [OF E F, of fd "http_storage st" h] by (auto simp: dispatch_def)
next
  case Index_page
  then show ?thesis using index_served by (auto simp: dispatch_def)
qed (use served_send [OF extends_refl] in \<open>auto simp: dispatch_def\<close>)

lemma websocket_request:
  assumes "[] \<in> set (tl (lines request))"
  shows "request_is_websocket request \<longleftrightarrow>
    request_words request \<in> {Some (''GET'', ''/can''), Some (''GET'', ''/ws'')} \<and>
    header_field request ''Sec-WebSocket-Key'' \<noteq> None"
  using find_header_value_field [OF _ assms, of "''Sec-WebSocket-Key''"]
  by (auto simp: request_is_websocket_def route_tests dest: arg_cong [of _ _ "\<lambda>x. x = None"])

section \<open>Content lengths\<close>

text \<open>A value of digits only is read as a number, in 32 bits.\<close>

lemma body_len_loop_digits:
  "list_all is_digit s \<Longrightarrow> body_len_loop s (of_nat v) = Some (of_nat (foldl (\<lambda>v c. v * 10 + digit_val c) v s))"
proof (induction s arbitrary: v)
  case (Cons c s)
  have "(of_nat v * 10 + of_nat (digit_val c) :: u32) = of_nat (v * 10 + digit_val c)" by simp
  then show ?case using Cons.IH [of "v * 10 + digit_val c"] Cons.prems by (simp del: of_nat_add of_nat_mult)
qed simp

lemma body_len_loop_number: "list_all is_digit s \<Longrightarrow> body_len_loop s 0 = Some (of_nat (undec s))"
  using body_len_loop_digits [of s 0] by (simp add: undec_def)

lemma body_len_loop_None: "\<not> list_all is_digit s \<Longrightarrow> body_len_loop s v = None"
  by (induction s arbitrary: v) auto

definition content_length :: "string \<Rightarrow> string option" where
  "content_length request = header_field request ''Content-Length''"

lemma handle_put_length:
  assumes "[] \<in> set (tl (lines request))"
  shows "handle_put E fd request buf n s h =
    (case content_length request of
       None \<Rightarrow> (s, respond_and_close E fd ''411 Length Required'' ''content-length required'' h)
     | Some v \<Rightarrow>
       if \<not> list_all is_digit v then (s, respond_and_close E fd ''400 Bad Request'' ''invalid content-length'' h)
       else let body_len = undec v mod 2 ^ 32 in
       if 524288 < body_len then (s, respond_and_close E fd ''413 Payload Too Large'' ''user page too large'' h)
       else if body_len < length buf - n then
         (s, respond_and_close E fd ''400 Bad Request'' ''body larger than content-length'' h)
       else let (ret, reader1, s1, h1) = storage_write_user_index_stream E body_len (Some (request_body_read E))
              \<lparr>rb_fd = fd, rb_pending = drop n buf, rb_pending_len = length buf - n, rb_pending_pos = 0\<rparr> s h in
       if ret < 0 then (s1, respond_and_close E fd ''500 Internal Server Error'' ''user page write failed'' h1)
       else (s1, respond_and_close E fd ''201 Created'' ''user page written'' h1))"
proof -
  have f: "map_option (\<lambda>v. take (header_value_len v) v) (find_header_value request ''Content-Length'') =
      content_length request"
    unfolding content_length_def by (rule find_header_value_field) (simp_all add: assms)
  show ?thesis
  proof (cases "find_header_value request ''Content-Length''")
    case None
    then show ?thesis using f by (simp add: handle_put_def)
  next
    case (Some c)
    define v where "v = take (header_value_len c) c"
    have v: "content_length request = Some v" using f Some by (simp add: v_def)
    show ?thesis
    proof (cases "list_all is_digit v")
      case False
      then show ?thesis
        using Some v body_len_loop_None [OF False] by (simp add: handle_put_def v_def [symmetric])
    next
      case True
      have u: "unat (of_nat (undec v) :: u32) = undec v mod 2 ^ 32" by (simp add: unat_of_nat)
      have m: "USER_INDEX_MAX < (of_nat (undec v) :: u32) \<longleftrightarrow> 524288 < undec v mod 2 ^ 32"
        using u by (simp add: word_less_nat_alt USER_INDEX_MAX_def)
      show ?thesis
        unfolding handle_put_def Some v option.case v_def [symmetric] body_len_loop_number [OF True] m u Let_def
        using True by simp
    qed
  qed
qed

section \<open>Responses\<close>

text \<open>The bytes of a response with a line of text.\<close>

definition text_response :: "string \<Rightarrow> string \<Rightarrow> u8 list" where
  "text_response status line =
     to_bytes (text_header status text_plain (length line + 1) @ line @ [LF])"

context sockets
begin

lemma send_and_close_sent:
  "\<exists>p. prefix p (to_bytes text) \<and> sent fd (send_and_close E fd text h) = sent fd h @ p"
proof -
  obtain r h1 where s: "send_all E fd (to_bytes text) h = (r, h1)" by force
  show ?thesis using send_all_sent [OF s] s by (auto simp: send_and_close_def zsock_close_def)
qed

lemma respond_and_close_sent:
  "\<exists>p. prefix p (text_response status body) \<and>
    sent fd (respond_and_close E fd status body h) = sent fd h @ p"
proof -
  obtain r h1 where s: "send_text_response E fd status text_plain (body @ [LF]) h = (r, h1)" by force
  show ?thesis
    using send_text_response_sent(3) [OF s] s
    by (auto simp: respond_and_close_def zsock_close_def text_response_def)
qed

text \<open>Where no send fails, the whole of it is sent.\<close>

lemma send_both_works: "sends_work E fd \<Longrightarrow> fst (send_both E fd header body h)"
  using send_all_works [of E fd] by (auto simp: send_both_def split: prod.splits) (metis fst_conv less_irrefl order_refl)+

lemma respond_whole:
  assumes "sends_work E fd" and "length (text_header status text_plain (length body + 1)) < 128"
  shows "sent fd (respond_and_close E fd status body h) = sent fd h @ text_response status body"
proof -
  obtain r h1 where s: "send_text_response E fd status text_plain (body @ [LF]) h = (r, h1)" by force
  have "r = 0"
    using s send_both_works [OF assms(1)] assms(2) by (auto simp: send_text_response_def snprintk_def Let_def split: prod.splits if_splits) (metis fst_conv)+
  then show ?thesis
    using send_text_response_sent(3) [OF s] s by (auto simp: respond_and_close_def zsock_close_def text_response_def)
qed

lemma handle_index_sent:
  assumes "length index_html < 10 ^ 10"
  shows "\<exists>p. prefix p (to_bytes (text_header ''200 OK'' text_html (length index_html) @ index_html)) \<and>
    sent fd (handle_index E index_html fd h) = sent fd h @ p"
proof -
  let ?t = "text_header ''200 OK'' text_html (length index_html)"
  have "length (dec (length index_html)) \<le> 10" using assms by (intro dec_length) simp_all
  then have t: "length ?t < 128" by (simp add: text_header_def text_html_def)
  obtain ok h1 where s: "send_both E fd ?t index_html h = (ok, h1)" by force
  show ?thesis
    using send_both_sent [OF s] s t by (auto simp: handle_index_def snprintk_def zsock_close_def)
qed

end

text \<open>The status of the file system always fits its buffers.\<close>

definition fs_doc :: "storage_status \<Rightarrow> json" where
  "fs_doc st = JObj [(''type'', JStr ''fs.status''), (''ok'', JBool (ss_mounted st)),
     (''attempted'', JBool (ss_attempted st)), (''mounted'', JBool (ss_mounted st)),
     (''mountRet'', JInt (ss_mount_ret st)), (''path'', JStr STORAGE_PATH),
     (''totalKiB'', JInt (uint (ss_total_kib st))), (''freeKiB'', JInt (uint (ss_free_kib st)))]"

lemma fs_doc_text: "status_json st = json_text (fs_doc st)"
  by (simp add: status_json_def fs_doc_def str_text_def dec_int_uint)

lemma fs_doc_plain: "json_plain (fs_doc st)"
  by (simp add: fs_doc_def STORAGE_PATH_def plain_char_def)

lemma fs_doc_length: "is_int32 (ss_mount_ret st) \<Longrightarrow> length (json_text (fs_doc st)) < 192"
  using is_int32_length [of "ss_mount_ret st"] dec_word_length(2) [of "ss_total_kib st"]
    dec_word_length(2) [of "ss_free_kib st"] bool_text_length [of "ss_mounted st"] bool_text_length [of "ss_attempted st"]
  by (simp add: fs_doc_text [symmetric] status_json_def STORAGE_PATH_def)

definition status_of :: "storage \<Rightarrow> storage_status" where
  "status_of s = \<lparr>ss_attempted = mount_attempted s, ss_mounted = mounted s, ss_mount_ret = mount_ret s,
     ss_total_kib = total_kib s, ss_free_kib = free_kib s\<rparr>"

lemma format_status_of:
  assumes "storage_format_status_json E n s h = (r, s', h')"
  shows "r = snprintk n (json_text (fs_doc (status_of s')))" and "mount_attempted s'"
    and "mount_ret s' = mount_ret s \<or> (\<exists>h. mount_ret s' = env_fs_mount E h)"
proof -
  obtain r1 s1 h1 where m: "storage_mount_once E s h = (r1, s1, h1)" by (metis prod.exhaust)
  obtain s2 h2 where u: "update_space_locked E s1 (h1 @ [K_mutex_lock Storage_lock]) = (s2, h2)" by force
  have s2: "mount_attempted s2 = mount_attempted s1" "mount_ret s2 = mount_ret s1"
    using u by (auto simp: update_space_locked_def Let_def split: if_splits prod.splits)
  have s': "s' = s2" "r = snprintk n (json_text (fs_doc (status_of s2)))"
    using assms m u by (auto simp: storage_format_status_json_def storage_get_status_def fs_doc_text status_of_def)
  show "r = snprintk n (json_text (fs_doc (status_of s')))" using s' by simp
  have "mount_attempted s1 \<and> (mount_ret s1 = mount_ret s \<or> (\<exists>h. mount_ret s1 = env_fs_mount E h))"
    using m by (auto simp: storage_mount_once_def update_space_locked_def Let_def split: if_splits prod.splits)
  then show "mount_attempted s'" and "mount_ret s' = mount_ret s \<or> (\<exists>h. mount_ret s' = env_fs_mount E h)"
    using s' s2 by auto
qed

lemma user_index_size_page:
  "storage_user_index_size E False s h = (r, s', h') \<Longrightarrow> page p0 h' = page p0 h"
  by (auto simp: storage_user_index_size_def Let_def split: if_splits prod.splits
      dest!: storage_mount_once_quiet quiet_page)

lemma user_index_size_stat:
  assumes F: "page_store E p0" and z: "storage_user_index_size E False s h = ((r, len), s', h')" and "0 \<le> r"
  shows "len = Some (length (page p0 h))"
proof -
  obtain r1 s1 h1 where m: "storage_mount_once E s h = (r1, s1, h1)" by (metis prod.exhaust)
  obtain r2 entry where st: "env_fs_stat E h1 USER_INDEX_PATH = (r2, entry)" by force
  have "0 \<le> r2" "de_type entry = FS_DIR_ENTRY_FILE" "len = Some (de_size entry)"
    using z assms(3) m st by (auto simp: storage_user_index_size_def Let_def split: if_splits)
  then show ?thesis
    using page_store.stat_size [OF F st] quiet_page [OF storage_mount_once_quiet [OF m], of p0] by simp
qed

lemma send_page: "extends (sends_to fd) h h' \<Longrightarrow> page p0 h' = page p0 h"
  by (erule extends_keeps) simp

context sockets
begin

lemma fs_status_sent:
  assumes f: "handle_fs_status E fd s h = (s', h')" and i: "is_int32 (mount_ret s)" "\<And>h. is_int32 (env_fs_mount E h)"
  shows "mount_attempted s' \<and> (\<exists>body p. json_read body = Some (fs_doc (status_of s')) \<and> length body < 192 \<and>
    prefix p (to_bytes (text_header ''200 OK'' ''application/json'' (length body) @ body)) \<and> sent fd h' = sent fd h @ p \<and>
    (sends_work E fd \<longrightarrow> p = to_bytes (text_header ''200 OK'' ''application/json'' (length body) @ body)))"
proof -
  obtain r s1 h1 where st: "storage_format_status_json E 192 s h = (r, s1, h1)" by (metis prod.exhaust)
  note x = format_status_of [OF st]
  let ?body = "json_text (fs_doc (status_of s1))"
  let ?t = "text_header ''200 OK'' ''application/json'' (length ?body)"
  have l: "length ?body < 192" using x(3) i by (intro fs_doc_length) (auto simp: status_of_def)
  then have r: "r = (int (length ?body), ?body)" using x(1) by (simp add: snprintk_def)
  have "length (dec (length ?body)) \<le> 3" using l by (intro dec_length) simp_all
  then have t: "length ?t < 128" by (simp add: text_header_def)
  obtain ok h2 where b: "send_both E fd ?t ?body h1 = (ok, h2)" by force
  have s1: "s' = s1" "h' = zsock_close fd h2"
    using f st r l t b by (auto simp: handle_fs_status_def snprintk_def)
  have "sent fd h1 = sent fd h"
    using format_status_extends [OF st] by (rule extends_keeps) simp
  moreover obtain p where p: "prefix p (to_bytes (?t @ ?body))" "sent fd h2 = sent fd h1 @ p" "ok \<longleftrightarrow> p = to_bytes (?t @ ?body)"
    using send_both_sent(2) [OF b] by blast
  moreover have "sends_work E fd \<Longrightarrow> ok" using send_both_works [of fd ?t ?body h1] b by simp
  ultimately show ?thesis
    unfolding s1 using x(2) l json_read_text [OF fs_doc_plain]
    by (intro conjI exI [of _ ?body] exI [of _ p]) (simp_all add: zsock_close_def)
qed

text \<open>The user page: what it is, that there is none, or that it is too long.\<close>

lemma user_index_size_readable:
  assumes "storage_user_index_size E False s h = ((r, len), s', h')" and F: "fs_readable E s"
  shows "0 \<le> r \<and> fs_readable E s'"
proof -
  obtain r1 s1 h1 where m: "storage_mount_once E s h = (r1, s1, h1)" by (metis prod.exhaust)
  obtain r2 entry where st: "env_fs_stat E h1 USER_INDEX_PATH = (r2, entry)" by force
  show ?thesis
    using assms(1) m st fs_readable_ret(1) [OF F m] fs_readable_ret(4) [OF F st]
    by (auto simp: storage_user_index_size_def Let_def split: if_splits)
qed

lemma user_page_sent:
  assumes F: "page_store E p0" and u: "handle_user_page E fd s h = Some (s', h')"
  shows "\<exists>p. sent fd h' = sent fd h @ p \<and>
    (prefix p (to_bytes user_not_found) \<or>
     524288 < length (page p0 h) \<and>
       prefix p (text_response ''413 Payload Too Large'' ''user page too large'') \<or>
     length (page p0 h) \<le> 524288 \<and>
       prefix p (to_bytes (text_header ''200 OK'' text_html (length (page p0 h))) @ page p0 h)) \<and>
    (fs_readable E s \<and> sends_work E fd \<and> length (page p0 h) \<le> 524288 \<longrightarrow>
       p = to_bytes (text_header ''200 OK'' text_html (length (page p0 h))) @ page p0 h)"
proof -
  obtain r len s1 h1 where z: "storage_user_index_size E False s h = ((r, len), s1, h1)"
    by (metis prod.exhaust)
  have q: "sent fd h1 = sent fd h" "page p0 h1 = page p0 h"
    using user_index_size_extends [OF z] user_index_size_page [OF z] by (auto elim: extends_keeps)
  show ?thesis
  proof (cases "r < 0")
    case True
    then have h: "h' = send_and_close E fd user_not_found h1" using u z by (simp add: handle_user_page_def)
    have "\<not> fs_readable E s" using True user_index_size_readable [OF z] by auto
    then show ?thesis using send_and_close_sent [of user_not_found fd h1] q h by auto
  next
    case False
    have len: "len = Some (length (page p0 h))"
      using user_index_size_stat [OF F z] False by simp
    let ?n = "length (page p0 h)"
    show ?thesis
    proof (cases "524288 < ?n")
      case True
      then have "h' = respond_and_close E fd ''413 Payload Too Large'' ''user page too large'' h1"
        using u z False len by (simp add: handle_user_page_def USER_INDEX_MAX_def)
      then show ?thesis
        using respond_and_close_sent [of "''413 Payload Too Large''" "''user page too large''" fd h1] q True by auto
    next
      case small: False
      let ?t = "text_header ''200 OK'' text_html ?n"
      have "length (dec ?n) \<le> 6" using small by (intro dec_length) simp_all
      then have t: "snprintk 128 ?t = (int (length ?t), ?t)" "length ?t < 128"
        by (simp_all add: text_header_def text_html_def snprintk_def)
      obtain r2 h2 where a: "send_all E fd (to_bytes ?t) h1 = (r2, h2)" by force
      note sa = send_all_sent [OF a]
      have p2: "page p0 h2 = page p0 h" using send_page [OF send_all_extends [OF a]] q(2) by simp
      obtain r3 s3 h3 p where st: "storage_stream_user_index E (Some (socket_write E fd)) s1 h2 = Some (r3, s3, h3)"
        "sent fd h3 = sent fd h2 @ p" "prefix p (page p0 h)" "0 \<le> r3 \<longrightarrow> p = page p0 h"
        "fs_readable E s1 \<and> sends_work E fd \<longrightarrow> 0 \<le> r3"
        using download_page [OF sockets_axioms F, of fd s1 h2] p2 by auto
      have "h' = zsock_close fd (if r2 < 0 then h2 else h3)"
        using u z False len small t a st(1) by (auto simp: handle_user_page_def USER_INDEX_MAX_def split: if_splits)
      moreover have "r2 < 0 \<or> sent fd h2 = sent fd h1 @ to_bytes ?t" using sa by auto
      moreover have "0 \<le> r2 \<and> p = page p0 h" if "fs_readable E s" "sends_work E fd"
        using st(4,5) user_index_size_readable [OF z that(1)] that(2) send_all_works [OF that(2), of "to_bytes ?t" h1] a by auto
      ultimately show ?thesis
        using sa st(2,3) q(1) small by (auto simp: zsock_close_def prefix_def)
    qed
  qed
qed

end

section \<open>A request from a peer\<close>

text \<open>What a peer's stream gives as the head of the request and the body bytes read ahead with it.\<close>

definition well_formed_head :: "u8 list \<Rightarrow> bool" where
  "well_formed_head head \<longleftrightarrow> NUL \<notin> set (to_chars head) \<and> header_end head = Some (length head) \<and>
     length head < HTTP_REQUEST_MAX"

context ws_peer
begin

lemma recv_head_peer:
  assumes w: "well_formed_head head"
  shows "data = before @ head @ body \<Longrightarrow> recvd fd h = before @ buf \<Longrightarrow> prefix buf head \<Longrightarrow> buf \<noteq> head \<Longrightarrow>
    \<exists>x h'. recv_head E fd buf h = (Head (head @ x) (length head), h') \<and> prefix x body \<and>
      recvd fd h' = before @ head @ x \<and> extends (recvs_from fd) h h'"
proof (induction "length head - length buf" arbitrary: buf h rule: less_induct)
  case less
  let ?n = "HTTP_REQUEST_MAX - 1 - length buf"
  have lt: "length buf < length head"
    using less.prems(3,4) by (metis le_neq_implies_less not_equal_is_parallel parallelE prefix_length_le prefix_order.order_refl take_all_iff append_eq_conv_conj prefix_def)
  then have n: "0 < ?n" using w by (simp add: well_formed_head_def)
  obtain bs where bs: "env_recv E h fd ?n = Inr bs" using no_failure by blast
  let ?h1 = "h @ [Sock_recv fd ?n (Inr bs)]"
  have p: "prefix (before @ buf) data"
    using less.prems(1,3) by (auto simp: prefix_def)
  have d: "prefix (before @ buf @ bs) data" "bs \<noteq> []"
    using deliver [OF bs n] less.prems(1,2,3) lt p by auto
  then have q: "prefix (buf @ bs) (head @ body)" using less.prems(1) by simp
  have e: "extends (recvs_from fd) h ?h1" by (rule extends_append) simp
  have rc: "recvd fd ?h1 = before @ buf @ bs" using less.prems(2) by simp
  show ?case
  proof (cases "length (buf @ bs) < length head")
    case True
    then have pre: "prefix (buf @ bs) head" "buf @ bs \<noteq> head"
      using prefix_length_prefix [OF q, of head] by auto
    have he: "header_end (buf @ bs) = None"
      using header_end_strict [OF _ _ pre] w by (simp add: well_formed_head_def)
    have "length head - length (buf @ bs) < length head - length buf" using d(2) lt by (cases bs) auto
    from less.hyps [OF this less.prems(1) rc pre] obtain x h' where
      "recv_head E fd (buf @ bs) ?h1 = (Head (head @ x) (length head), h')" "prefix x body"
      "recvd fd h' = before @ head @ x" "extends (recvs_from fd) ?h1 h'"
      by blast
    moreover have "recv_head E fd buf h = recv_head E fd (buf @ bs) ?h1"
      using n bs d(2) he by (simp add: recv_head_step [of E fd buf h] Let_def)
    ultimately show ?thesis using extends_trans [OF e] by auto
  next
    case False
    then have "prefix head (buf @ bs)" using prefix_length_prefix [of head "head @ body" "buf @ bs"] q by auto
    then obtain x where x: "buf @ bs = head @ x" by (auto simp: prefix_def)
    have "header_end (head @ x) = Some (length head)"
      using w header_end_append by (simp add: well_formed_head_def)
    then have "recv_head E fd buf h = (Head (head @ x) (length head), ?h1)"
      using n bs d(2) x by (simp add: recv_head_step [of E fd buf h] Let_def)
    moreover have "prefix x body" using q x by simp
    ultimately show ?thesis using e rc x by auto
  qed
qed

text \<open>The body reader stays on the peer's stream.\<close>

lemma is_peer_source:
  "body_source (request_body_read E) (reader_taken base)
     (\<lambda>c h. reader_inv base c h \<and> rb_fd c = fd \<and> prefix (recvd fd h) data \<and>
       rb_pending c = pending \<and> rb_pending_len c = plen)"
proof unfold_locales
  fix c m h r bs c' h'
  assume rd: "request_body_read E c m h = ((r, bs), c', h')" and m: "0 < m"
    and i: "reader_inv base c h \<and> rb_fd c = fd \<and> prefix (recvd fd h) data \<and>
      rb_pending c = pending \<and> rb_pending_len c = plen"
  have c: "rb_fd c' = fd" "rb_pending c' = pending" "rb_pending_len c' = plen"
    using rd i by (auto simp: request_body_read_def Let_def zsock_recv_def split: if_splits sum.splits prod.splits)
  obtain b where b: "env_recv E h fd m = Inr b" using no_failure by blast
  have "prefix (recvd fd (h @ [Sock_recv fd m (Inr b)])) data" using deliver [OF b m] i by simp
  moreover have "h' = h \<or> h' = h @ [Sock_recv fd m (Inr b)]"
    using rd i b by (auto simp: request_body_read_def Let_def zsock_recv_def split: if_splits sum.splits prod.splits)
  ultimately show "reader_inv base c' h' \<and> rb_fd c' = fd \<and> prefix (recvd fd h') data \<and>
      rb_pending c' = pending \<and> rb_pending_len c' = plen"
    using c i request_body_read_step(1) [OF rd m] by auto
  show "0 \<le> r \<Longrightarrow> reader_taken base c' h' = reader_taken base c h @ bs"
    using request_body_read_step(2) [OF rd m] i by blast
next
  fix c m h r bs c' h' p0
  assume "request_body_read E c m h = ((r, bs), c', h')"
  then show "page p0 h' = page p0 h" by (rule request_body_read_page)
qed (auto simp: reader_inv_def reader_taken_def)

text \<open>An upload of the length of the body leaves the body in the page.\<close>

lemma upload_body:
  assumes L: "littlefs E" and data: "data = before @ body" and x: "prefix x body"
    and rc: "recvd fd h = before @ x"
    and w: "storage_write_user_index_stream E (length body) (Some (request_body_read E))
      \<lparr>rb_fd = fd, rb_pending = x, rb_pending_len = length x, rb_pending_pos = 0\<rparr> s h = (0, c', s', h')"
  shows "page p0 h' = body"
proof -
  let ?c = "\<lparr>rb_fd = fd, rb_pending = x, rb_pending_len = length x, rb_pending_pos = 0\<rparr>"
    and ?b = "length (before @ x)"
  have i: "reader_inv ?b ?c h \<and> rb_fd ?c = fd \<and> prefix (recvd fd h) data \<and> rb_pending ?c = x \<and>
      rb_pending_len ?c = length x"
    using rc x data by (auto simp: reader_inv_def prefix_def)
  have u: "length (page p0 h') = length body" "reader_taken ?b c' h' = reader_taken ?b ?c h @ page p0 h'"
    "reader_inv ?b c' h'" "rb_fd c' = fd" "prefix (recvd fd h') data" "rb_pending c' = x"
    "rb_pending_len c' = length x"
    using body_source.upload_page [OF is_peer_source L i w, of p0] by auto
  let ?k = "rb_pending_pos c'"
  have pg: "page p0 h' = take ?k x @ drop ?b (recvd fd h')"
    using u(2,4,6) rc by (simp add: reader_taken_def)
  have "prefix (take ?k x @ drop ?b (recvd fd h')) body"
  proof (cases "?k < length x")
    case True
    then have "length (recvd fd h') = ?b" using u(3,4,6,7) by (auto simp: reader_inv_def)
    then show ?thesis using x by (auto simp: prefix_def intro: append_take_drop_id [symmetric] exI [of _ "drop ?k x @ _"])
        (metis append_take_drop_id append.assoc)
  next
    case False
    obtain z where z: "data = recvd fd h' @ z" using u(5) by (auto simp: prefix_def)
    have l: "?b \<le> length (recvd fd h')" using u(3,4) by (simp add: reader_inv_def)
    obtain y where y: "body = x @ y" using x by (auto simp: prefix_def)
    have "drop ?b data = drop ?b (recvd fd h') @ z" using z l by simp
    then have "y = drop ?b (recvd fd h') @ z" using data y by simp
    then show ?thesis using False y by (simp add: prefix_def)
  qed
  then show ?thesis using pg u(1) by (metis append_eq_conv_conj prefix_def take_all order_refl)
qed

text \<open>Where nothing of the file system fails, it succeeds.\<close>

lemma peer_read_more:
  assumes rd: "request_body_read E c m h = ((r, bs), c', h')" and m: "0 < m" and data: "data = before @ body"
    and i: "reader_inv (length (before @ x)) c h \<and> rb_fd c = fd \<and> prefix (recvd fd h) data \<and>
      rb_pending c = x \<and> rb_pending_len c = length x"
    and x: "prefix x body" and more: "length (reader_taken (length (before @ x)) c h) < length body"
  shows "0 \<le> r \<and> bs \<noteq> [] \<and> length bs \<le> m"
proof -
  have l: "rb_pending_len c \<le> length (rb_pending c)" "rb_pending_pos c \<le> rb_pending_len c"
    using i by (simp_all add: reader_inv_def)
  note cp = copy_pending_spec [OF l, of m]
  show ?thesis
  proof (cases "rb_pending_pos c < length x")
    case True
    then show ?thesis using rd m i cp by (auto simp: request_body_read_def)
  next
    case False
    obtain b where b: "env_recv E h fd m = Inr b" using no_failure by blast
    note d = deliver [OF b m]
    have ne: "b \<noteq> []"
    proof
      assume "b = []"
      then have "recvd fd h = data" using d i by blast
      then show False using more False l i x data by (auto simp: reader_taken_def prefix_def)
    qed
    moreover have "copy_pending (rb_pending c) (rb_pending_len c) (rb_pending_pos c) m = ([], rb_pending_pos c)"
      using cp False i l by simp
    ultimately show ?thesis using rd m i b recv_len [OF b] by (auto simp: request_body_read_def zsock_recv_def Let_def)
  qed
qed

lemma upload_succeeds:
  assumes F: "fs_works E s" and data: "data = before @ body" and x: "prefix x body"
    and rc: "recvd fd h = before @ x"
  shows "\<exists>c' s' h'. storage_write_user_index_stream E (length body) (Some (request_body_read E))
      \<lparr>rb_fd = fd, rb_pending = x, rb_pending_len = length x, rb_pending_pos = 0\<rparr> s h = (0, c', s', h')"
proof -
  let ?c = "\<lparr>rb_fd = fd, rb_pending = x, rb_pending_len = length x, rb_pending_pos = 0\<rparr>"
    and ?b = "length (before @ x)"
  have i: "reader_inv ?b ?c h \<and> rb_fd ?c = fd \<and> prefix (recvd fd h) data \<and> rb_pending ?c = x \<and>
      rb_pending_len ?c = length x"
    using rc x data by (auto simp: reader_inv_def prefix_def)
  have t: "length (reader_taken ?b ?c h) = 0" using rc by (simp add: reader_taken_def)
  show ?thesis
  proof (rule body_source.upload_works [OF is_peer_source F i])
    show "body_source.supplied (request_body_read E) (reader_taken ?b)
        (\<lambda>c h. reader_inv ?b c h \<and> rb_fd c = fd \<and> prefix (recvd fd h) data \<and> rb_pending c = x \<and>
          rb_pending_len c = length x) (length (reader_taken ?b ?c h) + length body)"
      unfolding body_source.supplied_def [OF is_peer_source] t by (intro allI impI, elim conjE, rule peer_read_more [OF _ _ data _ x]) simp_all
  qed
qed

end

section \<open>Requests as their peer sees them\<close>

lemma request_words_append: "request_words a = Some w \<Longrightarrow> request_words (a @ b) = Some w"
proof -
  assume a: "request_words a = Some w"
  obtain verb target where w: "w = (verb, target)" by force
  have sp: "SP \<notin> set verb" "SP \<notin> set target"
    using a w by (auto simp: request_words_def Let_def split: if_splits dest: set_takeWhileD)
  then have "prefix (verb @ SP # target @ [SP]) a" using a w words_test by blast
  then have "prefix (verb @ SP # target @ [SP]) (a @ b)" by (rule prefix_prefix)
  then show "request_words (a @ b) = Some w" using words_test [OF sp] w by blast
qed

lemma write_user_index_ret: "storage_write_user_index_stream E len (Some reader) c s h = (r, c', s', h') \<Longrightarrow> r \<le> 0"
  by (auto simp: storage_write_user_index_stream_def Let_def err_def EIO_def split: if_splits prod.splits)

text \<open>A head with its verb and target, and a body of any bytes behind it.\<close>

lemma head_request:
  assumes "well_formed_head head" and "request_words (to_chars head) = Some w"
  shows "request_words (c_str (to_chars (head @ x))) = Some w"
    and "header_field (c_str (to_chars (head @ x))) name = header_field (to_chars head) name"
    and "[] \<in> set (tl (lines (c_str (to_chars (head @ x)))))"
proof -
  have c: "c_str (to_chars (head @ x)) = to_chars head @ c_str (to_chars x)"
    using assms(1) by (simp add: well_formed_head_def c_str_append)
  obtain a where a: "to_chars head = a @ CRLF @ CRLF"
    using header_end_head assms(1) by (auto simp: well_formed_head_def)
  show "request_words (c_str (to_chars (head @ x))) = Some w"
    unfolding c using assms(2) by (rule request_words_append)
  show "header_field (c_str (to_chars (head @ x))) name = header_field (to_chars head) name"
    unfolding c using header_field_head [of a "c_str (to_chars x)" name] by (simp add: a)
  show "[] \<in> set (tl (lines (c_str (to_chars (head @ x)))))"
    unfolding c using blank_line [of a "c_str (to_chars x)"] by (simp add: a)
qed

context ws_peer
begin

lemma client_request:
  assumes w: "well_formed_head head" and data: "data = recvd fd h @ head @ body"
    and words: "request_words (to_chars head) = Some words" "words \<noteq> (''GET'', ''/can'')" "words \<noteq> (''GET'', ''/ws'')"
  obtains x h1 where "handle_client svc E index_html fd st h =
      dispatch svc E index_html fd (c_str (to_chars (head @ x))) (head @ x) (length head) st h1"
    and "prefix x body" and "recvd fd h1 = recvd fd h @ head @ x" and "extends (recvs_from fd) h h1"
proof -
  have ne: "[] \<noteq> head" using w by (auto simp: well_formed_head_def header_end_def c_str_def)
  obtain x h1 where r: "recv_head E fd [] h = (Head (head @ x) (length head), h1)" "prefix x body"
    "recvd fd h1 = recvd fd h @ head @ x" "extends (recvs_from fd) h h1"
    using recv_head_peer [OF w data, of h "[]"] ne by auto
  have "\<not> request_is_websocket (c_str (to_chars (head @ x)))"
    using websocket_request [OF head_request(3) [OF w words(1)]] head_request(1) [OF w words(1)] words by auto
  from that [OF handle_client_dispatch [OF r(1) this] r(2-4)] show ?thesis .
qed

lemma put_not_ws: "(''PUT'', target) \<noteq> (''GET'', ''/can'')" "(''PUT'', target) \<noteq> (''GET'', ''/ws'')"
  by simp_all

lemma put_request:
  assumes L: "littlefs E" and w: "well_formed_head head" and data: "data = recvd fd h @ head @ body"
    and words: "request_words (to_chars head) = Some (''PUT'', ''/user/index.html'')"
    and cl: "header_field (to_chars head) ''Content-Length'' = Some (dec (length body))"
    and len: "length body \<le> 524288"
  shows "\<exists>st' h' p. handle_client svc E index_html fd st h = Some (st', h') \<and> sent fd h' = sent fd h @ p \<and>
    (page p0 h' = body \<and> prefix p (text_response ''201 Created'' ''user page written'') \<and>
       (sends_work E fd \<longrightarrow> p = text_response ''201 Created'' ''user page written'') \<or>
     \<not> fs_works E (http_storage st) \<and>
       prefix p (text_response ''500 Internal Server Error'' ''user page write failed''))"
proof -
  obtain x h1 where c: "handle_client svc E index_html fd st h =
      dispatch svc E index_html fd (c_str (to_chars (head @ x))) (head @ x) (length head) st h1" "prefix x body"
    "recvd fd h1 = recvd fd h @ head @ x" "extends (recvs_from fd) h h1"
    using client_request [OF w data words put_not_ws] by metis
  let ?rq = "c_str (to_chars (head @ x))"
  let ?reader = "\<lparr>rb_fd = fd, rb_pending = x, rb_pending_len = length x, rb_pending_pos = 0\<rparr>"
  note rq = head_request [OF w words, of x]
  have route: "route_of ?rq = Put_page" using rq(1) by (simp add: route_of_def)
  have d: "content_length ?rq = Some (dec (length body))" "list_all is_digit (dec (length body))"
    "undec (dec (length body)) = length body"
    using rq(2) cl dec_digits [of _ "length body"] by (auto simp: content_length_def list_all_iff)
  have lx: "length x \<le> length body" using c(2) by (rule prefix_length_le)
  obtain r c' s1 h2 where up: "storage_write_user_index_stream E (length body) (Some (request_body_read E)) ?reader
      (http_storage st) h1 = (r, c', s1, h2)"
    by (metis prod.exhaust)
  have s2: "sent fd h2 = sent fd h"
  proof -
    have "extends (\<lambda>c. storage_call c \<or> recvs_from fd c) h1 h2"
      by (rule write_user_index_extends [OF up, where K = "\<lambda>c. rb_fd c = fd"])
        (auto simp: request_body_read_def zsock_recv_def Let_def split: prod.splits sum.splits intro: extends_append)
    then have "sent fd h2 = sent fd h1" by (rule extends_keeps) auto
    then show ?thesis using recvs_sent [OF c(4)] by simp
  qed
  have hp: "handle_put E fd ?rq (head @ x) (length head) (http_storage st) h1 =
      (s1, if r < 0 then respond_and_close E fd ''500 Internal Server Error'' ''user page write failed'' h2
           else respond_and_close E fd ''201 Created'' ''user page written'' h2)"
    unfolding handle_put_length [OF rq(3)] d(1) using d(2,3) len lx up by (simp add: Let_def)
  have pg: "page p0 h2 = body" if "\<not> r < 0"
  proof -
    have "r = 0" using that write_user_index_ret [OF up] by simp
    then show ?thesis
      using upload_body [OF L _ c(2) _ up [unfolded \<open>r = 0\<close>], of "recvd fd h @ head" p0] data c(3) by simp
  qed
  have works: "\<not> r < 0" if "fs_works E (http_storage st)"
    using upload_succeeds [OF that _ c(2), of "recvd fd h @ head" h1] data c(3) up by auto
  have pr: "page p0 (respond_and_close E fd status line h2) = page p0 h2" for status line
  proof -
    have "page p0 (snd (send_text_response E fd status text_plain (line @ [LF]) h2)) = page p0 h2"
      using respond_extends by (rule send_page)
    then show ?thesis by (simp add: respond_and_close_def zsock_close_def)
  qed
  have "length (text_header ''201 Created'' text_plain (length ''user page written'' + 1)) < 128" by code_simp
  note whole = respond_whole [OF _ this]
  show ?thesis
    unfolding c(1) dispatch_def route route.case hp Let_def prod.case
    using whole [of fd h2] respond_and_close_sent [of "''201 Created''" "''user page written''" fd h2]
      respond_and_close_sent [of "''500 Internal Server Error''" "''user page write failed''" fd h2] s2 pg pr works
    by (cases "r < 0") auto
qed

lemma get_request:
  assumes F: "page_store E p0" and w: "well_formed_head head" and data: "data = recvd fd h @ head @ body"
    and words: "request_words (to_chars head) = Some (''GET'', target)" "target = ''/user'' \<or> target = ''/user/''"
  shows "\<exists>st' h' p. handle_client svc E index_html fd st h = Some (st', h') \<and> sent fd h' = sent fd h @ p \<and>
    (prefix p (to_bytes user_not_found) \<or>
     524288 < length (page p0 h) \<and> prefix p (text_response ''413 Payload Too Large'' ''user page too large'') \<or>
     length (page p0 h) \<le> 524288 \<and>
       prefix p (to_bytes (text_header ''200 OK'' text_html (length (page p0 h))) @ page p0 h)) \<and>
    (fs_readable E (http_storage st) \<and> sends_work E fd \<and> length (page p0 h) \<le> 524288 \<longrightarrow>
       p = to_bytes (text_header ''200 OK'' text_html (length (page p0 h))) @ page p0 h)"
proof -
  have t: "(''GET'', target) \<noteq> (''GET'', ''/can'')" "(''GET'', target) \<noteq> (''GET'', ''/ws'')"
    using words(2) by auto
  obtain x h1 where c: "handle_client svc E index_html fd st h =
      dispatch svc E index_html fd (c_str (to_chars (head @ x))) (head @ x) (length head) st h1"
    "extends (recvs_from fd) h h1"
    using client_request [OF w data words(1) t] by metis
  have route: "route_of (c_str (to_chars (head @ x))) = User_page"
    using head_request(1) [OF w words(1), of x] words(2) by (auto simp: route_of_def)
  obtain s' h' where u: "handle_user_page E fd (http_storage st) h1 = Some (s', h')"
    using user_page_served [OF sockets_axioms F] by blast
  have "page p0 h1 = page p0 h" using c(2) by (rule extends_keeps) simp
  then show ?thesis
    using user_page_sent [OF F u] recvs_sent [OF c(2)]
    unfolding c(1) dispatch_def route route.case u by auto
qed

end

text \<open>A connection that is not upgraded is served; one that is becomes the session.\<close>

lemma client_served:
  assumes "sockets E" and "page_store E p0" and rh: "recv_head E fd [] h = (r, h1)"
    and nw: "\<And>buf n. r = Head buf n \<Longrightarrow> \<not> request_is_websocket (c_str (to_chars buf))"
  shows "\<exists>st' h'. handle_client svc E index_html fd st h = Some (st', h') \<and> served fd h h' \<and> http_ws st' = http_ws st"
proof -
  have e: "extends (conn_call fd) h h1" using recv_head_result [OF rh] conn_extends(2) by blast
  show ?thesis
  proof (cases r)
    case Head_lost
    then show ?thesis using rh served_close [OF e] by (simp add: handle_client_def)
  next
    case Head_too_large
    then show ?thesis using rh served_send [OF e] by (simp add: handle_client_def)
  next
    case (Head buf n)
    obtain st' h' where "dispatch svc E index_html fd (c_str (to_chars buf)) buf n st h1 = Some (st', h')"
      "http_ws st' = http_ws st" "served fd h1 h'"
      using dispatch_served [OF assms(1,2)] by blast
    then show ?thesis
      using handle_client_dispatch [OF rh [unfolded Head] nw [OF Head], of svc index_html st] served_after [OF e] by simp
  qed
qed

lemma client_upgraded:
  assumes "sockets E" and rh: "recv_head E fd [] h = (Head buf n, h1)" and ws: "request_is_websocket (c_str (to_chars buf))"
  shows "\<exists>st' h'. handle_client svc E index_html fd st h = Some (st', h') \<and>
    (served fd h h' \<and> http_ws st' = http_ws st \<or>
     \<not> ws_active (http_ws st) \<and> ws_active (http_ws st') \<and> wc_fd (ws_client (http_ws st')) = fd \<and>
       (\<exists>h2. extends (conn_call fd) h h2 \<and> h' = h2 @ [K_thread_create Ws_thread]))"
proof -
  let ?rq = "c_str (to_chars buf)"
  note x = recv_head_result [OF rh]
  have e: "extends (conn_call fd) h h1" using x conn_extends(2) by blast
  note he = header_end_blank [OF x [THEN conjunct2, rule_format, OF refl]]
  obtain r w' h2 where hw: "handle_websocket svc E fd ?rq (drop n buf) (length buf - n) (http_ws st) h1 = (r, w', h2)"
    by (metis prod.exhaust)
  note u = upgrade_outcome [OF assms(1) he(1) _ hw]
  have c: "handle_client svc E index_html fd st h = Some (st\<lparr>http_ws := w'\<rparr>, if r < 0 then zsock_close fd h2 else h2)"
    using rh ws hw by (simp add: handle_client_def)
  show ?thesis
  proof (cases "r < 0")
    case True
    then have "w' = http_ws st" "extends (sends_to fd) h1 h2"
      using u by (auto split: if_splits option.splits simp: err_def)
    then show ?thesis using True c served_close [OF extends_trans [OF e conn_extends(1)]] by simp
  next
    case False
    then obtain h3 where "\<not> ws_active (http_ws st)" "ws_active w'" "wc_fd (ws_client w') = fd"
      "extends (sends_to fd) h1 h3" "h2 = h3 @ [K_thread_create Ws_thread]"
      using u by (auto split: if_splits option.splits simp: err_def EBUSY_def EINVAL_def)
    then show ?thesis using False c extends_trans [OF e conn_extends(1)] by auto
  qed
qed

lemma client_outcome:
  assumes "sockets E" and "page_store E p0"
  shows "\<exists>st' h'. handle_client svc E index_html fd st h = Some (st', h') \<and>
    (\<forall>fd'. fd' \<noteq> fd \<longrightarrow> sent fd' h' = sent fd' h \<and> recvd fd' h' = recvd fd' h \<and> closes fd' h' = closes fd' h) \<and>
    (closes fd h' = closes fd h + 1 \<and> http_ws st' = http_ws st \<or>
     closes fd h' = closes fd h \<and> \<not> ws_active (http_ws st) \<and> ws_active (http_ws st') \<and>
       wc_fd (ws_client (http_ws st')) = fd \<and> last h' = K_thread_create Ws_thread)"
proof -
  obtain r h1 where rh: "recv_head E fd [] h = (r, h1)" by force
  show ?thesis
  proof (cases "\<exists>buf n. r = Head buf n \<and> request_is_websocket (c_str (to_chars buf))")
    case False
    then obtain st' h' where "handle_client svc E index_html fd st h = Some (st', h')" "served fd h h'"
      "http_ws st' = http_ws st"
      using client_served [OF assms rh] by blast
    then show ?thesis using served_frame [of fd h h'] by simp
  next
    case True
    then obtain buf n where "recv_head E fd [] h = (Head buf n, h1)" "request_is_websocket (c_str (to_chars buf))"
      using rh by blast
    from client_upgraded [OF assms(1) this, of svc index_html st] obtain st' h' where
      c: "handle_client svc E index_html fd st h = Some (st', h')" and
      o: "served fd h h' \<and> http_ws st' = http_ws st \<or>
       \<not> ws_active (http_ws st) \<and> ws_active (http_ws st') \<and> wc_fd (ws_client (http_ws st')) = fd \<and>
         (\<exists>h2. extends (conn_call fd) h h2 \<and> h' = h2 @ [K_thread_create Ws_thread])"
      by blast
    from o show ?thesis
    proof (elim disjE conjE exE)
      assume "served fd h h'" "http_ws st' = http_ws st"
      then show ?thesis using c served_frame [of fd h h'] by simp
    next
      fix h2
      assume "\<not> ws_active (http_ws st)" "ws_active (http_ws st')" "wc_fd (ws_client (http_ws st')) = fd"
        "extends (conn_call fd) h h2" "h' = h2 @ [K_thread_create Ws_thread]"
      then show ?thesis using c conn_frame [of fd h h2] by simp
    qed
  qed
qed

section \<open>Properties\<close>

text \<open>
  C25: whatever a client sends and however the connection behaves, serving it returns and leaves the other
  connections alone; its own is closed exactly once, unless it has become the one WebSocket session, whose
  thread is started and which was not active before.
\<close>

theorem client_closed_once:
  assumes "sockets E" and "page_store E p0"
  shows "\<exists>st' h'. handle_client svc E index_html fd st h = Some (st', h') \<and>
    (\<forall>fd'. fd' \<noteq> fd \<longrightarrow> sent fd' h' = sent fd' h \<and> recvd fd' h' = recvd fd' h \<and> closes fd' h' = closes fd' h) \<and>
    (closes fd h' = closes fd h + 1 \<and> http_ws st' = http_ws st \<or>
     closes fd h' = closes fd h \<and> \<not> ws_active (http_ws st) \<and> ws_active (http_ws st') \<and>
       wc_fd (ws_client (http_ws st')) = fd \<and> last h' = K_thread_create Ws_thread)"
  by (rule client_outcome [OF assms])

text \<open>
  C26: the chain of string comparisons chooses by the words of the request line: an upgrade is a GET of \<open>/can\<close> or
  \<open>/ws\<close> with a key, and any other request is dispatched by its verb and target alone.
\<close>

theorem routes_by_words:
  assumes "recv_head E fd [] h = (Head buf n, h1)"
  shows "handle_client svc E index_html fd st h =
    (let request = c_str (to_chars buf) in
     if request_words request \<in> {Some (''GET'', ''/can''), Some (''GET'', ''/ws'')} \<and>
        header_field request ''Sec-WebSocket-Key'' \<noteq> None then
       (let (ret, w1, h2) = handle_websocket svc E fd request (drop n buf) (length buf - n) (http_ws st) h1
        in Some (st\<lparr>http_ws := w1\<rparr>, if ret < 0 then zsock_close fd h2 else h2))
     else dispatch svc E index_html fd request buf n st h1)"
proof -
  have "header_end buf = Some n" using recv_head_result [OF assms] by blast
  note w = websocket_request [OF header_end_blank(1) [OF this]]
  show ?thesis
  proof (cases "request_is_websocket (c_str (to_chars buf))")
    case True
    then have "request_words (c_str (to_chars buf)) \<in> {Some (''GET'', ''/can''), Some (''GET'', ''/ws'')} \<and>
        header_field (c_str (to_chars buf)) ''Sec-WebSocket-Key'' \<noteq> None"
      using w by blast
    then show ?thesis using True assms unfolding handle_client_def Let_def by simp
  next
    case False
    show ?thesis
      unfolding handle_client_dispatch [OF assms False] Let_def w [symmetric] using False by simp
  qed
qed

text \<open>
  C27: a page of at most 512 KiB that a client sends with its length is stored byte for byte, however the network
  cuts up head and body, and the answer is \<open>201 Created\<close>, whole where no send fails and else a part of it; only where
  some call of the file system fails can it be \<open>500 Internal Server Error\<close>.
\<close>

theorem put_stores_page:
  assumes "ws_peer E fd data" and "littlefs E" and "well_formed_head head"
    and "data = recvd fd h @ head @ body"
    and "request_words (to_chars head) = Some (''PUT'', ''/user/index.html'')"
    and "header_field (to_chars head) ''Content-Length'' = Some (dec (length body))"
    and "length body \<le> 524288"
  shows "\<exists>st' h' p. handle_client svc E index_html fd st h = Some (st', h') \<and> sent fd h' = sent fd h @ p \<and>
    (page p0 h' = body \<and> prefix p (text_response ''201 Created'' ''user page written'') \<and>
       (sends_work E fd \<longrightarrow> p = text_response ''201 Created'' ''user page written'') \<or>
     \<not> fs_works E (http_storage st) \<and> prefix p (text_response ''500 Internal Server Error'' ''user page write failed''))"
  using ws_peer.put_request [OF assms] .

text \<open>
  C28: a request for the user page is answered with its length and the page as it is stored, or a part of that,
  with 404 when there is none, and with 413 when it is over 512 KiB. Where nothing fails, a page of at most 512 KiB
  is sent whole.
\<close>

theorem get_sends_page:
  assumes "ws_peer E fd data" and "page_store E p0" and "well_formed_head head"
    and "data = recvd fd h @ head @ body"
    and "request_words (to_chars head) = Some (''GET'', target)" and "target = ''/user'' \<or> target = ''/user/''"
  shows "\<exists>st' h' p. handle_client svc E index_html fd st h = Some (st', h') \<and> sent fd h' = sent fd h @ p \<and>
    (prefix p (to_bytes user_not_found) \<or>
     524288 < length (page p0 h) \<and> prefix p (text_response ''413 Payload Too Large'' ''user page too large'') \<or>
     length (page p0 h) \<le> 524288 \<and>
       prefix p (to_bytes (text_header ''200 OK'' text_html (length (page p0 h))) @ page p0 h)) \<and>
    (fs_readable E (http_storage st) \<and> sends_work E fd \<and> length (page p0 h) \<le> 524288 \<longrightarrow>
       p = to_bytes (text_header ''200 OK'' text_html (length (page p0 h))) @ page p0 h)"
  using ws_peer.get_request [OF assms] .

text \<open>
  C29: the status of the file system always fits its two buffers: the answer is \<open>200 OK\<close> with the length and the text
  of one JSON document that says whether the mount was attempted and succeeded, its result and the space, and all of
  it is sent unless a send fails (a text that did not fit would be dropped and the connection closed without it).
\<close>

theorem fs_status_fits:
  assumes "sockets E" and "handle_fs_status E fd s h = (s', h')" and "is_int32 (mount_ret s)"
    and "\<And>h. is_int32 (env_fs_mount E h)"
  shows "mount_attempted s' \<and> (\<exists>body p. json_read body = Some (fs_doc (status_of s')) \<and> length body < 192 \<and>
    prefix p (to_bytes (text_header ''200 OK'' ''application/json'' (length body) @ body)) \<and> sent fd h' = sent fd h @ p \<and>
    (sends_work E fd \<longrightarrow> p = to_bytes (text_header ''200 OK'' ''application/json'' (length body) @ body)))"
  using sockets.fs_status_sent [OF assms] .

text \<open>
  C30: \<open>Content-Length\<close> is accumulated in 32 bits, so the limit of 512 KiB is checked on the value modulo \<open>2^32\<close>: a
  length of \<open>2^32 + k\<close> is not refused with 413 but served as an upload of \<open>k\<close> bytes.
\<close>

theorem oversized_length_accepted:
  assumes "[] \<in> set (tl (lines request))" and "content_length request = Some v" and "list_all is_digit v"
    and "undec v = 2 ^ 32 * m + k" and "k \<le> 524288" and "length buf - n \<le> k"
  shows "handle_put E fd request buf n s h =
    (let (ret, reader1, s1, h1) = storage_write_user_index_stream E k (Some (request_body_read E))
           \<lparr>rb_fd = fd, rb_pending = drop n buf, rb_pending_len = length buf - n, rb_pending_pos = 0\<rparr> s h in
     if ret < 0 then (s1, respond_and_close E fd ''500 Internal Server Error'' ''user page write failed'' h1)
     else (s1, respond_and_close E fd ''201 Created'' ''user page written'' h1))"
proof -
  have "undec v mod 2 ^ 32 = k" using assms(4,5) by simp
  then show ?thesis
    unfolding handle_put_length [OF assms(1)] assms(2) using assms(3,5,6) by (simp add: Let_def)
qed

section \<open>A board with clients\<close>

text \<open>The reference board with a page, on which each connection has its stream to deliver.\<close>

definition board_site :: "(int \<Rightarrow> u8 list) \<Rightarrow> u8 list \<Rightarrow> env" where
  "board_site streams p0 = (board_page (\<lambda>h. []) p0)
     \<lparr>env_recv := \<lambda>h fd n. Inr (take n (drop (length (recvd fd h)) (streams fd)))\<rparr>"

interpretation board_site_peer: ws_peer "board_site streams p0" fd "streams fd" for streams p0 fd
proof unfold_locales
  fix h n bs
  assume "env_recv (board_site streams p0) h fd n = Inr bs" "0 < n" "prefix (recvd fd h) (streams fd)"
  then show "prefix (recvd fd h @ bs) (streams fd) \<and> (bs = [] \<longrightarrow> recvd fd h = streams fd)"
    by (auto simp: board_site_def prefix_def) (metis append_take_drop_id)
qed (auto simp: board_site_def board_page_def board_def)

interpretation board_site_store: page_store "board_site streams p0" p0 for streams p0
proof unfold_locales
  fix h :: hist and m :: nat and bs
  assume "env_fs_read (board_site streams p0) h m = Inr bs" "0 < m" "prefix (page_read h) (page p0 h)"
  then show "prefix (page_read h @ bs) (page p0 h) \<and> (bs = [] \<longrightarrow> page_read h = page p0 h)"
    using board_file.read_next [of "\<lambda>h. []" p0 h m bs] by (simp add: board_site_def)
qed (auto simp: board_site_def board_page_def board_def)

definition demo_put :: "u8 list" where
  "demo_put = to_bytes (''PUT /user/index.html HTTP/1.1'' @ CRLF @ ''Content-Length: 5'' @ CRLF @ CRLF)"

definition demo_get :: "u8 list" where
  "demo_get = to_bytes (''GET /user/ HTTP/1.1'' @ CRLF @ ''Host: pico'' @ CRLF @ CRLF)"

definition demo_streams :: "int \<Rightarrow> u8 list" where
  "demo_streams fd = (if fd = 4 then demo_put @ to_bytes ''hello'' else if fd = 5 then demo_get else [])"

definition demo_site :: env where
  "demo_site = board_site demo_streams []"

definition demo_http :: "can_frame list can_bridge http_state" where
  "demo_http = \<lparr>server_fd = 3, server_started = True, http_ws = demo_session\<lparr>ws_active := False\<rparr>,
     http_storage = storage_boot\<rparr>"

lemma demo_put_well_formed: "well_formed_head demo_put" by code_simp

lemma demo_get_well_formed: "well_formed_head demo_get" by code_simp

lemma demo_put_words: "request_words (to_chars demo_put) = Some (''PUT'', ''/user/index.html'')" by code_simp

lemma demo_get_words: "request_words (to_chars demo_get) = Some (''GET'', ''/user/'')" by code_simp

lemma demo_put_length: "header_field (to_chars demo_put) ''Content-Length'' = Some (dec (length (to_bytes ''hello'')))"
  by code_simp

lemmas demo_heads = demo_put_well_formed demo_get_well_formed demo_put_words demo_get_words demo_put_length

lemmas demo_site_facts = board_site_peer.ws_peer_axioms [of demo_streams "[]", folded demo_site_def]
  board_site_peer.sockets_axioms [of demo_streams "[]", folded demo_site_def]
  board_site_store.page_store_axioms [of demo_streams "[]", folded demo_site_def]
  board_site_store.littlefs_axioms [of demo_streams "[]", folded demo_site_def]

lemma demo_site_works:
  "fs_works demo_site (http_storage demo_http)" "fs_readable demo_site (http_storage demo_http)"
  "sends_work demo_site fd"
  by (simp_all add: fs_works_def fs_readable_def sends_work_def demo_http_def storage_boot_def demo_site_def
      board_site_def board_page_def board_def USER_DIR_PATH_def USER_INDEX_PATH_def STORAGE_PATH_def)

theorem client_closed_once_witness:
  "\<exists>st' h'. handle_client (can_service (list_msgq CAN_QUEUE_LEN) demo_site ref_parse) demo_site ''page'' 4 demo_http [] =
      Some (st', h') \<and> sent 5 h' = [] \<and> closes 5 h' = 0"
proof -
  obtain st' h' where c: "handle_client (can_service (list_msgq CAN_QUEUE_LEN) demo_site ref_parse) demo_site ''page'' 4
      demo_http [] = Some (st', h')" and
    o: "\<forall>fd'. fd' \<noteq> 4 \<longrightarrow> sent fd' h' = sent fd' [] \<and> recvd fd' h' = recvd fd' [] \<and> closes fd' h' = closes fd' []"
    using client_closed_once [OF demo_site_facts(2,3)] by blast
  from o have "sent 5 h' = []" "closes 5 h' = 0" by simp_all
  then show ?thesis using c by blast
qed

theorem routes_by_words_witness:
  "\<exists>buf h1. recv_head demo_site 5 [] [] = (Head buf (length demo_get), h1) \<and>
    handle_client (can_service (list_msgq CAN_QUEUE_LEN) demo_site ref_parse) demo_site ''page'' 5 demo_http [] =
      dispatch (can_service (list_msgq CAN_QUEUE_LEN) demo_site ref_parse) demo_site ''page'' 5 (to_chars demo_get)
        buf (length demo_get) demo_http h1"
proof -
  obtain x h1 where r: "recv_head demo_site 5 [] [] = (Head (demo_get @ x) (length demo_get), h1)" "prefix x []"
    using ws_peer.recv_head_peer [OF demo_site_facts(1) demo_heads(2), of 5 "[]" "[]" "[]" "[]"]
    by (auto simp: demo_streams_def demo_get_def)
  have c: "c_str (to_chars demo_get) = to_chars demo_get" "request_words (to_chars demo_get) = Some (''GET'', ''/user/'')"
    using demo_heads(2,4) by (simp_all add: c_str_id well_formed_head_def)
  show ?thesis
    using routes_by_words [OF r(1), of "can_service (list_msgq CAN_QUEUE_LEN) demo_site ref_parse" "''page''" demo_http]
      r c by (auto simp: Let_def)
qed

theorem put_stores_page_witness:
  "\<exists>st' h'. handle_client (can_service (list_msgq CAN_QUEUE_LEN) demo_site ref_parse) demo_site ''page'' 4 demo_http [] =
      Some (st', h') \<and> page [] h' = to_bytes ''hello'' \<and>
    sent 4 h' = text_response ''201 Created'' ''user page written''"
proof -
  have d: "demo_streams 4 = recvd 4 [] @ demo_put @ to_bytes ''hello''" by (simp add: demo_streams_def)
  have l: "length (to_bytes ''hello'') \<le> 524288" by simp
  obtain st' h' p where p: "handle_client (can_service (list_msgq CAN_QUEUE_LEN) demo_site ref_parse) demo_site ''page'' 4
      demo_http [] = Some (st', h')" "sent 4 h' = sent 4 [] @ p"
    "page [] h' = to_bytes ''hello'' \<and> prefix p (text_response ''201 Created'' ''user page written'') \<and>
       (sends_work demo_site 4 \<longrightarrow> p = text_response ''201 Created'' ''user page written'') \<or>
     \<not> fs_works demo_site (http_storage demo_http) \<and>
       prefix p (text_response ''500 Internal Server Error'' ''user page write failed'')"
    using put_stores_page [OF demo_site_facts(1,4) demo_heads(1) d demo_heads(3,5) l] by blast
  have "page [] h' = to_bytes ''hello'' \<and> p = text_response ''201 Created'' ''user page written''"
    using p(3) demo_site_works(1,3) by blast
  moreover have "sent 4 h' = p" using p(2) by simp
  ultimately show ?thesis using p(1) by blast
qed

text \<open>The same site with a page on its disk.\<close>

definition paged_site :: env where
  "paged_site = board_site demo_streams (to_bytes ''hello'')"

lemmas paged_site_facts = board_site_peer.ws_peer_axioms [of demo_streams "to_bytes ''hello''", folded paged_site_def]
  board_site_store.page_store_axioms [of demo_streams "to_bytes ''hello''", folded paged_site_def]

lemma paged_site_works: "fs_readable paged_site (http_storage demo_http)" "sends_work paged_site fd"
  by (simp_all add: fs_readable_def sends_work_def demo_http_def storage_boot_def paged_site_def
      board_site_def board_page_def board_def USER_INDEX_PATH_def)

theorem get_sends_page_witness:
  "\<exists>st' h'. handle_client (can_service (list_msgq CAN_QUEUE_LEN) paged_site ref_parse) paged_site ''page'' 5 demo_http [] =
      Some (st', h') \<and> sent 5 h' = to_bytes (text_header ''200 OK'' text_html 5) @ to_bytes ''hello''"
proof -
  have d: "demo_streams 5 = recvd 5 [] @ demo_get @ []" by (simp add: demo_streams_def)
  have p: "page (to_bytes ''hello'') [] = to_bytes ''hello''" by (simp add: page_def)
  have t: "''/user/'' = ''/user'' \<or> ''/user/'' = ''/user/''" by simp
  obtain st' h' p where c: "handle_client (can_service (list_msgq CAN_QUEUE_LEN) paged_site ref_parse) paged_site ''page'' 5
      demo_http [] = Some (st', h')" "sent 5 h' = sent 5 [] @ p" and
    o: "fs_readable paged_site (http_storage demo_http) \<and> sends_work paged_site 5 \<and>
        length (page (to_bytes ''hello'') []) \<le> 524288 \<longrightarrow>
       p = to_bytes (text_header ''200 OK'' text_html (length (page (to_bytes ''hello'') []))) @ page (to_bytes ''hello'') []"
    using get_sends_page [OF paged_site_facts demo_heads(2) d demo_heads(4) t] by blast
  have "length (to_bytes ''hello'') = 5" "(5 :: nat) \<le> 524288" by simp_all
  with o have "p = to_bytes (text_header ''200 OK'' text_html 5) @ to_bytes ''hello''"
    unfolding p using paged_site_works by metis
  moreover have "sent 5 h' = p" using c(2) by simp
  ultimately show ?thesis using c(1) by blast
qed

theorem fs_status_fits_witness:
  "\<exists>s' h' body. handle_fs_status demo_site 4 storage_boot [] = (s', h') \<and> mount_attempted s' \<and>
    json_read body = Some (fs_doc (status_of s')) \<and>
    sent 4 h' = to_bytes (text_header ''200 OK'' ''application/json'' (length body) @ body)"
proof -
  obtain s' h' where f: "handle_fs_status demo_site 4 storage_boot [] = (s', h')" by force
  have i: "is_int32 (mount_ret storage_boot)" "is_int32 (env_fs_mount demo_site h)" for h
    by (simp_all add: storage_boot_def demo_site_def board_site_def board_page_def board_def)
  show ?thesis using fs_status_fits [OF demo_site_facts(2) f i] demo_site_works(3) [of 4] f by auto
qed

definition wrapped_put :: string where
  "wrapped_put = ''PUT /user/index.html HTTP/1.1'' @ CRLF @ ''Content-Length: 4294967297'' @ CRLF @ CRLF"

theorem oversized_length_accepted_witness:
  "handle_put demo_site 4 wrapped_put (to_bytes (wrapped_put @ ''x'')) (length wrapped_put) storage_boot [] =
    (let (ret, reader1, s1, h1) = storage_write_user_index_stream demo_site 1 (Some (request_body_read demo_site))
           \<lparr>rb_fd = 4, rb_pending = drop (length wrapped_put) (to_bytes (wrapped_put @ ''x'')),
            rb_pending_len = length (to_bytes (wrapped_put @ ''x'')) - length wrapped_put, rb_pending_pos = 0\<rparr>
           storage_boot [] in
     if ret < 0 then (s1, respond_and_close demo_site 4 ''500 Internal Server Error'' ''user page write failed'' h1)
     else (s1, respond_and_close demo_site 4 ''201 Created'' ''user page written'' h1))"
proof -
  have l: "[] \<in> set (tl (lines wrapped_put))" and c: "content_length wrapped_put = Some ''4294967297''"
    and d: "list_all is_digit ''4294967297''"
    by code_simp+
  have u: "undec ''4294967297'' = 2 ^ 32 * 1 + 1" by (simp add: undec_def digit_val_def)
  show ?thesis by (rule oversized_length_accepted [OF l c d u]) simp_all
qed

end
