(* ===== verification/MainApp.thy ===== *)
theory MainApp
  imports UsbDevice HttpServer
begin

text \<open>
  \<open>main.c\<close>: the status LED, the handlers of the network, the watchdog and the start of the server, the
  messages of the USB stack, the IPv4 event and \<open>main\<close>. The handlers run in several threads; each is a
  step of the system below, in which the delayable work items behave as the kernel documents them and
  time passes. What \<open>main.c\<close> relies on from \<open>http_server_start\<close> is the locale \<open>http_starter\<close>.
\<close>

section \<open>The code\<close>

datatype led_mode = STATUS_LED_BLINK | STATUS_LED_SOLID | STATUS_LED_ERROR

record main_state =
  status_led_mode :: led_mode
  heartbeat_period_ms :: nat
  network_should_run :: bool
  network_is_up :: bool
  network_is_ready :: bool
  http_server_is_started :: bool

definition main_boot :: main_state where
  "main_boot = \<lparr>status_led_mode = STATUS_LED_BLINK, heartbeat_period_ms = 1000, network_should_run = False,
     network_is_up = False, network_is_ready = False, http_server_is_started = False\<rparr>"

definition status_led_set_blink :: "nat \<Rightarrow> main_state \<Rightarrow> main_state" where
  "status_led_set_blink period_ms m = m\<lparr>heartbeat_period_ms := period_ms, status_led_mode := STATUS_LED_BLINK\<rparr>"

definition status_led_set_solid :: "main_state \<Rightarrow> main_state" where
  "status_led_set_solid m = m\<lparr>status_led_mode := STATUS_LED_SOLID\<rparr>"

definition status_led_set_error :: "main_state \<Rightarrow> main_state" where
  "status_led_set_error m = m\<lparr>heartbeat_period_ms := 100, status_led_mode := STATUS_LED_ERROR\<rparr>"

definition usb_ncm_network_work_handler :: "env \<Rightarrow> main_state \<Rightarrow> hist \<Rightarrow> main_state \<times> hist" where
  "usb_ncm_network_work_handler E m h =
     (let should_run = network_should_run m in
      if \<not> env_net_if E h then (status_led_set_error m, h)
      else if should_run \<and> \<not> network_is_up m then (m\<lparr>network_is_up := True\<rparr>, h @ [Net_if_up])
      else if \<not> should_run \<and> network_is_up m then
        (status_led_set_blink 500 (m\<lparr>network_is_up := False, network_is_ready := False\<rparr>), h @ [Net_if_down])
      else (m, h))"

definition set_usb_ncm_network_state :: "bool \<Rightarrow> main_state \<Rightarrow> hist \<Rightarrow> main_state \<times> hist" where
  "set_usb_ncm_network_state up m h =
     (m\<lparr>network_should_run := up\<rparr>,
      h @ (if up then [K_work_schedule Network_work 1000]
           else [K_work_cancel Network_work, K_work_cancel Watchdog_work, K_work_schedule Network_work 0]))"

definition usb_ncm_startup_watchdog_work_handler :: "main_state \<Rightarrow> hist \<Rightarrow> main_state \<times> hist" where
  "usb_ncm_startup_watchdog_work_handler m h =
     (if \<not> network_should_run m \<or> network_is_ready m then (m, h)
      else (status_led_set_error m, h @ [K_sleep_ms 250, K_reboot]))"

definition http_server_start_work_handler ::
  "('h \<Rightarrow> hist \<Rightarrow> int \<times> 'h \<times> hist) \<Rightarrow> main_state \<Rightarrow> 'h \<Rightarrow> hist \<Rightarrow> main_state \<times> 'h \<times> hist" where
  "http_server_start_work_handler start m srv h =
     (if http_server_is_started m then (m, srv, h)
      else let m1 = m\<lparr>http_server_is_started := True\<rparr>;
               (ret, srv1, h1) = start srv h
           in if ret \<noteq> 0 then (status_led_set_error (m1\<lparr>http_server_is_started := False\<rparr>), srv1, h1)
              else (m1, srv1, h1))"

datatype usbd_msg =
    USBD_MSG_CONFIGURATION | USBD_MSG_STACK_ERROR | USBD_MSG_UDC_ERROR | USBD_MSG_RESET | USBD_MSG_SUSPEND
  | USBD_MSG_VBUS_REMOVED | USBD_MSG_RESUME | USBD_MSG_VBUS_READY | USBD_MSG_OTHER

definition usbd_msg_cb :: "usbd_msg \<Rightarrow> main_state \<Rightarrow> hist \<Rightarrow> main_state \<times> hist" where
  "usbd_msg_cb msg m h =
     (if msg = USBD_MSG_CONFIGURATION then
        (let (m1, h1) = set_usb_ncm_network_state True m h in (m1, h1 @ [K_work_reschedule Watchdog_work 6000]))
      else if msg \<in> {USBD_MSG_STACK_ERROR, USBD_MSG_UDC_ERROR} then
        set_usb_ncm_network_state False (status_led_set_blink 500 (m\<lparr>network_is_ready := False\<rparr>)) h
      else if msg \<in> {USBD_MSG_RESET, USBD_MSG_SUSPEND, USBD_MSG_VBUS_REMOVED} then
        set_usb_ncm_network_state False (status_led_set_blink 500 (m\<lparr>network_is_ready := False\<rparr>)) h
      else if msg \<in> {USBD_MSG_RESUME, USBD_MSG_VBUS_READY} then
        (let (m1, h1) = set_usb_ncm_network_state True (status_led_set_blink 500 m) h
         in (m1, h1 @ [K_work_reschedule Watchdog_work 6000]))
      else (m, h))"

text \<open>The heartbeat thread: whether it runs at all, and one turn of its loop.\<close>

definition heartbeat_starts :: "env \<Rightarrow> hist \<Rightarrow> bool" where
  "heartbeat_starts E h \<longleftrightarrow> env_gpio_ready E h \<and> \<not> env_gpio_configure E h < 0"

definition heartbeat_turn :: "main_state \<Rightarrow> hist \<Rightarrow> hist" where
  "heartbeat_turn m h =
     (case status_led_mode m of
        STATUS_LED_SOLID \<Rightarrow> h @ [Gpio_set True, K_sleep_ms 1000]
      | _ \<Rightarrow> h @ [Gpio_toggle, K_sleep_ms (heartbeat_period_ms m)])"

fun ipv4_addr_loop :: "net_if_addr list \<Rightarrow> main_state \<Rightarrow> hist \<Rightarrow> main_state \<times> hist" where
  "ipv4_addr_loop [] m h = (m, h)"
| "ipv4_addr_loop (ifaddr # rest) m h =
     (if \<not> ifa_is_used ifaddr \<or> \<not> ifa_autoconf ifaddr then ipv4_addr_loop rest m h
      else ipv4_addr_loop rest (status_led_set_solid (m\<lparr>network_is_ready := True\<rparr>))
             (h @ [K_work_cancel Watchdog_work, K_work_submit Http_start_work]))"

definition ipv4_addr_handler :: "env \<Rightarrow> main_state \<Rightarrow> hist \<Rightarrow> main_state \<times> hist" where
  "ipv4_addr_handler E m h =
     (case env_ipv4 E h of None \<Rightarrow> (m, h) | Some unicast \<Rightarrow> ipv4_addr_loop unicast m h)"

text \<open>The work items and the IPv4 event get their handlers, which are the steps of the system below.\<close>

definition register_usb_ncm_network_callbacks :: "hist \<Rightarrow> hist" where
  "register_usb_ncm_network_callbacks h =
     h @ [K_work_init Network_work, K_work_init Watchdog_work, K_work_init Http_start_work,
          Net_mgmt_init_callback, Net_mgmt_add_callback]"

text \<open>\<open>main\<close> up to the point from which messages arrive: whether USB has been enabled.\<close>

definition main_start :: "env \<Rightarrow> main_state \<Rightarrow> hist \<Rightarrow> bool \<times> main_state \<times> hist" where
  "main_start E m h =
     (let (usbd, h1) = usb_device_init E h in
      if \<not> usbd then (False, status_led_set_error m, h1)
      else let (ret, h2) = usbd_call E Register_cb (register_usb_ncm_network_callbacks h1) in
      if ret \<noteq> 0 then (False, status_led_set_error m, h2)
      else let (ret, h3) = usbd_call E Usbd_enable h2 in
      if ret \<noteq> 0 then (False, status_led_set_error m, h3)
      else (True, m, h3))"

text \<open>The rest of it, before it sleeps for good.\<close>

definition main_rest :: "env \<Rightarrow> main_state \<Rightarrow> 'q can_bridge \<Rightarrow> hist \<Rightarrow> main_state \<times> 'q can_bridge \<times> hist" where
  "main_rest E m b h =
     (let m1 = status_led_set_blink 500 m; (ret, b1, h1) = can_bridge_init E b h in (m1, b1, h1))"

section \<open>The system\<close>

text \<open>
  The work items of the kernel: scheduling leaves an item that is already scheduled alone, rescheduling moves
  it, cancelling removes it. \<open>due\<close> says when each is to run, in milliseconds.
\<close>

fun work_step :: "nat \<Rightarrow> (work \<Rightarrow> nat option) \<Rightarrow> call \<Rightarrow> work \<Rightarrow> nat option" where
  "work_step now due (K_work_init w) = due(w := None)"
| "work_step now due (K_work_schedule w ms) = (if due w = None then due(w := Some (now + ms)) else due)"
| "work_step now due (K_work_reschedule w ms) = due(w := Some (now + ms))"
| "work_step now due (K_work_cancel w) = due(w := None)"
| "work_step now due (K_work_submit w) = (if due w = None then due(w := Some now) else due)"
| "work_step now due _ = due"

record 'h system =
  sys_main :: main_state
  sys_http :: 'h
  sys_hist :: hist
  sys_now :: nat
  sys_due :: "work \<Rightarrow> nat option"
  sys_down :: bool

text \<open>The state after a handler that has left \<open>m\<close>, \<open>srv\<close> and the history \<open>h'\<close>.\<close>

definition settle :: "'h system \<Rightarrow> main_state \<Rightarrow> 'h \<Rightarrow> hist \<Rightarrow> 'h system" where
  "settle s m srv h' =
     (let cs = drop (length (sys_hist s)) h' in
      s\<lparr>sys_main := m, sys_http := srv, sys_hist := h', sys_due := foldl (work_step (sys_now s)) (sys_due s) cs,
        sys_down := (K_reboot \<in> set cs)\<rparr>)"

definition take_work :: "work \<Rightarrow> 'h system \<Rightarrow> 'h system" where
  "take_work w s = s\<lparr>sys_due := (sys_due s)(w := None)\<rparr>"

definition work_ready :: "work \<Rightarrow> 'h system \<Rightarrow> bool" where
  "work_ready w s \<longleftrightarrow> (case sys_due s w of None \<Rightarrow> False | Some d \<Rightarrow> d \<le> sys_now s)"

fun other_call :: "call \<Rightarrow> bool" where
  "other_call (K_work_init _) = False"
| "other_call (K_work_schedule _ _) = False"
| "other_call (K_work_reschedule _ _) = False"
| "other_call (K_work_cancel _) = False"
| "other_call (K_work_submit _) = False"
| "other_call K_reboot = False"
| "other_call (K_thread_start _) = False"
| "other_call Net_if_up = False"
| "other_call Net_if_down = False"
| "other_call _ = True"

datatype main_event = Usb_event usbd_msg | Ipv4_event | Work_event work | Clock_event | Main_event | Other_event

text \<open>
  A step of one of the threads; time passes only when no work item is due, so each runs in its millisecond. Handlers
  are atomic: an item is taken when its handler starts and has no running state of its own, and the 250 ms that the
  watchdog sleeps before \<open>sys_reboot\<close> take no time. So \<open>sys_down\<close> says that the watchdog has committed to the reboot,
  which nothing in the code can revoke; the reset follows a quarter of a second later.
\<close>

inductive main_step ::
  "env \<Rightarrow> ('h \<Rightarrow> hist \<Rightarrow> int \<times> 'h \<times> hist) \<Rightarrow> 'h system \<Rightarrow> main_event \<Rightarrow> 'h system \<Rightarrow> bool"
  for E start where
  step_usb: "\<not> sys_down s \<Longrightarrow> usbd_msg_cb msg (sys_main s) (sys_hist s) = (m', h') \<Longrightarrow>
    main_step E start s (Usb_event msg) (settle s m' (sys_http s) h')"
| step_ipv4: "\<not> sys_down s \<Longrightarrow> ipv4_addr_handler E (sys_main s) (sys_hist s) = (m', h') \<Longrightarrow>
    main_step E start s Ipv4_event (settle s m' (sys_http s) h')"
| step_network: "\<not> sys_down s \<Longrightarrow> work_ready Network_work s \<Longrightarrow>
    usb_ncm_network_work_handler E (sys_main s) (sys_hist s) = (m', h') \<Longrightarrow>
    main_step E start s (Work_event Network_work) (settle (take_work Network_work s) m' (sys_http s) h')"
| step_watchdog: "\<not> sys_down s \<Longrightarrow> work_ready Watchdog_work s \<Longrightarrow>
    usb_ncm_startup_watchdog_work_handler (sys_main s) (sys_hist s) = (m', h') \<Longrightarrow>
    main_step E start s (Work_event Watchdog_work) (settle (take_work Watchdog_work s) m' (sys_http s) h')"
| step_http: "\<not> sys_down s \<Longrightarrow> work_ready Http_start_work s \<Longrightarrow>
    http_server_start_work_handler start (sys_main s) (sys_http s) (sys_hist s) = (m', srv', h') \<Longrightarrow>
    main_step E start s (Work_event Http_start_work) (settle (take_work Http_start_work s) m' srv' h')"
| step_clock: "\<not> sys_down s \<Longrightarrow> \<not> work_ready Network_work s \<Longrightarrow> \<not> work_ready Watchdog_work s \<Longrightarrow>
    \<not> work_ready Http_start_work s \<Longrightarrow> main_step E start s Clock_event (s\<lparr>sys_now := Suc (sys_now s)\<rparr>)"
| step_main: "\<not> sys_down s \<Longrightarrow>
    main_rest E (sys_main s) (b :: can_frame list can_bridge) (sys_hist s) = (m', b', h') \<Longrightarrow>
    main_step E start s Main_event (settle s m' (sys_http s) h')"
| step_other: "\<not> sys_down s \<Longrightarrow> list_all other_call cs \<Longrightarrow>
    main_step E start s Other_event (settle s (sys_main s) (sys_http s) (sys_hist s @ cs))"

inductive_cases main_stepE: "main_step E start s ev s'"

lemmas main_step_cases [consumes 1, case_names usb ipv4 network watchdog http clock main other] = main_stepE

text \<open>The state after a boot in which USB came up, and the executions from a state with their events in order.\<close>

definition boot_state :: "env \<Rightarrow> 'h \<Rightarrow> nat \<Rightarrow> 'h system option" where
  "boot_state E srv now =
     (let (ok, m, h) = main_start E main_boot [] in
      if ok then Some \<lparr>sys_main = m, sys_http = srv, sys_hist = h, sys_now = now,
        sys_due = foldl (work_step now) (\<lambda>_. None) h, sys_down = False\<rparr>
      else None)"

inductive main_steps ::
  "env \<Rightarrow> ('h \<Rightarrow> hist \<Rightarrow> int \<times> 'h \<times> hist) \<Rightarrow> 'h system \<Rightarrow> main_event list \<Rightarrow> 'h system \<Rightarrow> bool"
  for E start where
  steps_none: "main_steps E start s [] s"
| steps_one: "main_steps E start s evs s' \<Longrightarrow> main_step E start s' ev s'' \<Longrightarrow> main_steps E start s (evs @ [ev]) s''"

inductive_cases main_steps_snocE: "main_steps E start s (evs @ [ev]) s'"

section \<open>What \<open>http_server_start\<close> promises\<close>

text \<open>It starts the server's threads the first time it is called, does nothing after that, and never fails.\<close>

locale http_starter =
  fixes start :: "'h \<Rightarrow> hist \<Rightarrow> int \<times> 'h \<times> hist" and running :: "'h \<Rightarrow> bool"
  assumes start_result: "start srv h = (r, srv', h') \<Longrightarrow> r = 0 \<and> running srv' \<and>
      h' = h @ (if running srv then [] else [K_thread_start Http_thread, K_thread_start Mdns_thread])"

interpretation http_server: http_starter http_server_start server_started
  by unfold_locales (auto simp: http_server_start_def split: if_splits)

section \<open>The invariant of the system\<close>

text \<open>The interface as the calls have left it, and how often the server's thread was started.\<close>

fun iface_step :: "bool \<Rightarrow> call \<Rightarrow> bool" where
  "iface_step up Net_if_up = True"
| "iface_step up Net_if_down = False"
| "iface_step up _ = up"

definition iface_up :: "hist \<Rightarrow> bool" where
  "iface_up h = foldl iface_step False h"

definition http_starts :: "hist \<Rightarrow> nat" where
  "http_starts h = length (filter (\<lambda>c. c = K_thread_start Http_thread) h)"

lemma iface_append [simp]: "iface_up (h @ cs) = foldl iface_step (iface_up h) cs"
  by (simp add: iface_up_def)

lemma http_starts_append [simp]: "http_starts (h @ cs) = http_starts h + http_starts cs"
  by (simp add: http_starts_def)

lemma http_starts_simps [simp]:
  "http_starts [] = 0"
  "http_starts (c # cs) = (if c = K_thread_start Http_thread then Suc (http_starts cs) else http_starts cs)"
  by (simp_all add: http_starts_def)

lemma other_calls:
  assumes "list_all other_call cs"
  shows "foldl iface_step up cs = up" and "http_starts cs = 0" and "K_reboot \<notin> set cs"
    and "foldl (work_step now) due cs = due"
  using assms by (induction cs) (auto elim: other_call.elims)

lemma can_init_other: "can_bridge_init E b h = (r, b', h') \<Longrightarrow> \<exists>cs. h' = h @ cs \<and> list_all other_call cs"
  by (auto simp: can_bridge_init_def Let_def split: if_splits)

definition timely :: "nat \<Rightarrow> nat \<Rightarrow> nat option \<Rightarrow> bool" where
  "timely now ms due = (case due of None \<Rightarrow> True | Some d \<Rightarrow> now \<le> d \<and> d \<le> now + ms)"

text \<open>
  The timers agree with the flags: a network that is wanted and has no address is watched, at most six seconds
  ahead; once there is an address the server runs or is about to.
\<close>

definition timers_ok :: "main_state \<Rightarrow> nat \<Rightarrow> (work \<Rightarrow> nat option) \<Rightarrow> bool" where
  "timers_ok m now due \<longleftrightarrow>
     (network_should_run m \<and> \<not> network_is_ready m \<longrightarrow> due Watchdog_work \<noteq> None) \<and>
     (due Watchdog_work \<noteq> None \<longrightarrow> network_should_run m) \<and>
     timely now 6000 (due Watchdog_work) \<and> timely now 1000 (due Network_work) \<and> timely now 0 (due Http_start_work) \<and>
     (network_is_ready m \<longrightarrow> http_server_is_started m \<or> due Http_start_work \<noteq> None)"

text \<open>The flags agree with what has been done.\<close>

definition flags_ok :: "('h \<Rightarrow> bool) \<Rightarrow> main_state \<Rightarrow> 'h \<Rightarrow> hist \<Rightarrow> bool" where
  "flags_ok running m srv h \<longleftrightarrow>
     (status_led_mode m = STATUS_LED_SOLID \<longrightarrow> network_is_ready m) \<and>
     network_is_up m = iface_up h \<and> http_server_is_started m = running srv \<and>
     http_starts h = (if running srv then 1 else 0)"

definition main_inv :: "('h \<Rightarrow> bool) \<Rightarrow> 'h system \<Rightarrow> bool" where
  "main_inv running s \<longleftrightarrow>
     (\<not> sys_down s \<longrightarrow> timers_ok (sys_main s) (sys_now s) (sys_due s)) \<and>
     flags_ok running (sys_main s) (sys_http s) (sys_hist s)"

lemma settle_sel [simp]:
  "sys_main (settle s m srv h') = m" "sys_http (settle s m srv h') = srv" "sys_hist (settle s m srv h') = h'"
  "sys_now (settle s m srv h') = sys_now s"
  by (simp_all add: settle_def Let_def)

lemma settle_append [simp]:
  "sys_due (settle s m srv (sys_hist s @ cs)) = foldl (work_step (sys_now s)) (sys_due s) cs"
  "sys_down (settle s m srv (sys_hist s @ cs)) \<longleftrightarrow> K_reboot \<in> set cs"
  "sys_due (settle s m srv (sys_hist s)) = sys_due s"
  "\<not> sys_down (settle s m srv (sys_hist s))"
  by (simp_all add: settle_def Let_def)

lemma take_work_sel [simp]:
  "sys_main (take_work w s) = sys_main s" "sys_http (take_work w s) = sys_http s"
  "sys_hist (take_work w s) = sys_hist s" "sys_now (take_work w s) = sys_now s"
  "sys_due (take_work w s) = (sys_due s)(w := None)" "sys_down (take_work w s) = sys_down s"
  by (simp_all add: take_work_def)

lemma settle_taken [simp]:
  "sys_due (settle (take_work w s) m srv (sys_hist s @ cs)) = foldl (work_step (sys_now s)) ((sys_due s)(w := None)) cs"
  "sys_down (settle (take_work w s) m srv (sys_hist s @ cs)) \<longleftrightarrow> K_reboot \<in> set cs"
  "sys_due (settle (take_work w s) m srv (sys_hist s)) = (sys_due s)(w := None)"
  "\<not> sys_down (settle (take_work w s) m srv (sys_hist s))"
  using settle_append [of "take_work w s"] by simp_all

lemma timely_simps [simp]:
  "timely now ms None" "timely now ms (Some d) \<longleftrightarrow> now \<le> d \<and> d \<le> now + ms"
  by (simp_all add: timely_def)

lemmas led_defs = status_led_set_blink_def status_led_set_solid_def status_led_set_error_def

text \<open>The address handler: it either finds no address of its own, or one or more, with the same effect.\<close>

fun ready_calls :: "nat \<Rightarrow> hist" where
  "ready_calls 0 = []"
| "ready_calls (Suc n) = K_work_cancel Watchdog_work # K_work_submit Http_start_work # ready_calls n"

lemma ready_calls_other:
  "foldl iface_step up (ready_calls n) = up" "http_starts (ready_calls n) = 0" "K_reboot \<notin> set (ready_calls n)"
  by (induction n) auto

lemma ready_calls_due:
  "due Watchdog_work = None \<Longrightarrow> due Http_start_work = Some d \<Longrightarrow> foldl (work_step now) due (ready_calls n) = due"
  by (induction n) (auto simp: fun_upd_idem)

lemma ready_calls_Suc_due:
  "foldl (work_step now) due (ready_calls (Suc n)) =
     due(Watchdog_work := None, Http_start_work := Some (case due Http_start_work of None \<Rightarrow> now | Some d \<Rightarrow> d))"
  by (cases "due Http_start_work") (simp_all add: ready_calls_due fun_upd_idem)

lemma ipv4_addr_loop_cases:
  assumes "ipv4_addr_loop addrs m h = (m', h')"
  obtains "m' = m" "h' = h" "\<not> list_ex (\<lambda>a. ifa_is_used a \<and> ifa_autoconf a) addrs"
  | n where "m' = m\<lparr>network_is_ready := True, status_led_mode := STATUS_LED_SOLID\<rparr>"
    "h' = h @ ready_calls (Suc n)" "list_ex (\<lambda>a. ifa_is_used a \<and> ifa_autoconf a) addrs"
  using assms
proof (induction addrs m h arbitrary: thesis rule: ipv4_addr_loop.induct)
  case (2 a rest m h)
  show ?case
  proof (cases "\<not> ifa_is_used a \<or> \<not> ifa_autoconf a")
    case True
    show ?thesis
    proof (rule 2(1) [OF True])
      show "ipv4_addr_loop rest m h = (m', h')" using 2(5) True by simp
    qed (use 2(3,4) True in auto)
  next
    case False
    let ?m = "status_led_set_solid (m\<lparr>network_is_ready := True\<rparr>)"
    let ?h = "h @ [K_work_cancel Watchdog_work, K_work_submit Http_start_work]"
    show ?thesis
    proof (rule 2(2) [OF False])
      show "ipv4_addr_loop rest ?m ?h = (m', h')" using 2(5) False by simp
    next
      assume "m' = ?m" "h' = ?h"
      then show ?thesis using False by (intro 2(4) [of 0]) (simp_all add: led_defs)
    next
      fix n
      assume "m' = ?m\<lparr>network_is_ready := True, status_led_mode := STATUS_LED_SOLID\<rparr>"
        "h' = ?h @ ready_calls (Suc n)"
      then show ?thesis using False by (intro 2(4) [of "Suc n"]) (simp_all add: led_defs)
    qed
  qed
qed simp

text \<open>A message of the USB stack: the network is wanted, not wanted, or the message is of no concern.\<close>

lemma usbd_msg_cases:
  assumes "usbd_msg_cb msg m h = (m', h')"
  obtains
    (wanted) "msg \<in> {USBD_MSG_CONFIGURATION, USBD_MSG_RESUME, USBD_MSG_VBUS_READY}"
      "network_should_run m'" "network_is_ready m' = network_is_ready m"
      "status_led_mode m' = STATUS_LED_SOLID \<longrightarrow> status_led_mode m = STATUS_LED_SOLID"
      "h' = h @ [K_work_schedule Network_work 1000, K_work_reschedule Watchdog_work 6000]"
      "network_is_up m' = network_is_up m" "http_server_is_started m' = http_server_is_started m"
  | (unwanted) "msg \<in> {USBD_MSG_STACK_ERROR, USBD_MSG_UDC_ERROR, USBD_MSG_RESET, USBD_MSG_SUSPEND, USBD_MSG_VBUS_REMOVED}"
      "\<not> network_should_run m'" "\<not> network_is_ready m'" "status_led_mode m' = STATUS_LED_BLINK"
      "h' = h @ [K_work_cancel Network_work, K_work_cancel Watchdog_work, K_work_schedule Network_work 0]"
      "network_is_up m' = network_is_up m" "http_server_is_started m' = http_server_is_started m"
  | (ignored) "msg = USBD_MSG_OTHER" "m' = m" "h' = h"
  using assms by (cases msg) (auto simp: usbd_msg_cb_def set_usb_ncm_network_state_def led_defs)

lemma network_handler_cases:
  assumes "usb_ncm_network_work_handler E m h = (m', h')"
  obtains
    (absent) "\<not> env_net_if E h" "m' = status_led_set_error m" "h' = h"
  | (up) "env_net_if E h" "network_should_run m" "\<not> network_is_up m" "m' = m\<lparr>network_is_up := True\<rparr>" "h' = h @ [Net_if_up]"
  | (down) "env_net_if E h" "\<not> network_should_run m" "network_is_up m"
      "m' = status_led_set_blink 500 (m\<lparr>network_is_up := False, network_is_ready := False\<rparr>)" "h' = h @ [Net_if_down]"
  | (same) "env_net_if E h" "network_is_up m = network_should_run m" "m' = m" "h' = h"
  using assms
  by (cases "env_net_if E h"; cases "network_should_run m"; cases "network_is_up m")
    (simp_all add: usb_ncm_network_work_handler_def)

lemma watchdog_handler_cases:
  assumes "usb_ncm_startup_watchdog_work_handler m h = (m', h')"
  obtains
    (idle) "\<not> network_should_run m \<or> network_is_ready m" "m' = m" "h' = h"
  | (reboot) "network_should_run m" "\<not> network_is_ready m" "m' = status_led_set_error m" "h' = h @ [K_sleep_ms 250, K_reboot]"
  using assms
  by (cases "\<not> network_should_run m \<or> network_is_ready m") (simp_all add: usb_ncm_startup_watchdog_work_handler_def)

lemma ipv4_handler_calls:
  assumes "ipv4_addr_handler E m h = (m', h')"
  obtains cs where "h' = h @ cs" "K_reboot \<notin> set cs"
    "\<forall>now due. foldl (work_step now) due cs Network_work = due Network_work"
    "network_should_run m' = network_should_run m" "network_is_up m' = network_is_up m"
proof (cases "env_ipv4 E h")
  case None
  show ?thesis by (rule that [of "[]"]) (use None assms in \<open>simp_all add: ipv4_addr_handler_def\<close>)
next
  case (Some addrs)
  then have "ipv4_addr_loop addrs m h = (m', h')" using assms by (simp add: ipv4_addr_handler_def)
  then show ?thesis
  proof (cases rule: ipv4_addr_loop_cases)
    case 1
    show ?thesis by (rule that [of "[]"]) (use 1 in simp_all)
  next
    case (2 n)
    show ?thesis
      by (rule that [of "ready_calls (Suc n)"])
        (simp_all only: 2 ready_calls_other ready_calls_Suc_due, simp_all)
  qed
qed

lemma main_rest_calls:
  assumes "main_rest E m b h = (m', b', h')"
  obtains cs where "m' = status_led_set_blink 500 m" "h' = h @ cs" "list_all other_call cs"
proof -
  obtain r b1 h1 where i: "can_bridge_init E b h = (r, b1, h1)" by (metis prod_cases3)
  obtain cs where "h1 = h @ cs" "list_all other_call cs" using can_init_other [OF i] by blast
  then show thesis using assms i by (intro that) (simp_all add: main_rest_def Let_def)
qed

lemma main_inv_settle:
  assumes "main_inv running s" "\<not> sys_down s"
    and "timers_ok (sys_main s) (sys_now s) (sys_due s) \<Longrightarrow> K_reboot \<notin> set cs \<Longrightarrow>
      timers_ok m' (sys_now s) (foldl (work_step (sys_now s)) (sys_due s) cs)"
    and "flags_ok running (sys_main s) (sys_http s) (sys_hist s) \<Longrightarrow> flags_ok running m' srv' (sys_hist s @ cs)"
  shows "main_inv running (settle s m' srv' (sys_hist s @ cs))"
  using assms by (simp add: main_inv_def)

lemma main_inv_settle_taken:
  assumes "main_inv running s" "\<not> sys_down s"
    and "timers_ok (sys_main s) (sys_now s) (sys_due s) \<Longrightarrow> K_reboot \<notin> set cs \<Longrightarrow>
      timers_ok m' (sys_now s) (foldl (work_step (sys_now s)) ((sys_due s)(w := None)) cs)"
    and "flags_ok running (sys_main s) (sys_http s) (sys_hist s) \<Longrightarrow> flags_ok running m' srv' (sys_hist s @ cs)"
  shows "main_inv running (settle (take_work w s) m' srv' (sys_hist s @ cs))"
  using assms by (simp add: main_inv_def)

lemma main_start_ok: "main_start E m h = (True, m', h') \<Longrightarrow> m' = m \<and> foldl iface_step up h' = foldl iface_step up h \<and>
    http_starts h' = http_starts h \<and>
    foldl (work_step now) due h' = (foldl (work_step now) due h)(Network_work := None, Watchdog_work := None, Http_start_work := None)"
  by (auto simp: main_start_def usb_device_init_def usbd_call_def register_usb_ncm_network_callbacks_def Let_def
      split: if_splits)

lemma boot_state_Some:
  assumes "boot_state E srv now = Some s"
  shows "sys_main s = main_boot" "sys_http s = srv" "sys_now s = now" "sys_due s = (\<lambda>_. None)" "\<not> sys_down s"
    "iface_up (sys_hist s) = False" "http_starts (sys_hist s) = 0"
proof -
  obtain m h where m: "main_start E main_boot [] = (True, m, h)"
    and s: "s = \<lparr>sys_main = m, sys_http = srv, sys_hist = h, sys_now = now,
      sys_due = foldl (work_step now) (\<lambda>_. None) h, sys_down = False\<rparr>"
    using assms by (cases "main_start E main_boot []") (auto simp: boot_state_def Let_def split: if_splits)
  show "sys_main s = main_boot" "sys_http s = srv" "sys_now s = now" "sys_due s = (\<lambda>_. None)" "\<not> sys_down s"
    "iface_up (sys_hist s) = False" "http_starts (sys_hist s) = 0"
    using main_start_ok [OF m, of _ now "\<lambda>_. None"] by (auto simp: s iface_up_def)
qed

lemma main_inv_boot: "boot_state E srv now = Some s \<Longrightarrow> \<not> running srv \<Longrightarrow> main_inv running s"
  by (simp add: boot_state_Some main_inv_def timers_ok_def flags_ok_def main_boot_def)

lemma work_ready_None [simp]: "sys_due s w = None \<Longrightarrow> \<not> work_ready w s"
  by (simp add: work_ready_def)

lemma timely_later: "timely now ms due \<Longrightarrow> \<not> (case due of None \<Rightarrow> False | Some d \<Rightarrow> d \<le> now) \<Longrightarrow> timely (Suc now) ms due"
  by (auto split: option.splits)

text \<open>Each handler keeps it.\<close>

lemma main_inv_usb:
  assumes "main_inv running s" "\<not> sys_down s" "usbd_msg_cb msg (sys_main s) (sys_hist s) = (m', h')"
  shows "main_inv running (settle s m' (sys_http s) h')"
  using assms(3)
proof (cases rule: usbd_msg_cases)
  case wanted
  show ?thesis unfolding wanted(5)
    by (rule main_inv_settle [OF assms(1,2)]) (use wanted in \<open>simp_all add: timers_ok_def flags_ok_def\<close>)
next
  case unwanted
  show ?thesis unfolding unwanted(5)
    by (rule main_inv_settle [OF assms(1,2)]) (use unwanted in \<open>simp_all add: timers_ok_def flags_ok_def\<close>)
next
  case ignored
  then show ?thesis using assms(1,2) by (simp add: main_inv_def)
qed

lemma main_inv_ipv4:
  assumes "main_inv running s" "\<not> sys_down s" "ipv4_addr_handler E (sys_main s) (sys_hist s) = (m', h')"
  shows "main_inv running (settle s m' (sys_http s) h')"
proof (cases "env_ipv4 E (sys_hist s)")
  case None
  then have "m' = sys_main s" "h' = sys_hist s" using assms(3) by (simp_all add: ipv4_addr_handler_def)
  then show ?thesis using assms(1,2) by (simp add: main_inv_def)
next
  case (Some addrs)
  then have "ipv4_addr_loop addrs (sys_main s) (sys_hist s) = (m', h')"
    using assms(3) by (simp add: ipv4_addr_handler_def)
  then show ?thesis
  proof (cases rule: ipv4_addr_loop_cases)
    case 1
    then show ?thesis using assms(1,2) by (simp add: main_inv_def)
  next
    case (2 n)
    show ?thesis unfolding 2(2)
    proof (rule main_inv_settle [OF assms(1,2)])
      assume "timers_ok (sys_main s) (sys_now s) (sys_due s)"
      then show "timers_ok m' (sys_now s) (foldl (work_step (sys_now s)) (sys_due s) (ready_calls (Suc n)))"
        unfolding ready_calls_Suc_due 2(1) by (auto simp: timers_ok_def split: option.splits)
    next
      assume "flags_ok running (sys_main s) (sys_http s) (sys_hist s)"
      then show "flags_ok running m' (sys_http s) (sys_hist s @ ready_calls (Suc n))"
        unfolding 2(1) by (simp add: flags_ok_def ready_calls_other)
    qed
  qed
qed

lemma main_inv_network:
  assumes "main_inv running s" "\<not> sys_down s"
    "usb_ncm_network_work_handler E (sys_main s) (sys_hist s) = (m', h')"
  shows "main_inv running (settle (take_work Network_work s) m' (sys_http s) h')"
  using assms(3)
proof (cases rule: network_handler_cases)
  case absent
  show ?thesis unfolding absent(2,3)
    by (rule main_inv_settle_taken [OF assms(1,2), of "[]", simplified]) (simp_all add: timers_ok_def flags_ok_def led_defs)
next
  case up
  show ?thesis unfolding up(5)
    by (rule main_inv_settle_taken [OF assms(1,2)]) (use up in \<open>simp_all add: timers_ok_def flags_ok_def\<close>)
next
  case down
  show ?thesis unfolding down(5)
    by (rule main_inv_settle_taken [OF assms(1,2)]) (use down in \<open>simp_all add: timers_ok_def flags_ok_def led_defs\<close>)
next
  case same
  show ?thesis unfolding same(3,4)
    by (rule main_inv_settle_taken [OF assms(1,2), of "[]", simplified]) (simp_all add: timers_ok_def)
qed

lemma main_inv_watchdog:
  assumes "main_inv running s" "\<not> sys_down s"
    "usb_ncm_startup_watchdog_work_handler (sys_main s) (sys_hist s) = (m', h')"
  shows "main_inv running (settle (take_work Watchdog_work s) m' (sys_http s) h')"
  using assms(3)
proof (cases rule: watchdog_handler_cases)
  case idle
  show ?thesis unfolding idle(2,3)
    by (rule main_inv_settle_taken [OF assms(1,2), of "[]", simplified]) (use idle(1) in \<open>elim disjE; simp add: timers_ok_def\<close>)
next
  case reboot
  show ?thesis unfolding reboot(4)
    by (rule main_inv_settle_taken [OF assms(1,2)]) (use reboot in \<open>simp_all add: flags_ok_def led_defs\<close>)
qed

context http_starter
begin

lemma start_handler:
  assumes "http_server_start_work_handler start m srv h = (m', srv', h')" "http_server_is_started m = running srv"
  shows "m' = m\<lparr>http_server_is_started := True\<rparr>" "running srv'"
    "h' = h @ (if running srv then [] else [K_thread_start Http_thread, K_thread_start Mdns_thread])"
  using assms start_result [of srv h]
  by (cases "start srv h"; auto simp: http_server_start_work_handler_def Let_def split: if_splits)+

lemma main_inv_http:
  assumes "main_inv running s" "\<not> sys_down s"
    "http_server_start_work_handler start (sys_main s) (sys_http s) (sys_hist s) = (m', srv', h')"
  shows "main_inv running (settle (take_work Http_start_work s) m' srv' h')"
proof -
  have "http_server_is_started (sys_main s) = running (sys_http s)" using assms(1) by (simp add: main_inv_def flags_ok_def)
  note h = start_handler [OF assms(3) this]
  show ?thesis unfolding h(3)
    by (rule main_inv_settle_taken [OF assms(1,2)]) (use h(1,2) in \<open>simp_all add: timers_ok_def flags_ok_def\<close>)
qed

lemma main_inv_step:
  assumes "main_step E start s ev s'" "main_inv running s"
  shows "main_inv running s'"
  using assms(1)
proof (cases rule: main_step_cases)
  case (usb msg m' h')
  then show ?thesis using main_inv_usb assms(2) by metis
next
  case (ipv4 m' h')
  then show ?thesis using main_inv_ipv4 assms(2) by metis
next
  case (network m' h')
  then show ?thesis using main_inv_network assms(2) by metis
next
  case (watchdog m' h')
  then show ?thesis using main_inv_watchdog assms(2) by metis
next
  case (http m' srv' h')
  then show ?thesis using main_inv_http assms(2) by metis
next
  case clock
  then show ?thesis using assms(2) by (simp add: main_inv_def timers_ok_def work_ready_def timely_later)
next
  case (main b m' b' h')
  from main(4) obtain cs where m': "m' = status_led_set_blink 500 (sys_main s)" and cs: "h' = sys_hist s @ cs" "list_all other_call cs"
    by (rule main_rest_calls)
  show ?thesis unfolding main(2) cs(1)
    by (rule main_inv_settle [OF assms(2) main(3)])
      (simp_all add: m' timers_ok_def flags_ok_def led_defs other_calls [OF cs(2)])
next
  case (other cs)
  show ?thesis unfolding other(2)
    by (rule main_inv_settle [OF assms(2) other(3)]) (simp_all add: flags_ok_def other_calls [OF other(4)])
qed

lemma main_inv_steps:
  assumes "main_steps E start s evs s'" "main_inv running s"
  shows "main_inv running s'"
  using assms by (induction rule: main_steps.induct) (auto intro: main_inv_step)

lemma main_inv_run:
  assumes "boot_state E srv now = Some s0" "main_steps E start s0 evs s" "\<not> running srv"
  shows "main_inv running s"
  using main_inv_steps [OF assms(2)] main_inv_boot assms(1,3) by metis

end

text \<open>What the last message of the USB stack asks for.\<close>

fun usb_wants :: "bool \<Rightarrow> main_event \<Rightarrow> bool" where
  "usb_wants up (Usb_event msg) =
     (if msg \<in> {USBD_MSG_CONFIGURATION, USBD_MSG_RESUME, USBD_MSG_VBUS_READY} then True
      else if msg = USBD_MSG_OTHER then up else False)"
| "usb_wants up _ = up"

definition usb_wanted :: "main_event list \<Rightarrow> bool" where
  "usb_wanted evs = foldl usb_wants False evs"

text \<open>The network as the messages and the work items drive it, with an interface that is always there.\<close>

definition follows :: "bool \<Rightarrow> 'h system \<Rightarrow> bool" where
  "follows up s \<longleftrightarrow> network_should_run (sys_main s) = up \<and>
     (sys_due s Network_work = None \<longrightarrow> network_is_up (sys_main s) = up)"

lemma follows_settle: "follows up (settle s m srv (sys_hist s @ cs)) \<longleftrightarrow>
    network_should_run m = up \<and> (foldl (work_step (sys_now s)) (sys_due s) cs Network_work = None \<longrightarrow> network_is_up m = up)"
  "follows up (settle (take_work w s) m srv (sys_hist s @ cs)) \<longleftrightarrow>
    network_should_run m = up \<and>
    (foldl (work_step (sys_now s)) ((sys_due s)(w := None)) cs Network_work = None \<longrightarrow> network_is_up m = up)"
  by (simp_all add: follows_def)

lemmas follows_settle_Nil = follows_settle [where cs = "[]", simplified]

context http_starter
begin

lemma follows_step:
  assumes "main_step E start s ev s'" "follows up s" "main_inv running s" "\<And>h. env_net_if E h"
  shows "follows (usb_wants up ev) s'"
  using assms(1)
proof (cases rule: main_step_cases)
  case (usb msg m' h')
  from usb(4) show ?thesis
  proof (cases rule: usbd_msg_cases)
    case wanted
    show ?thesis unfolding usb(2) wanted(5) follows_settle using wanted(1,2) by (auto simp: usb(1))
  next
    case unwanted
    show ?thesis unfolding usb(2) unwanted(5) follows_settle using unwanted(1,2) by (auto simp: usb(1))
  next
    case ignored
    then show ?thesis using usb(1,2) assms(2) by (simp add: follows_settle_Nil follows_def)
  qed
next
  case (ipv4 m' h')
  from ipv4(4) obtain cs where cs: "h' = sys_hist s @ cs" "K_reboot \<notin> set cs"
      "\<forall>now due. foldl (work_step now) due cs Network_work = due Network_work"
      "network_should_run m' = network_should_run (sys_main s)" "network_is_up m' = network_is_up (sys_main s)"
    by (rule ipv4_handler_calls)
  show ?thesis using assms(2) unfolding ipv4(1,2) cs(1) follows_settle by (simp add: cs(3-5) follows_def)
next
  case (network m' h')
  from network(5) show ?thesis
    by (cases rule: network_handler_cases)
      (use assms(2,4) in \<open>simp_all add: network(1,2) follows_settle follows_settle_Nil led_defs\<close>, simp_all add: follows_def)
next
  case (watchdog m' h')
  from watchdog(5) show ?thesis
    by (cases rule: watchdog_handler_cases)
      (use assms(2) in \<open>simp_all add: watchdog(1,2) follows_settle follows_settle_Nil led_defs\<close>, simp_all add: follows_def)
next
  case (http m' srv' h')
  have "http_server_is_started (sys_main s) = running (sys_http s)" using assms(3) by (simp add: main_inv_def flags_ok_def)
  note h = start_handler [OF http(5) this]
  show ?thesis using assms(2) unfolding http(1,2) h(3) follows_settle by (simp add: h(1) follows_def)
next
  case clock
  then show ?thesis using assms(2) by (simp add: follows_def)
next
  case (main b m' b' h')
  from main(4) obtain cs where m': "m' = status_led_set_blink 500 (sys_main s)" and cs: "h' = sys_hist s @ cs" "list_all other_call cs"
    by (rule main_rest_calls)
  show ?thesis using assms(2) unfolding main(1,2) cs(1) follows_settle
    by (simp add: m' led_defs other_calls [OF cs(2)] follows_def)
next
  case (other cs)
  show ?thesis using assms(2) unfolding other(1,2) follows_settle by (simp add: other_calls [OF other(4)] follows_def)
qed

lemma follows_steps:
  assumes "main_steps E start s evs s'" "follows up s" "main_inv running s" "\<And>h. env_net_if E h"
  shows "follows (foldl usb_wants up evs) s'"
  using assms by (induction rule: main_steps.induct) (auto intro: follows_step main_inv_steps)

end

text \<open>The events of a list, run one after the other by the handlers themselves.\<close>

fun run_event :: "env \<Rightarrow> ('h \<Rightarrow> hist \<Rightarrow> int \<times> 'h \<times> hist) \<Rightarrow> 'h system \<Rightarrow> main_event \<Rightarrow> 'h system option" where
  "run_event E start s (Usb_event msg) =
     (if sys_down s then None
      else let (m', h') = usbd_msg_cb msg (sys_main s) (sys_hist s) in Some (settle s m' (sys_http s) h'))"
| "run_event E start s Ipv4_event =
     (if sys_down s then None
      else let (m', h') = ipv4_addr_handler E (sys_main s) (sys_hist s) in Some (settle s m' (sys_http s) h'))"
| "run_event E start s (Work_event w) =
     (if sys_down s \<or> \<not> work_ready w s then None
      else case w of
        Network_work \<Rightarrow> let (m', h') = usb_ncm_network_work_handler E (sys_main s) (sys_hist s)
          in Some (settle (take_work w s) m' (sys_http s) h')
      | Watchdog_work \<Rightarrow> let (m', h') = usb_ncm_startup_watchdog_work_handler (sys_main s) (sys_hist s)
          in Some (settle (take_work w s) m' (sys_http s) h')
      | Http_start_work \<Rightarrow> let (m', srv', h') = http_server_start_work_handler start (sys_main s) (sys_http s) (sys_hist s)
          in Some (settle (take_work w s) m' srv' h'))"
| "run_event E start s Clock_event =
     (if sys_down s \<or> work_ready Network_work s \<or> work_ready Watchdog_work s \<or> work_ready Http_start_work s then None
      else Some (s\<lparr>sys_now := Suc (sys_now s)\<rparr>))"
| "run_event E start s _ = None"

fun run_events :: "env \<Rightarrow> ('h \<Rightarrow> hist \<Rightarrow> int \<times> 'h \<times> hist) \<Rightarrow> 'h system \<Rightarrow> main_event list \<Rightarrow> 'h system option" where
  "run_events E start s [] = Some s"
| "run_events E start s (ev # evs) =
     (case run_event E start s ev of None \<Rightarrow> None | Some s' \<Rightarrow> run_events E start s' evs)"

lemma run_event_step: "run_event E start s ev = Some s' \<Longrightarrow> main_step E start s ev s'"
  by (induction E start s ev rule: run_event.induct)
    (auto simp: Let_def split: if_splits prod.splits work.splits intro: main_step.intros)

lemma main_steps_append:
  assumes "main_steps E start s' evs' s''" "main_steps E start s evs s'"
  shows "main_steps E start s (evs @ evs') s''"
  using assms
proof (induction rule: main_steps.induct)
  case (steps_one s' evs' t ev t')
  then show ?case using main_steps.steps_one by (metis append_assoc)
qed simp

lemma run_events_steps: "run_events E start s evs = Some s' \<Longrightarrow> main_steps E start s evs s'"
proof (induction evs arbitrary: s)
  case (Cons ev evs)
  then obtain t where t: "run_event E start s ev = Some t" "run_events E start t evs = Some s'"
    by (auto split: option.splits)
  have "main_steps E start s ([] @ [ev]) t" by (rule steps_one [OF steps_none run_event_step [OF t(1)]])
  from main_steps_append [OF Cons.IH [OF t(2)] this] show ?case by simp
qed (simp add: steps_none)

text \<open>The reference board, booted at time 0.\<close>

abbreviation (input) demo_env :: env where
  "demo_env \<equiv> board (\<lambda>h. [])"

definition demo_boot :: "can_frame list can_bridge http_state system" where
  "demo_boot = the (boot_state demo_env (demo_http\<lparr>server_started := False\<rparr>) 0)"

lemma demo_boot_state: "boot_state demo_env (demo_http\<lparr>server_started := False\<rparr>) 0 = Some demo_boot"
proof -
  have "boot_state demo_env (demo_http\<lparr>server_started := False\<rparr>) 0 \<noteq> None"
    by (simp add: boot_state_def main_start_def usb_device_init_def usbd_call_def board_def)
  then show ?thesis by (auto simp: demo_boot_def)
qed

text \<open>Runs of it: up by a message that finds the network work already due, an address, a reset, and a watchdog.\<close>

definition demo_events :: "main_event list" where
  "demo_events = [Usb_event USBD_MSG_SUSPEND, Usb_event USBD_MSG_RESUME, Work_event Network_work, Ipv4_event,
     Work_event Http_start_work]"

lemma demo_main_run:
  "\<exists>s. run_events demo_env http_server_start demo_boot demo_events = Some s \<and> \<not> sys_down s \<and>
     network_is_ready (sys_main s) \<and> http_starts (sys_hist s) = 1 \<and> sys_due s Network_work = None \<and>
     iface_up (sys_hist s)"
proof -
  have env: "env_net_if demo_env h" "env_ipv4 demo_env h = Some [\<lparr>ifa_is_used = True, ifa_autoconf = True,
      ifa_preferred = True, ifa_addr = 0xA9FE0102\<rparr>]" for h
    by (simp_all add: board_def)
  note handlers = usbd_msg_cb_def set_usb_ncm_network_state_def usb_ncm_network_work_handler_def ipv4_addr_handler_def
    http_server_start_work_handler_def http_server_start_def led_defs
  show ?thesis
    by (simp add: demo_events_def boot_state_Some [OF demo_boot_state] main_boot_def settle_def take_work_def
        work_ready_def env handlers Let_def)
qed

section \<open>Properties\<close>

text \<open>
  C34: in every state the system reaches after a successful boot, until it reboots: a network that is wanted and has
  no address has its watchdog running, due within six seconds, and a watchdog only runs while the network is wanted;
  once an address is there the server has been started or is due at once; the server's thread is started at most
  once in all; a steady LED means there is an address; and the flag of the interface is its state.
\<close>

theorem network_supervised:
  assumes "boot_state E srv now = Some s0" "\<not> server_started srv" "main_steps E http_server_start s0 evs s"
  shows "(network_should_run (sys_main s) \<and> \<not> network_is_ready (sys_main s) \<and> \<not> sys_down s \<longrightarrow>
           (\<exists>d. sys_due s Watchdog_work = Some d \<and> sys_now s \<le> d \<and> d \<le> sys_now s + 6000)) \<and>
         (sys_due s Watchdog_work \<noteq> None \<and> \<not> sys_down s \<longrightarrow> network_should_run (sys_main s)) \<and>
         (network_is_ready (sys_main s) \<and> \<not> sys_down s \<longrightarrow>
           http_starts (sys_hist s) = 1 \<or> sys_due s Http_start_work = Some (sys_now s)) \<and>
         http_starts (sys_hist s) \<le> 1 \<and>
         (status_led_mode (sys_main s) = STATUS_LED_SOLID \<longrightarrow> network_is_ready (sys_main s)) \<and>
         network_is_up (sys_main s) = iface_up (sys_hist s)"
proof -
  have i: "main_inv server_started s" by (rule http_server.main_inv_run [OF assms(1,3,2)])
  then have f: "flags_ok server_started (sys_main s) (sys_http s) (sys_hist s)" by (simp add: main_inv_def)
  from i have t: "\<not> sys_down s \<Longrightarrow> timers_ok (sys_main s) (sys_now s) (sys_due s)" by (simp add: main_inv_def)
  have "timely (sys_now s) 0 d \<Longrightarrow> d = None \<or> d = Some (sys_now s)" for d by (cases d) auto
  then show ?thesis using t f unfolding timers_ok_def flags_ok_def
    by (cases "sys_down s"; cases "sys_due s Watchdog_work") auto
qed

theorem network_supervised_witness:
  "\<exists>s. main_steps demo_env http_server_start demo_boot demo_events s \<and> http_starts (sys_hist s) = 1 \<and>
     network_is_up (sys_main s) = iface_up (sys_hist s)"
proof -
  obtain s where s: "run_events demo_env http_server_start demo_boot demo_events = Some s" "http_starts (sys_hist s) = 1"
    using demo_main_run by blast
  have "\<not> server_started (demo_http\<lparr>server_started := False\<rparr>)" by simp
  from network_supervised [OF demo_boot_state this run_events_steps [OF s(1)]] show ?thesis
    using run_events_steps [OF s(1)] s(2) by blast
qed

text \<open>
  C35: the network refines the messages of the USB stack. Where the default interface exists, the interface is up
  exactly when the last message that says anything asked for it, whatever the other threads did in between, except
  while the network work item is due; and that is never more than a second away.
\<close>

theorem interface_follows_usb:
  assumes "boot_state E srv now = Some s0" "\<not> server_started srv" "main_steps E http_server_start s0 evs s"
    and "\<And>h. env_net_if E h" and "\<not> sys_down s"
  shows "case sys_due s Network_work of
      None \<Rightarrow> iface_up (sys_hist s) = usb_wanted evs
    | Some d \<Rightarrow> sys_now s \<le> d \<and> d \<le> sys_now s + 1000"
proof -
  have i: "main_inv server_started s" by (rule http_server.main_inv_run [OF assms(1,3,2)])
  have b: "main_inv server_started s0" by (rule main_inv_boot [of E srv now, OF assms(1)]) (rule assms(2))
  have "follows False s0" using boot_state_Some [OF assms(1)] by (simp add: follows_def main_boot_def)
  from http_server.follows_steps [OF assms(3) this b assms(4)] have "follows (usb_wanted evs) s"
    by (simp add: usb_wanted_def)
  then show ?thesis using i assms(5)
    by (auto simp: follows_def main_inv_def timers_ok_def flags_ok_def split: option.splits)
qed

theorem interface_follows_usb_witness:
  "\<exists>s. main_steps demo_env http_server_start demo_boot demo_events s \<and> sys_due s Network_work = None \<and>
     iface_up (sys_hist s) = usb_wanted demo_events \<and> usb_wanted demo_events"
proof -
  obtain s where s: "run_events demo_env http_server_start demo_boot demo_events = Some s" "\<not> sys_down s"
    "sys_due s Network_work = None"
    using demo_main_run by blast
  have n: "\<not> server_started (demo_http\<lparr>server_started := False\<rparr>)" by simp
  have e: "\<And>h. env_net_if demo_env h" by (simp add: board_def)
  have u: "usb_wanted demo_events" by code_simp
  from interface_follows_usb [OF demo_boot_state n run_events_steps [OF s(1)] e s(2)] show ?thesis
    using run_events_steps [OF s(1)] s(3) u by auto
qed

text \<open>A network that is wanted and has no address stays watched by the same deadline until a message or an address.\<close>

definition watched :: "nat \<Rightarrow> 'h system \<Rightarrow> bool" where
  "watched d s \<longleftrightarrow> network_should_run (sys_main s) \<and> \<not> network_is_ready (sys_main s) \<and>
     sys_due s Watchdog_work = Some d \<and> sys_now s \<le> d \<and> \<not> sys_down s"

fun outside_event :: "main_event \<Rightarrow> bool" where
  "outside_event (Usb_event _) = True"
| "outside_event Ipv4_event = True"
| "outside_event _ = False"

lemma watchdog_step_reboots:
  assumes "main_step E start s (Work_event Watchdog_work) s'" "network_should_run (sys_main s)"
    "\<not> network_is_ready (sys_main s)"
  shows "sys_down s' \<and> status_led_mode (sys_main s') = STATUS_LED_ERROR \<and>
    sys_hist s' = sys_hist s @ [K_sleep_ms 250, K_reboot]"
  using assms(1)
proof (cases rule: main_step_cases)
  case (watchdog m' h')
  from watchdog(5) show ?thesis
    by (cases rule: watchdog_handler_cases) (use assms(2,3) in \<open>simp_all add: watchdog(1,2) led_defs\<close>)
qed simp_all

lemma main_step_up: "main_step E start s ev s' \<Longrightarrow> \<not> sys_down s"
  by (auto elim: main_step.cases)

context http_starter
begin

lemma watched_step:
  assumes "main_step E start s ev s'" "\<not> outside_event ev" "watched d s" "main_inv running s"
  shows "if sys_down s' then sys_now s' = d else watched d s'"
  using assms(1)
proof (cases rule: main_step_cases)
  case (network m' h')
  from network(5) show ?thesis
    by (cases rule: network_handler_cases)
      (use assms(3) in \<open>simp_all add: network(1,2) watched_def led_defs settle_taken(1,2) [where cs = "[c]" for c]\<close>)
next
  case (watchdog m' h')
  then have "sys_now s = d" using assms(3) by (simp add: watched_def work_ready_def)
  moreover have "sys_down s'" using watchdog_step_reboots [of E start s s'] assms(1,3) watchdog(1) by (simp add: watched_def)
  ultimately show ?thesis using watchdog(2) by simp
next
  case (http m' srv' h')
  have "http_server_is_started (sys_main s) = running (sys_http s)" using assms(4) by (simp add: main_inv_def flags_ok_def)
  note h = start_handler [OF http(5) this]
  show ?thesis using assms(3) unfolding http(1,2) h(3) by (simp add: h(1) watched_def)
next
  case clock
  then show ?thesis using assms(3) by (auto simp: watched_def work_ready_def)
next
  case (main b m' b' h')
  from main(4) obtain cs where m': "m' = status_led_set_blink 500 (sys_main s)" and cs: "h' = sys_hist s @ cs" "list_all other_call cs"
    by (rule main_rest_calls)
  show ?thesis using assms(3) unfolding main(1,2) cs(1) by (simp add: m' led_defs other_calls [OF cs(2)] watched_def)
next
  case (other cs)
  show ?thesis using assms(3) unfolding other(1,2) by (simp add: other_calls [OF other(4)] watched_def)
qed (use assms(2) in simp_all)

lemma watched_steps:
  assumes "main_steps E start s evs s'" "\<not> list_ex outside_event evs" "watched d s" "main_inv running s"
  shows "if sys_down s' then sys_now s' = d else watched d s'"
  using assms
proof (induction rule: main_steps.induct)
  case (steps_none s)
  then show ?case by (simp add: watched_def)
next
  case (steps_one s evs s' ev s'')
  then have e: "\<not> list_ex outside_event evs" "\<not> outside_event ev" by simp_all
  have w: "watched d s'" using steps_one.IH [OF e(1) steps_one.prems(2,3)] main_step_up [OF steps_one.hyps(2)] by simp
  from watched_step [OF steps_one.hyps(2) e(2) w main_inv_steps [OF steps_one.hyps(1) steps_one.prems(3)]]
  show ?case by (auto simp: watched_def split: if_splits)
qed

end

text \<open>
  C36: a stuck network ends in a reboot. From any state reached in which the network is wanted and has no address
  there is a deadline, at most six seconds ahead, such that whatever the threads do, as long as no message of the
  USB stack and no address arrives, the clock does not pass it; the system is not down before it, the watchdog can
  run when it comes, and the step in which it runs shows the error, sleeps 250 ms and reboots.
\<close>

theorem stuck_network_reboots:
  assumes "boot_state E srv now = Some s0" "\<not> server_started srv" "main_steps E http_server_start s0 evs s"
    and "network_should_run (sys_main s)" "\<not> network_is_ready (sys_main s)" "\<not> sys_down s"
  shows "\<exists>d \<le> sys_now s + 6000. \<forall>evs' s'.
    main_steps E http_server_start s evs' s' \<and> \<not> list_ex outside_event evs' \<longrightarrow>
      sys_now s' \<le> d \<and> (sys_down s' \<longrightarrow> sys_now s' = d) \<and>
      (sys_now s' = d \<and> \<not> sys_down s' \<longrightarrow>
        (\<exists>t. main_step E http_server_start s' (Work_event Watchdog_work) t) \<and>
        (\<forall>t. main_step E http_server_start s' (Work_event Watchdog_work) t \<longrightarrow>
           sys_down t \<and> status_led_mode (sys_main t) = STATUS_LED_ERROR \<and>
           sys_hist t = sys_hist s' @ [K_sleep_ms 250, K_reboot]))"
proof -
  have i: "main_inv server_started s" by (rule http_server.main_inv_run [OF assms(1,3,2)])
  then obtain d where d: "watched d s" "d \<le> sys_now s + 6000"
    using assms(4-6) by (auto simp: main_inv_def timers_ok_def watched_def)
  have "sys_now s' \<le> d \<and> (sys_down s' \<longrightarrow> sys_now s' = d) \<and> (sys_now s' = d \<and> \<not> sys_down s' \<longrightarrow>
      (\<exists>t. main_step E http_server_start s' (Work_event Watchdog_work) t) \<and>
      (\<forall>t. main_step E http_server_start s' (Work_event Watchdog_work) t \<longrightarrow>
         sys_down t \<and> status_led_mode (sys_main t) = STATUS_LED_ERROR \<and>
         sys_hist t = sys_hist s' @ [K_sleep_ms 250, K_reboot]))"
    if "main_steps E http_server_start s evs' s'" "\<not> list_ex outside_event evs'" for evs' s'
  proof -
    note w = http_server.watched_steps [OF that d(1) i]
    have "\<exists>t. main_step E http_server_start s' (Work_event Watchdog_work) t"
      if "sys_now s' = d" "\<not> sys_down s'"
    proof -
      obtain m h where m: "usb_ncm_startup_watchdog_work_handler (sys_main s') (sys_hist s') = (m, h)" by force
      have "work_ready Watchdog_work s'" using that w by (simp add: watched_def work_ready_def)
      from step_watchdog [OF that(2) this m] show ?thesis by blast
    qed
    moreover have "sys_down t \<and> status_led_mode (sys_main t) = STATUS_LED_ERROR \<and>
        sys_hist t = sys_hist s' @ [K_sleep_ms 250, K_reboot]"
      if "main_step E http_server_start s' (Work_event Watchdog_work) t" "\<not> sys_down s'" for t
      by (rule watchdog_step_reboots [OF that(1)]) (use w that(2) in \<open>simp_all add: watched_def\<close>)
    moreover have "sys_now s' \<le> d \<and> (sys_down s' \<longrightarrow> sys_now s' = d)"
      using w by (cases "sys_down s'") (simp_all add: watched_def)
    ultimately show ?thesis by blast
  qed
  then show ?thesis using d(2) by blast
qed

context http_starter
begin

lemma down_step:
  assumes "main_step E start s ev s'" "sys_down s'" "http_server_is_started (sys_main s) = running (sys_http s)"
  shows "ev = Work_event Watchdog_work \<and> work_ready Watchdog_work s \<and>
    network_should_run (sys_main s) \<and> \<not> network_is_ready (sys_main s)"
  using assms(1)
proof (cases rule: main_step_cases)
  case (usb msg m' h')
  from usb(4) show ?thesis by (cases rule: usbd_msg_cases) (use assms(2) in \<open>simp_all add: usb(2)\<close>)
next
  case (ipv4 m' h')
  from ipv4(4) show ?thesis by (rule ipv4_handler_calls) (use assms(2) in \<open>simp add: ipv4(2)\<close>)
next
  case (network m' h')
  from network(5) show ?thesis by (cases rule: network_handler_cases) (use assms(2) in \<open>simp_all add: network(2)\<close>)
next
  case (watchdog m' h')
  from watchdog(5) have "network_should_run (sys_main s) \<and> \<not> network_is_ready (sys_main s)"
    by (cases rule: watchdog_handler_cases) (use assms(2) in \<open>simp_all add: watchdog(2)\<close>)
  then show ?thesis using watchdog(1,4) by simp
next
  case (http m' srv' h')
  note h = start_handler [OF http(5) assms(3)]
  show ?thesis using assms(2) unfolding http(2) h(3) by (simp split: if_splits)
next
  case clock
  then show ?thesis using assms(2) by simp
next
  case (main b m' b' h')
  from main(4) obtain cs where cs: "h' = sys_hist s @ cs" "list_all other_call cs" by (rule main_rest_calls)
  show ?thesis using assms(2) unfolding main(2) cs(1) by (simp add: other_calls [OF cs(2)])
next
  case (other cs)
  show ?thesis using assms(2) unfolding other(2) by (simp add: other_calls [OF other(4)])
qed

end

text \<open>
  C37: the firmware reboots in no other case: a step that brings the system down is the watchdog's, of a network that
  was wanted and had no address when the watchdog ran, at the time the watchdog was due.
\<close>

theorem reboot_only_when_stuck:
  assumes "boot_state E srv now = Some s0" "\<not> server_started srv" "main_steps E http_server_start s0 evs s"
    and "main_step E http_server_start s ev s'" "sys_down s'"
  shows "ev = Work_event Watchdog_work \<and> sys_due s Watchdog_work = Some (sys_now s) \<and>
    network_should_run (sys_main s) \<and> \<not> network_is_ready (sys_main s)"
proof -
  have i: "main_inv server_started s" by (rule http_server.main_inv_run [OF assms(1,3,2)])
  then have "http_server_is_started (sys_main s) = server_started (sys_http s)" by (simp add: main_inv_def flags_ok_def)
  note d = http_server.down_step [OF assms(4,5) this]
  have "\<not> sys_down s" using assms(4) by (rule main_step_up)
  then have "timely (sys_now s) 6000 (sys_due s Watchdog_work)" using i by (simp add: main_inv_def timers_ok_def)
  then have "sys_due s Watchdog_work = Some (sys_now s)" using d by (auto simp: work_ready_def split: option.splits)
  then show ?thesis using d by simp
qed

text \<open>A run in which no address ever arrives: the interface comes up after a second, the watchdog is due after six.\<close>

lemma clock_steps:
  assumes "\<And>w d. sys_due s w = Some d \<Longrightarrow> sys_now s + n \<le> d" "\<not> sys_down s"
  shows "main_steps E start s (replicate n Clock_event) (s\<lparr>sys_now := sys_now s + n\<rparr>)"
  using assms(1)
proof (induction n)
  case 0
  then show ?case by (simp add: steps_none)
next
  case (Suc n)
  let ?s = "s\<lparr>sys_now := sys_now s + n\<rparr>"
  have "\<not> work_ready w ?s" for w
    using Suc.prems [of w] by (auto simp: work_ready_def split: option.splits)
  then have "main_step E start ?s Clock_event (?s\<lparr>sys_now := Suc (sys_now ?s)\<rparr>)"
    using assms(2) by (intro step_clock) simp_all
  moreover have "main_steps E start s (replicate n Clock_event) ?s"
    using Suc.prems by (intro Suc.IH) fastforce
  ultimately have "main_steps E start s (replicate n Clock_event @ [Clock_event]) (?s\<lparr>sys_now := Suc (sys_now ?s)\<rparr>)"
    by (intro steps_one)
  then show ?case by (simp add: replicate_append_same)
qed

definition stuck_events :: "main_event list" where
  "stuck_events = replicate 1000 Clock_event @ Work_event Network_work # replicate 5000 Clock_event"

lemma demo_stuck:
  obtains s s' where "main_steps demo_env http_server_start demo_boot [Usb_event USBD_MSG_VBUS_READY] s"
    "main_steps demo_env http_server_start s stuck_events s'"
    "network_should_run (sys_main s)" "\<not> network_is_ready (sys_main s)" "\<not> sys_down s" "sys_now s = 0"
    "sys_now s' = 6000" "\<not> sys_down s'"
proof -
  note b = boot_state_Some [OF demo_boot_state]
  obtain m h where u: "usbd_msg_cb USBD_MSG_VBUS_READY (sys_main demo_boot) (sys_hist demo_boot) = (m, h)" by force
  let ?h1 = "sys_hist demo_boot @ [K_work_schedule Network_work 1000, K_work_reschedule Watchdog_work 6000]"
  have m: "m = main_boot\<lparr>network_should_run := True, heartbeat_period_ms := 500, status_led_mode := STATUS_LED_BLINK\<rparr>"
    "h = ?h1"
    using u unfolding b(1) by (auto simp: usbd_msg_cb_def set_usb_ncm_network_state_def led_defs)
  define s1 where "s1 = settle demo_boot m (sys_http demo_boot) ?h1"
  define s2 where "s2 = s1\<lparr>sys_now := 1000\<rparr>"
  define s3 where "s3 = settle (take_work Network_work s2) (m\<lparr>network_is_up := True\<rparr>) (sys_http s2) (sys_hist s2 @ [Net_if_up])"
  have d1: "sys_due s1 = (\<lambda>_. None)(Network_work := Some 1000, Watchdog_work := Some 6000)" "sys_now s1 = 0" "\<not> sys_down s1"
    "sys_main s1 = m"
    using b(3,4) by (simp_all add: s1_def)
  have 1: "main_steps demo_env http_server_start demo_boot ([] @ [Usb_event USBD_MSG_VBUS_READY]) s1"
    using step_usb [OF b(5) u] unfolding s1_def m(2) by (rule steps_one [OF steps_none])
  have 2: "main_steps demo_env http_server_start s1 (replicate 1000 Clock_event) s2"
  proof -
    have "sys_now s1 + 1000 \<le> d" if "sys_due s1 w = Some d" for w d using that d1(1,2) by (simp split: if_splits)
    from clock_steps [OF this d1(3)] show ?thesis using d1(2) by (simp add: s2_def)
  qed
  have d2: "sys_due s2 = sys_due s1" "sys_now s2 = 1000" "\<not> sys_down s2" "sys_main s2 = m" using d1 by (simp_all add: s2_def)
  have n: "usb_ncm_network_work_handler demo_env (sys_main s2) (sys_hist s2) = (m\<lparr>network_is_up := True\<rparr>, sys_hist s2 @ [Net_if_up])"
    unfolding d2 by (simp add: usb_ncm_network_work_handler_def m main_boot_def board_def)
  have 3: "main_step demo_env http_server_start s2 (Work_event Network_work) s3"
    unfolding s3_def by (rule step_network [OF d2(3) _ n]) (simp add: work_ready_def d1 d2)
  have d3: "sys_due s3 = (\<lambda>_. None)(Watchdog_work := Some 6000)" "sys_now s3 = 1000" "\<not> sys_down s3"
    using d1 d2 by (auto simp: s3_def)
  have 4: "main_steps demo_env http_server_start s3 (replicate 5000 Clock_event) (s3\<lparr>sys_now := 6000\<rparr>)"
  proof -
    have "sys_now s3 + 5000 \<le> d" if "sys_due s3 w = Some d" for w d using that d3(1,2) by (simp split: if_splits)
    from clock_steps [OF this d3(3)] show ?thesis using d3(2) by simp
  qed
  have "main_steps demo_env http_server_start s1 stuck_events (s3\<lparr>sys_now := 6000\<rparr>)"
    using main_steps_append [OF 4 steps_one [OF 2 3]] by (simp add: stuck_events_def)
  then show thesis using 1 d1 d3 by (intro that [of s1 "s3\<lparr>sys_now := 6000\<rparr>"]) (simp_all add: m main_boot_def)
qed

theorem stuck_network_reboots_witness:
  "\<exists>s s' t. main_steps demo_env http_server_start demo_boot [Usb_event USBD_MSG_VBUS_READY] s \<and>
     main_steps demo_env http_server_start s stuck_events s' \<and> sys_now s' = sys_now s + 6000 \<and>
     main_step demo_env http_server_start s' (Work_event Watchdog_work) t \<and> sys_down t"
proof -
  have n: "\<not> server_started (demo_http\<lparr>server_started := False\<rparr>)" by simp
  obtain s s' where s: "main_steps demo_env http_server_start demo_boot [Usb_event USBD_MSG_VBUS_READY] s"
    "main_steps demo_env http_server_start s stuck_events s'"
    "network_should_run (sys_main s)" "\<not> network_is_ready (sys_main s)" "\<not> sys_down s" "sys_now s = 0"
    "sys_now s' = 6000" "\<not> sys_down s'"
    by (rule demo_stuck)
  have o: "\<not> list_ex outside_event stuck_events" by (auto simp: stuck_events_def list_ex_iff)
  from stuck_network_reboots [OF demo_boot_state n s(1,3,4,5)] obtain d where d: "d \<le> 6000"
    "sys_now s' \<le> d" "sys_now s' = d \<longrightarrow>
        (\<exists>t. main_step demo_env http_server_start s' (Work_event Watchdog_work) t) \<and>
        (\<forall>t. main_step demo_env http_server_start s' (Work_event Watchdog_work) t \<longrightarrow> sys_down t)"
    using s(2,6,8) o by auto
  then have "sys_now s' = d" using s(7) by simp
  then obtain t where "main_step demo_env http_server_start s' (Work_event Watchdog_work) t" "sys_down t"
    using d(3) by blast
  moreover have "sys_now s' = sys_now s + 6000" using s(6,7) by simp
  ultimately show ?thesis using s(1,2) by blast
qed

theorem reboot_only_when_stuck_witness:
  "\<exists>s t. main_steps demo_env http_server_start demo_boot (Usb_event USBD_MSG_VBUS_READY # stuck_events) s \<and>
     main_step demo_env http_server_start s (Work_event Watchdog_work) t \<and> sys_down t \<and>
     sys_due s Watchdog_work = Some (sys_now s) \<and> \<not> network_is_ready (sys_main s)"
proof -
  have n: "\<not> server_started (demo_http\<lparr>server_started := False\<rparr>)" by simp
  obtain s s' where s: "main_steps demo_env http_server_start demo_boot [Usb_event USBD_MSG_VBUS_READY] s"
    "main_steps demo_env http_server_start s stuck_events s'"
    "network_should_run (sys_main s)" "\<not> network_is_ready (sys_main s)" "\<not> sys_down s" "sys_now s = 0"
    "sys_now s' = 6000" "\<not> sys_down s'"
    by (rule demo_stuck)
  have i: "main_inv server_started s" by (rule http_server.main_inv_run [OF demo_boot_state s(1) n])
  obtain d where w: "watched d s" "d \<le> 6000" using i s(3-6) by (auto simp: main_inv_def timers_ok_def watched_def)
  have o: "\<not> list_ex outside_event stuck_events" by (auto simp: stuck_events_def list_ex_iff)
  have w': "watched d s'" using http_server.watched_steps [OF s(2) o w(1) i] s(8) by simp
  then have "work_ready Watchdog_work s'" using w(2) s(7) by (simp add: watched_def work_ready_def)
  then obtain t where t: "main_step demo_env http_server_start s' (Work_event Watchdog_work) t"
    using step_watchdog [OF s(8)] by (metis surj_pair)
  then have down: "sys_down t" using watchdog_step_reboots [OF t] w' by (simp add: watched_def)
  have r: "main_steps demo_env http_server_start demo_boot (Usb_event USBD_MSG_VBUS_READY # stuck_events) s'"
    using main_steps_append [OF s(2,1)] by simp
  have "sys_due s' Watchdog_work = Some (sys_now s') \<and> \<not> network_is_ready (sys_main s')"
    using reboot_only_when_stuck [OF demo_boot_state n r t down] by simp
  then show ?thesis using r t down by blast
qed

text \<open>
  C38: \<open>main\<close> starts the device: it goes on exactly when the nine calls of the device's start, the set-up of the
  work items and of the IPv4 event, the registration of the message callback and the enabling have all been made in
  this order and succeeded, the LED untouched; otherwise it stops at the first failure with the error LED, and the
  failed call is the last thing it did.
\<close>

theorem main_start_in_order:
  assumes "main_start E m h = (ok, m', h')"
  shows "(ok \<longrightarrow> m' = m \<and> (\<exists>cs. h' = h @ cs @
       [K_work_init Network_work, K_work_init Watchdog_work, K_work_init Http_start_work, Net_mgmt_init_callback,
        Net_mgmt_add_callback, Usb_call Register_cb 0, Usb_call Usbd_enable 0] \<and> list_all2 step_ok usb_plan cs)) \<and>
    (\<not> ok \<longrightarrow> status_led_mode m' = STATUS_LED_ERROR \<and> (\<exists>cs c r. h' = h @ cs @ [Usb_call c r] \<and> r \<noteq> 0))"
proof -
  obtain dev h1 where d: "usb_device_init E h = (dev, h1)" by force
  note u = run_plan_steps [OF d [unfolded usb_device_init_plan]]
  show ?thesis
  proof (cases dev)
    case True
    then obtain cs where "h1 = h @ cs" "list_all2 step_ok usb_plan cs" using u by auto
    then show ?thesis using assms True d
      by (auto simp: main_start_def usbd_call_def register_usb_ncm_network_callbacks_def Let_def led_defs
          split: if_splits)
  next
    case False
    then obtain cs c r where "h1 = h @ cs @ [Usb_call c r]" "r \<noteq> 0" using u by auto
    then show ?thesis using assms False d by (auto simp: main_start_def led_defs)
  qed
qed

theorem main_start_in_order_witness:
  "\<exists>cs. snd (snd (main_start demo_env main_boot [])) = cs @
       [K_work_init Network_work, K_work_init Watchdog_work, K_work_init Http_start_work, Net_mgmt_init_callback,
        Net_mgmt_add_callback, Usb_call Register_cb 0, Usb_call Usbd_enable 0] \<and>
     list_all2 step_ok usb_plan cs"
proof -
  obtain ok m' h' where m: "main_start demo_env main_boot [] = (ok, m', h')" by (metis prod_cases3)
  have "fst (main_start demo_env main_boot []) = True" by code_simp
  then have "ok" using m by simp
  then show ?thesis using main_start_in_order [OF m] m by auto
qed

end
