(* ===== verification/Mdns.thy ===== *)
theory Mdns
  imports Zephyr
begin

text \<open>
  The mDNS announcer of \<open>http_server.c\<close>: the writers into the packet, the announcement, the search for the
  link-local address and the turns of \<open>mdns_announce_thread\<close>. A buffer written up to \<open>*offset\<close> is the
  list of its bytes so far. The host name of the build (\<open>CONFIG_NET_HOSTNAME\<close>) is a parameter. The
  reference is a reader of DNS messages (RFC 1035, without compression).
\<close>

section \<open>The code\<close>

definition MDNS_PTR_TTL :: u32 where [fw_defs]: "MDNS_PTR_TTL = 4500"
definition MDNS_HOST_TTL :: u32 where [fw_defs]: "MDNS_HOST_TTL = 120"
definition MDNS_FAST_ANNOUNCE_COUNT :: nat where [fw_defs]: "MDNS_FAST_ANNOUNCE_COUNT = 20"
definition DNS_CLASS_IN :: u16 where [fw_defs]: "DNS_CLASS_IN = 1"
definition DNS_CLASS_CACHE_FLUSH :: u16 where [fw_defs]: "DNS_CLASS_CACHE_FLUSH = 0x8000"
definition DNS_TYPE_A :: u16 where [fw_defs]: "DNS_TYPE_A = 1"
definition DNS_TYPE_PTR :: u16 where [fw_defs]: "DNS_TYPE_PTR = 12"
definition DNS_TYPE_TXT :: u16 where [fw_defs]: "DNS_TYPE_TXT = 16"
definition DNS_TYPE_SRV :: u16 where [fw_defs]: "DNS_TYPE_SRV = 33"
definition MDNS_HTTP_PORT :: u16 where [fw_defs]: "MDNS_HTTP_PORT = 80"

definition http_txt :: "u8 list" where
  "http_txt = 6 # to_bytes ''path=/''"

definition put_u16 :: "u16 \<Rightarrow> u8 list \<Rightarrow> u8 list" where
  "put_u16 v buf = buf @ [ucast (drop_bit 8 v), ucast (v AND 0xff)]"

definition put_u32 :: "u32 \<Rightarrow> u8 list \<Rightarrow> u8 list" where
  "put_u32 v buf = buf @ [ucast (drop_bit 24 v), ucast (drop_bit 16 v AND 0xff), ucast (drop_bit 8 v AND 0xff),
     ucast (v AND 0xff)]"

definition put_bytes :: "u8 list \<Rightarrow> u8 list \<Rightarrow> u8 list" where
  "put_bytes bytes buf = buf @ bytes"

definition put_label :: "string \<Rightarrow> u8 list \<Rightarrow> u8 list" where
  "put_label label buf = put_bytes (to_bytes label) (buf @ [word_of_nat (length label)])"

definition put_host_name :: "string \<Rightarrow> u8 list \<Rightarrow> u8 list" where
  "put_host_name host buf = put_label ''local'' (put_label host buf) @ [0]"

definition put_http_service_name :: "u8 list \<Rightarrow> u8 list" where
  "put_http_service_name buf = put_label ''local'' (put_label ''_tcp'' (put_label ''_http'' buf)) @ [0]"

definition put_http_instance_name :: "string \<Rightarrow> u8 list \<Rightarrow> u8 list" where
  "put_http_instance_name host buf =
     put_label ''local'' (put_label ''_tcp'' (put_label ''_http'' (put_label host buf))) @ [0]"

definition put_rr_header :: "u16 \<Rightarrow> u16 \<Rightarrow> u32 \<Rightarrow> u16 \<Rightarrow> u8 list \<Rightarrow> u8 list" where
  "put_rr_header ty cl ttl rdlength buf = put_u16 rdlength (put_u32 ttl (put_u16 cl (put_u16 ty buf)))"

text \<open>\<open>sys_put_be16(value, &buf[at])\<close>.\<close>

definition sys_put_be16 :: "nat \<Rightarrow> nat \<Rightarrow> u8 list \<Rightarrow> u8 list" where
  "sys_put_be16 v at buf = buf[at := word_of_nat (v div 256), Suc at := word_of_nat v]"

text \<open>A record whose length is filled in once its data has been written.\<close>

definition put_record :: "u16 \<Rightarrow> u16 \<Rightarrow> u32 \<Rightarrow> (u8 list \<Rightarrow> u8 list) \<Rightarrow> u8 list \<Rightarrow> u8 list" where
  "put_record ty cl ttl rdata buf =
     (let rdlength_offset = length buf + 8;
          buf1 = put_rr_header ty cl ttl 0 buf;
          rdata_start = length buf1;
          buf2 = rdata buf1
      in sys_put_be16 (length buf2 - rdata_start) rdlength_offset buf2)"

definition build_mdns_http_announcement :: "string \<Rightarrow> u32 \<Rightarrow> u8 list" where
  "build_mdns_http_announcement host addr =
     (let flush = DNS_CLASS_IN OR DNS_CLASS_CACHE_FLUSH;
          buf = put_u16 0 (put_u16 0 (put_u16 4 (put_u16 0 (put_u16 0x8400 (put_u16 0 [])))));
          buf = put_record DNS_TYPE_PTR DNS_CLASS_IN MDNS_PTR_TTL (put_http_instance_name host)
                  (put_http_service_name buf);
          buf = put_record DNS_TYPE_TXT flush MDNS_PTR_TTL (put_bytes http_txt)
                  (put_http_instance_name host buf);
          buf = put_record DNS_TYPE_SRV flush MDNS_HOST_TTL
                  (\<lambda>b. put_host_name host (put_u16 MDNS_HTTP_PORT (put_u16 0 (put_u16 0 b))))
                  (put_http_instance_name host buf)
      in put_bytes (be_bytes 4 (unat addr)) (put_rr_header DNS_TYPE_A flush MDNS_HOST_TTL 4 (put_host_name host buf)))"

definition get_link_local_addr :: "env \<Rightarrow> hist \<Rightarrow> u32 option" where
  "get_link_local_addr E h =
     (if \<not> env_net_if E h then None
      else case env_ipv4 E h of
             None \<Rightarrow> None
           | Some unicast \<Rightarrow>
               map_option ifa_addr (find (\<lambda>a. ifa_is_used a \<and> ifa_autoconf a \<and> ifa_preferred a) unicast))"

text \<open>
  The thread before its loop: waiting for the server, then its socket; and one turn of the loop, which
  does not end. The state is the static \<open>fast_announces\<close>.
\<close>

datatype mdns_start = Mdns_waits | Mdns_gone | Mdns_runs int

definition mdns_open :: "env \<Rightarrow> int \<Rightarrow> hist \<Rightarrow> mdns_start \<times> hist" where
  "mdns_open E server_fd h =
     (if server_fd < 0 then (Mdns_waits, h @ [K_sleep_ms 100])
      else let r = env_socket E h; h1 = h @ [Sock_socket r]
           in (case r of Inl e \<Rightarrow> Mdns_gone | Inr sock \<Rightarrow> Mdns_runs sock, h1))"

definition mdns_turn :: "env \<Rightarrow> string \<Rightarrow> int \<Rightarrow> nat \<Rightarrow> hist \<Rightarrow> nat \<times> hist" where
  "mdns_turn E host sock fast_announces h =
     (case get_link_local_addr E h of
        Some addr \<Rightarrow>
          let packet = build_mdns_http_announcement host addr;
              h1 = h @ [Sock_sendto sock packet (env_sendto E h packet)]
          in if fast_announces < MDNS_FAST_ANNOUNCE_COUNT
             then (fast_announces + 1, h1 @ [K_sleep_ms 1000])
             else (fast_announces, h1 @ [K_sleep_ms 10000])
      | None \<Rightarrow> (fast_announces, h @ [K_sleep_ms 250]))"

section \<open>Reading a DNS message\<close>

type_synonym dns_name = "string list"

function dns_read_name :: "u8 list \<Rightarrow> (dns_name \<times> u8 list) option" where
  "dns_read_name bs =
     (case bs of
        [] \<Rightarrow> None
      | n # rest \<Rightarrow>
          if n = 0 then Some ([], rest)
          else if 63 < n \<or> length rest < unat n then None
          else map_option (\<lambda>(ls, r). (to_chars (take (unat n) rest) # ls, r)) (dns_read_name (drop (unat n) rest)))"
  by pat_completeness auto
termination
  by (relation "measure length") auto

declare dns_read_name.simps [simp del]

record dns_record =
  rr_name :: dns_name
  rr_type :: nat
  rr_class :: nat
  rr_ttl :: nat
  rr_data :: "u8 list"

definition dns_read_record :: "u8 list \<Rightarrow> (dns_record \<times> u8 list) option" where
  "dns_read_record bs =
     (case dns_read_name bs of
        None \<Rightarrow> None
      | Some (nm, r) \<Rightarrow>
          let n = be_nat (take 2 (drop 8 r)) in
          if length r < 10 + n then None
          else Some (\<lparr>rr_name = nm, rr_type = be_nat (take 2 r), rr_class = be_nat (take 2 (drop 2 r)),
             rr_ttl = be_nat (take 4 (drop 4 r)), rr_data = take n (drop 10 r)\<rparr>, drop (10 + n) r))"

fun dns_read_records :: "nat \<Rightarrow> u8 list \<Rightarrow> dns_record list option" where
  "dns_read_records 0 bs = (if bs = [] then Some [] else None)"
| "dns_read_records (Suc n) bs =
     (case dns_read_record bs of
        None \<Rightarrow> None
      | Some (rr, rest) \<Rightarrow> map_option (\<lambda>rrs. rr # rrs) (dns_read_records n rest))"

text \<open>A response with answers only: its identifier, its flags and the answers.\<close>

definition dns_read_response :: "u8 list \<Rightarrow> (nat \<times> nat \<times> dns_record list) option" where
  "dns_read_response bs =
     (if length bs < 12 \<or> be_nat (take 2 (drop 4 bs)) \<noteq> 0 \<or> be_nat (take 4 (drop 8 bs)) \<noteq> 0 then None
      else map_option (\<lambda>rrs. (be_nat (take 2 bs), be_nat (take 2 (drop 2 bs)), rrs))
             (dns_read_records (be_nat (take 2 (drop 6 bs))) (drop 12 bs)))"

text \<open>How a name and a record are written.\<close>

definition name_bytes :: "dns_name \<Rightarrow> u8 list" where
  "name_bytes ls = concat (map (\<lambda>l. word_of_nat (length l) # to_bytes l) ls) @ [0]"

definition record_bytes :: "dns_record \<Rightarrow> u8 list" where
  "record_bytes rr = name_bytes (rr_name rr) @ be_bytes 2 (rr_type rr) @ be_bytes 2 (rr_class rr) @
     be_bytes 4 (rr_ttl rr) @ be_bytes 2 (length (rr_data rr)) @ rr_data rr"

definition labels_ok :: "dns_name \<Rightarrow> bool" where
  "labels_ok ls \<longleftrightarrow> list_all (\<lambda>l. 0 < length l \<and> length l \<le> 63) ls"

definition record_ok :: "dns_record \<Rightarrow> bool" where
  "record_ok rr \<longleftrightarrow> labels_ok (rr_name rr) \<and> rr_type rr < 2 ^ 16 \<and> rr_class rr < 2 ^ 16 \<and>
     rr_ttl rr < 2 ^ 32 \<and> length (rr_data rr) < 2 ^ 16"

lemma dns_read_name_bytes: "labels_ok ls \<Longrightarrow> dns_read_name (name_bytes ls @ rest) = Some (ls, rest)"
proof (induction ls)
  case Nil
  then show ?case by (simp add: name_bytes_def dns_read_name.simps [of "0 # rest"])
next
  case (Cons l ls)
  have l: "0 < length l" "length l \<le> 63" "labels_ok ls" using Cons.prems by (simp_all add: labels_ok_def)
  have u: "unat (word_of_nat (length l) :: u8) = length l" using l by (simp add: unat_of_nat)
  have w: "(word_of_nat (length l) :: u8) \<noteq> 0" "\<not> 63 < (word_of_nat (length l) :: u8)"
    using l u by (auto simp: word_less_nat_alt dest: arg_cong [of _ _ unat])
  have "name_bytes (l # ls) @ rest = word_of_nat (length l) # to_bytes l @ name_bytes ls @ rest"
    by (simp add: name_bytes_def)
  then show ?case
    using Cons.IH [OF l(3)] w u by (simp add: dns_read_name.simps [of "word_of_nat (length l) # _"] comp_def)
qed

lemma dns_read_record_bytes: "record_ok rr \<Longrightarrow> dns_read_record (record_bytes rr @ rest) = Some (rr, rest)"
  by (cases rr) (auto simp: record_ok_def record_bytes_def dns_read_record_def dns_read_name_bytes be_nat_be_bytes Let_def)

lemma dns_read_records_bytes:
  "list_all record_ok rrs \<Longrightarrow> dns_read_records (length rrs) (concat (map record_bytes rrs)) = Some rrs"
  by (induction rrs) (simp_all add: dns_read_record_bytes)

section \<open>What the writers write\<close>

lemma byte_drop: "(ucast (drop_bit k v) :: u8) = word_of_nat (unat v div 2 ^ k)"
proof -
  have "unat (drop_bit k v) = unat v div 2 ^ k"
    unfolding unat_drop_bit_eq by (simp add: drop_bit_eq_div)
  then show ?thesis
    by (subst word_unat_eq_iff) (simp add: unsigned_ucast_eq take_bit_eq_mod unat_of_nat del: unsigned_drop_bit_eq)
qed

lemma byte_mask:
  "(ucast (v AND 0xff) :: u8) = ucast (v :: u16)" "(ucast (w AND 0xff) :: u8) = ucast (w :: u32)"
proof -
  have m: "(0xff :: u16) = mask 8" "(0xff :: u32) = mask 8" by (simp_all add: mask_eq_exp_minus_1)
  show "(ucast (v AND 0xff) :: u8) = ucast v" "(ucast (w AND 0xff) :: u8) = ucast w"
    unfolding m by (rule bit_word_eqI, simp add: bit_simps)+
qed

lemma put_u16_be: "put_u16 v buf = buf @ be_bytes 2 (unat v)"
  using byte_drop [of 8 v] byte_drop [of 0 v] by (simp add: put_u16_def byte_mask be_bytes_2)

lemma put_u32_be: "put_u32 v buf = buf @ be_bytes 4 (unat v)"
proof -
  have "be_bytes 4 n = [word_of_nat (n div 2 ^ 24), word_of_nat (n div 2 ^ 16), word_of_nat (n div 2 ^ 8), word_of_nat n]" for n
    by (simp add: be_bytes_def upt_conv_Cons)
  then show ?thesis
    using byte_drop [of 24 v] byte_drop [of 16 v] byte_drop [of 8 v] byte_drop [of 0 v]
    by (simp add: put_u32_def byte_mask)
qed

lemma put_label_bytes: "put_label l buf = buf @ word_of_nat (length l) # to_bytes l"
  by (simp add: put_label_def put_bytes_def)

definition service_name :: dns_name where
  "service_name = [''_http'', ''_tcp'', ''local'']"

definition instance_name :: "string \<Rightarrow> dns_name" where
  "instance_name host = host # service_name"

definition host_name :: "string \<Rightarrow> dns_name" where
  "host_name host = [host, ''local'']"

lemma put_names:
  "put_http_service_name buf = buf @ name_bytes service_name"
  "put_http_instance_name host buf = buf @ name_bytes (instance_name host)"
  "put_host_name host buf = buf @ name_bytes (host_name host)"
  by (simp_all add: put_http_service_name_def put_http_instance_name_def put_host_name_def put_label_bytes
      name_bytes_def service_name_def instance_name_def host_name_def)

lemma put_rr_header_bytes:
  "put_rr_header ty cl ttl n buf =
     buf @ be_bytes 2 (unat ty) @ be_bytes 2 (unat cl) @ be_bytes 4 (unat ttl) @ be_bytes 2 (unat n)"
  by (simp add: put_rr_header_def put_u16_be put_u32_be)

text \<open>Filling in the length makes the record the one of its data.\<close>

lemma put_record_bytes:
  assumes "\<And>b. rdata b = b @ d"
  shows "put_record ty cl ttl rdata buf =
    buf @ be_bytes 2 (unat ty) @ be_bytes 2 (unat cl) @ be_bytes 4 (unat ttl) @ be_bytes 2 (length d) @ d"
proof -
  let ?h = "buf @ be_bytes 2 (unat ty) @ be_bytes 2 (unat cl) @ be_bytes 4 (unat ttl)"
  have l: "length ?h = length buf + 8" by simp
  have z: "be_bytes 2 0 = [0, 0]" by (simp add: be_bytes_2)
  have "put_record ty cl ttl rdata buf = sys_put_be16 (length d) (length ?h) (?h @ [0, 0] @ d)"
    unfolding put_record_def Let_def assms put_rr_header_bytes l by (simp add: z)
  also have "\<dots> = ?h @ be_bytes 2 (length d) @ d"
    by (simp add: sys_put_be16_def be_bytes_2 list_update_append)
  finally show ?thesis by simp
qed

text \<open>The four answers of an announcement.\<close>

definition announced :: "string \<Rightarrow> u32 \<Rightarrow> dns_record list" where
  "announced host addr =
     [\<lparr>rr_name = service_name, rr_type = 12, rr_class = 1, rr_ttl = 4500, rr_data = name_bytes (instance_name host)\<rparr>,
      \<lparr>rr_name = instance_name host, rr_type = 16, rr_class = 0x8001, rr_ttl = 4500, rr_data = http_txt\<rparr>,
      \<lparr>rr_name = instance_name host, rr_type = 33, rr_class = 0x8001, rr_ttl = 120,
        rr_data = be_bytes 2 0 @ be_bytes 2 0 @ be_bytes 2 80 @ name_bytes (host_name host)\<rparr>,
      \<lparr>rr_name = host_name host, rr_type = 1, rr_class = 0x8001, rr_ttl = 120, rr_data = be_bytes 4 (unat addr)\<rparr>]"

lemma length_name_bytes: "length (name_bytes ls) = sum_list (map (\<lambda>l. length l + 1) ls) + 1"
  by (induction ls) (simp_all add: name_bytes_def)

lemma announcement_bytes:
  "build_mdns_http_announcement host addr =
     be_bytes 2 0 @ be_bytes 2 0x8400 @ be_bytes 2 0 @ be_bytes 2 4 @ be_bytes 2 0 @ be_bytes 2 0 @
     concat (map record_bytes (announced host addr))"
proof -
  have r: "put_record ty cl ttl (put_http_instance_name host) buf =
      buf @ be_bytes 2 (unat ty) @ be_bytes 2 (unat cl) @ be_bytes 4 (unat ttl) @
      be_bytes 2 (length (name_bytes (instance_name host))) @ name_bytes (instance_name host)"
    "put_record ty cl ttl (put_bytes http_txt) buf =
      buf @ be_bytes 2 (unat ty) @ be_bytes 2 (unat cl) @ be_bytes 4 (unat ttl) @ be_bytes 2 (length http_txt) @ http_txt"
    "put_record ty cl ttl (\<lambda>b. put_host_name host (put_u16 MDNS_HTTP_PORT (put_u16 0 (put_u16 0 b)))) buf =
      buf @ be_bytes 2 (unat ty) @ be_bytes 2 (unat cl) @ be_bytes 4 (unat ttl) @
      be_bytes 2 (length (be_bytes 2 0 @ be_bytes 2 0 @ be_bytes 2 80 @ name_bytes (host_name host))) @
      be_bytes 2 0 @ be_bytes 2 0 @ be_bytes 2 80 @ name_bytes (host_name host)"
    for ty cl ttl buf
    by (rule put_record_bytes, simp add: put_names put_bytes_def put_u16_be MDNS_HTTP_PORT_def)+
  have f: "DNS_CLASS_IN OR DNS_CLASS_CACHE_FLUSH = 0x8001" by (simp add: fw_defs)
  show ?thesis
    unfolding build_mdns_http_announcement_def Let_def f r
    unfolding put_names put_u16_be put_rr_header_bytes put_bytes_def
    by (simp add: announced_def record_bytes_def fw_defs)
qed

lemma announced_ok: "0 < length host \<Longrightarrow> length host \<le> 63 \<Longrightarrow> list_all record_ok (announced host addr)"
  by (simp add: announced_def record_ok_def labels_ok_def service_name_def instance_name_def host_name_def
      length_name_bytes http_txt_def)

lemma announcement_length: "length (build_mdns_http_announcement host addr) = 160 + 5 * length host"
  by (simp add: announcement_bytes announced_def record_bytes_def length_name_bytes service_name_def
      instance_name_def host_name_def http_txt_def)

section \<open>The pace\<close>

text \<open>Any number of turns of the loop: the announcements made, and the time waited.\<close>

inductive mdns_run :: "env \<Rightarrow> string \<Rightarrow> int \<Rightarrow> hist \<Rightarrow> nat \<Rightarrow> hist \<Rightarrow> bool"
  for E host sock h0 where
  mdns_begin: "mdns_run E host sock h0 0 h0"
| mdns_again: "mdns_run E host sock h0 n h \<Longrightarrow> mdns_turn E host sock n h = (n', h') \<Longrightarrow> mdns_run E host sock h0 n' h'"

fun announces :: "call \<Rightarrow> bool" where
  "announces (Sock_sendto _ _ _) = True"
| "announces _ = False"

fun packet_ok :: "string \<Rightarrow> int \<Rightarrow> call \<Rightarrow> bool" where
  "packet_ok host sock (Sock_sendto s p _) \<longleftrightarrow> s = sock \<and> (\<exists>addr. p = build_mdns_http_announcement host addr)"
| "packet_ok host sock _ \<longleftrightarrow> True"

definition announcements :: "call list \<Rightarrow> nat" where
  "announcements cs = length (filter announces cs)"

definition pauses :: "nat \<Rightarrow> call list \<Rightarrow> nat" where
  "pauses ms cs = length (filter (\<lambda>c. c = K_sleep_ms ms) cs)"

lemma counts_append [simp]:
  "announcements (cs @ ds) = announcements cs + announcements ds"
  "pauses ms (cs @ ds) = pauses ms cs + pauses ms ds"
  by (simp_all add: announcements_def pauses_def)

lemma mdns_run_inv:
  assumes "mdns_run E host sock h0 n h"
  shows "\<exists>cs. h = h0 @ cs \<and> n = min 20 (announcements cs) \<and> pauses 1000 cs = n \<and>
    pauses 10000 cs = announcements cs - n \<and>
    list_all (packet_ok host sock) cs"
  using assms
proof induction
  case mdns_begin
  then show ?case by (simp add: announcements_def pauses_def)
next
  case (mdns_again n h n' h')
  then obtain cs where cs: "h = h0 @ cs" "n = min 20 (announcements cs)" "pauses 1000 cs = n"
    "pauses 10000 cs = announcements cs - n"
    "list_all (packet_ok host sock) cs"
    by blast
  show ?case
  proof (cases "get_link_local_addr E h")
    case None
    then show ?thesis
      using mdns_again.hyps(2) cs
      by (intro exI [of _ "cs @ [K_sleep_ms 250]"]) (auto simp: mdns_turn_def announcements_def pauses_def)
  next
    case (Some addr)
    let ?s = "Sock_sendto sock (build_mdns_http_announcement host addr)
      (env_sendto E h (build_mdns_http_announcement host addr))"
    have h': "n' = (if n < 20 then n + 1 else n)"
      "h' = h0 @ cs @ [?s, K_sleep_ms (if n < 20 then 1000 else 10000)]"
      using mdns_again.hyps(2) Some cs(1)
      by (auto simp: mdns_turn_def MDNS_FAST_ANNOUNCE_COUNT_def Let_def split: if_splits)
    have c: "announcements [?s, K_sleep_ms ms] = 1" "pauses 1000 [?s, K_sleep_ms ms] = (if ms = 1000 then 1 else 0)"
      "pauses 10000 [?s, K_sleep_ms ms] = (if ms = 10000 then 1 else 0)" for ms
      by (simp_all add: announcements_def pauses_def)
    show ?thesis
      by (rule exI [of _ "cs @ [?s, K_sleep_ms (if n < 20 then 1000 else 10000)]"]) (use h' c cs in auto)
  qed
qed

section \<open>Properties\<close>

text \<open>
  C31: read by the rules of DNS, an announcement is one response with the four answers of the service: the pointer
  from the service type to the instance, its text, where it is served, and the address of the host.
\<close>

theorem announcement_read_back:
  assumes "0 < length host" and "length host \<le> 63"
  shows "dns_read_response (build_mdns_http_announcement host addr) = Some (0, 0x8400, announced host addr)"
proof -
  have "length (announced host addr) = 4" by (simp add: announced_def)
  then have "dns_read_records 4 (concat (map record_bytes (announced host addr))) = Some (announced host addr)"
    using dns_read_records_bytes [OF announced_ok [OF assms]] by metis
  moreover have "take 4 (drop 8 (build_mdns_http_announcement host addr)) = be_bytes 2 0 @ be_bytes 2 0"
    by (simp add: announcement_bytes)
  moreover have "be_nat (be_bytes 2 0 @ be_bytes 2 0) = 0" by (simp add: be_bytes_2 be_nat_def)
  ultimately show ?thesis
    unfolding dns_read_response_def announcement_bytes by (simp add: be_nat_be_bytes)
qed

theorem announcement_read_back_witness:
  "dns_read_response (build_mdns_http_announcement ''pico-can-bridge'' 0xA9FE0102) =
    Some (0, 0x8400, announced ''pico-can-bridge'' 0xA9FE0102)"
  by (rule announcement_read_back) simp_all

text \<open>
  C32: the packet buffer of 384 bytes is large enough exactly for host names of up to 44 characters, because nothing
  checks its size while it is written.
\<close>

theorem announcement_fits:
  "length (build_mdns_http_announcement host addr) \<le> 384 \<longleftrightarrow> length host \<le> 44"
  by (auto simp: announcement_length)

text \<open>
  C33: however long the announcer runs, its first 20 announcements are a second apart and all later ones ten
  seconds, the counter is their number up to 20, and every packet sent is an announcement of the host.
\<close>

theorem announcement_pace:
  assumes "mdns_run E host sock h0 n h"
  shows "\<exists>cs. h = h0 @ cs \<and> n = min 20 (announcements cs) \<and> pauses 1000 cs = n \<and>
    pauses 10000 cs = announcements cs - n \<and>
    list_all (packet_ok host sock) cs"
  using mdns_run_inv [OF assms] .

theorem announcement_pace_witness:
  "\<exists>n h. mdns_run (board (\<lambda>h. [])) ''pico'' 7 [] n h \<and> n = min 20 (announcements h) \<and> pauses 1000 h = n"
proof -
  obtain n h where "mdns_turn (board (\<lambda>h. [])) ''pico'' 7 0 [] = (n, h)" by force
  then have r: "mdns_run (board (\<lambda>h. [])) ''pico'' 7 [] n h" using mdns_again mdns_begin by blast
  show ?thesis using announcement_pace [OF r] r by auto
qed

end
