(* ===== verification/Spec2Isabelle.thy ===== *)
theory Spec2Isabelle
  imports MainApp Mdns
begin

text \<open>
  A verification library for the firmware of the Pico CAN Bridge: a Raspberry Pi Pico that is a USB network card
  (CDC-NCM) with a web server behind it, and bridges a CAN bus to a WebSocket. The C sources are under \<open>src/\<close>:
  \<open>main.c\<close>, \<open>usb_descriptors.c\<close>, \<open>http_server.c\<close>, \<open>can_bridge.c\<close> and \<open>storage.c\<close>.

  \<^bold>\<open>The parts and how they meet.\<close> \<open>main\<close> starts the USB device; messages of the USB stack schedule the work that takes
  the network interface up and down and arm a watchdog; an address on the interface submits the work that starts the
  threads of \<open>http_server.c\<close>. The server answers requests for the start page, for the user page (read and written
  through \<open>storage.c\<close>) and for the state of the file system, and hands one connection at a time to the WebSocket
  thread, which passes text messages to \<open>can_bridge.c\<close> and received CAN frames to the browser. Another thread
  announces the service by mDNS.

  \<^bold>\<open>The theories\<close>, in the order of their imports, and what each models:
  \<^item> \<open>Prelude\<close>: words, bytes and characters, C strings, \<open>snprintk\<close>, error numbers; \<open>Zephyr\<close>: the outside world (below).
  \<^item> \<open>Sha1\<close> (\<open>sha1_*\<close>), \<open>Base64\<close> (\<open>base64_encode_small\<close>), \<open>HttpText\<close> (header look-up, the WebSocket accept value).
  \<^item> \<open>Storage\<close>: \<open>storage.c\<close>; the static variables are the record \<open>storage\<close>, one definition per function, the two
    loops of the upload and the loop of the download as recursive functions.
  \<^item> \<open>HttpIO\<close>: \<open>send_all\<close>, \<open>send_text_response\<close>, \<open>request_body_read\<close>, \<open>send_websocket_frame\<close>, \<open>ws_recv_exact\<close>.
  \<^item> \<open>Json\<close>: JSON documents, their text and a reader (a reference, not code); \<open>CanMessages\<close>: the message type, its
    validation and the texts of \<open>can_bridge.c\<close>; \<open>CanBridge\<close>: its state (\<open>can_bridge\<close>) and all its operations.
  \<^item> \<open>WebSocket\<close>: \<open>handle_websocket\<close>, \<open>websocket_echo_loop\<close> (a turn and the loop over turns) and its thread.
  \<^item> \<open>HttpServer\<close>: \<open>handle_client\<close> with one definition per route, \<open>http_thread\<close>, \<open>http_server_start\<close>.
  \<^item> \<open>Mdns\<close>: the packet writers, \<open>get_link_local_addr\<close>, \<open>build_mdns_http_announcement\<close>, \<open>mdns_announce_thread\<close>.
  \<^item> \<open>UsbDevice\<close>: \<open>usb_device_init\<close>; \<open>MainApp\<close>: \<open>main.c\<close>, and the system of its handlers, work items and clock.
  \<^item> this theory: what holds only of several parts together.

  \<^bold>\<open>State, calls and errors.\<close> An operation takes the state it uses and the history of the calls made to the kernel,
  drivers and sockets, and returns its result, the new state and the longer history. A function of the outside is a
  field of the record \<open>env\<close>: it may depend on the whole history, so theorems hold for every outside world unless they
  name a contract. The contracts are locales with documented behaviour only, each interpreted on a reference board:
  \<open>sockets\<close>, \<open>ws_peer\<close> (a connection that delivers a stream), \<open>littlefs\<close> and \<open>page_store\<close> (a file reads back as it was
  written), \<open>message_queue\<close>, \<open>can_driver\<close>, \<open>json_parser\<close> (the parser of the descriptor table). Interfaces between the
  parts are locales too, interpreted on the code's own definitions: \<open>body_source\<close> and \<open>body_sink\<close> (the callbacks of
  \<open>storage.h\<close>), \<open>bridge_service\<close> (the calls of \<open>can_bridge.h\<close> the session makes), \<open>http_starter\<close>. Negative return
  values are negative integers, failing pointers are options, 32-bit sums that may wrap are words.

  \<^bold>\<open>What is proved\<close>, by part:
  \<^item> CAN bridge: exactly which messages queue which frame and what is answered, that every answer is a JSON document
    within its buffer; over every interleaving of its contexts, that frames keep their order and none is sent or
    shown twice; that driver calls are locked, those of \<open>can_bridge_init\<close> excepted, before which there are none; and
    what a failing change of configuration leaves behind.
  \<^item> WebSocket: the upgrade is exclusive and its accept value is that of RFC 6455, whose SHA-1 is the one of
    FIPS 180-4 (for pieces below 512 MiB, whose bits are counted in 32 bits); a turn returns and stays on its
    connection; the session ends if what the peer sends and the polls it lets time out are bounded, and a peer that
    stays connected and silent keeps it for good; bad frames are refused; messages of the client reach the transmit queue, and here, received frames reach the client.
  \<^item> HTTP and storage: requests are routed by the words of their first line, every connection is answered on and
    closed once, an upload stores its body however it was cut up, a download sends it, and here, what one client
    stores the next one gets; the file system is mounted at most once.
  \<^item> mDNS: an announcement is read back by the rules of DNS; its size; its pace.
  \<^item> Start and network: the order of the USB calls; the interface follows the messages of the USB stack; a network
    without an address is always watched, ends in a reboot, and nothing else reboots.

  \<^bold>\<open>Loops.\<close> Loops over data are functions with a measure. \<open>partial_function\<close> is used where the outside world decides
  whether a loop ends: \<open>stream_loop\<close>, \<open>drain_rx\<close> and \<open>websocket_echo_loop\<close>; that they return is then part of the
  theorems (and that the session of a silent peer does not is the theorem \<open>silent_peer_keeps_place\<close>). The endless loops of the threads are modelled by their turns. No fuel is used in a model of code;
  \<open>ws_texts\<close> and \<open>dns_read_records\<close> count the frames and records a reader expects.

  \<^bold>\<open>Concurrency.\<close> A handler runs to its end as one step, and the steps of the contexts interleave arbitrarily. The
  code shares between contexts only queues, atomic variables and, under a mutex, the driver and the file system.
  \<open>can_bridge_init\<close> uses the driver without the mutex, before anyone else does. Four points are coarser than the code:
  the handlers of \<open>main.c\<close> read several atomic variables in turn; a work item is idle or scheduled and has no running
  or cancelling state, so a message or an address that comes while its handler runs is seen before or after it; the
  watchdog's \<open>k_sleep\<close> of 250 ms before \<open>sys_reboot\<close> takes no time, so \<open>sys_down\<close> means that the handler has committed
  to the reboot (nothing in the code revokes it) and the reset itself comes a quarter of a second after the deadline; and
  \<open>http_listen\<close> sets \<open>server_fd\<close> before \<open>bind\<close> and \<open>listen\<close> have succeeded, which the announcer could see.

  \<^bold>\<open>Not modelled.\<close> \<open>index_html\<close> is an asset and a parameter. Zephyr, LittleFS, the JSON library and the USB stack are
  not in the repository. Logging, thread stacks and priorities, the descriptor tables of \<open>usb_descriptors.c\<close> and the
  socket options have no effect that the code observes. The sketch under \<open>examples/\<close>, the patches, the board files and
  the build configuration are not part of the firmware's logic.
\<close>

section \<open>From the CAN bus to the browser\<close>

text \<open>A client that reads \<open>n\<close> text frames, and no more, off a stream.\<close>

fun ws_texts :: "nat \<Rightarrow> u8 list \<Rightarrow> string list option" where
  "ws_texts 0 bs = (if bs = [] then Some [] else None)"
| "ws_texts (Suc n) bs =
     (case ws_parse bs of
        Some (opcode, payload, rest) \<Rightarrow>
          if opcode = WS_OPCODE_TEXT then map_option ((#) (to_chars payload)) (ws_texts n rest) else None
      | None \<Rightarrow> None)"

definition rx_texts :: "can_frame list \<Rightarrow> int list \<Rightarrow> string list" where
  "rx_texts fs ts = map (\<lambda>(f, t). json_text (rx_doc f t)) (zip fs ts)"

definition text_frames :: "string list \<Rightarrow> u8 list" where
  "text_frames docs = concat (map (\<lambda>d. ws_frame WS_OPCODE_TEXT (to_bytes d)) docs)"

lemma rx_texts_simps [simp]:
  "rx_texts [] ts = []" "rx_texts (f # fs) (t # ts) = json_text (rx_doc f t) # rx_texts fs ts"
  by (simp_all add: rx_texts_def)

lemma text_frames_simps [simp]:
  "text_frames [] = []" "text_frames (d # ds) = ws_frame WS_OPCODE_TEXT (to_bytes d) @ text_frames ds"
  by (simp_all add: text_frames_def)

lemma ws_texts_frames: "list_all (\<lambda>d. length d \<le> 0xffff) ds \<Longrightarrow> ws_texts (length ds) (text_frames ds) = Some ds"
  by (induction ds) (simp_all add: ws_parse_frame WS_OPCODE_TEXT_def to_chars_to_bytes [unfolded map_map] del: map_map)

lemma next_rx_cases:
  assumes W: "can_world Q contents E parse" and ok: "list_all frame_wf (contents (can_rx_queue b))"
    and l: "length resp < WS_RESPONSE_MAX"
    and n: "can_bridge_format_next_rx Q E b WS_RESPONSE_MAX resp h = ((r, resp1), b1, h1)"
  obtains (none) "contents (can_rx_queue b) = []" "r \<noteq> 0" "b1 = b" "h1 = h"
  | (some) f fs t where "contents (can_rx_queue b) = f # fs" "r = 0" "resp1 = json_text (rx_doc f t)"
      "contents (can_rx_queue b1) = fs" "h1 = h @ [K_uptime t]" "length resp1 < WS_RESPONSE_MAX"
proof -
  have mq: "message_queue Q contents CAN_QUEUE_LEN" and dr: "can_driver E"
    using W by (simp_all add: can_world_def)
  show thesis
  proof (cases "contents (can_rx_queue b)")
    case Nil
    then have "mq_get Q (can_rx_queue b) = None" using message_queue.get_None [OF mq] by simp
    with n have "b1 = b" "h1 = h" "r = err EAGAIN" by (simp_all add: can_bridge_format_next_rx_def)
    then show thesis using Nil by (intro none) (simp_all add: err_def EAGAIN_def)
  next
    case (Cons f fs)
    obtain q where q: "mq_get Q (can_rx_queue b) = Some (f, q)" "contents q = fs"
      using message_queue.get_head [OF mq Cons] by blast
    have f: "frame_wf f" using ok Cons by simp
    have v: "r = 0" "resp1 = json_text (rx_doc f (env_uptime_us E h))" "b1 = b\<lparr>can_rx_queue := q\<rparr>"
      "h1 = h @ [K_uptime (env_uptime_us E h)]"
      using n q(1) format_rx_doc [OF f can_driver.uptime [OF dr], of WS_RESPONSE_MAX h]
      by (simp_all add: can_bridge_format_next_rx_def Let_def WS_RESPONSE_MAX_def)
    have "length resp1 < WS_RESPONSE_MAX" using next_rx_length [OF n l] .
    then show thesis using some Cons q(2) v by simp
  qed
qed

lemma drain_rx_texts:
  assumes W: "can_world Q contents E parse" and S: "sockets E"
  shows "contents (can_rx_queue b) = fs \<Longrightarrow> list_all frame_wf fs \<Longrightarrow> length resp < WS_RESPONSE_MAX \<Longrightarrow>
    \<exists>go_on b' resp' h' p ts. drain_rx (can_service Q E parse) E fd b resp h = Some (go_on, b', resp', h') \<and>
      length ts = length fs \<and> list_all (\<lambda>d. length d \<le> 0xffff) (rx_texts fs ts) \<and>
      sent fd h' = sent fd h @ p \<and> prefix p (text_frames (rx_texts fs ts)) \<and>
      (sends_work E fd \<longrightarrow> go_on) \<and>
      (go_on \<longrightarrow> p = text_frames (rx_texts fs ts) \<and> contents (can_rx_queue b') = [])"
proof (induction fs arbitrary: b resp h)
  case Nil
  obtain r resp1 b1 h1 where n: "can_bridge_format_next_rx Q E b WS_RESPONSE_MAX resp h = ((r, resp1), b1, h1)"
    by (metis prod.exhaust)
  have ok: "list_all frame_wf (contents (can_rx_queue b))" using Nil.prems(1) by simp
  from W ok Nil.prems(3) n show ?case
  proof (cases rule: next_rx_cases)
    case none
    then have "drain_rx (can_service Q E parse) E fd b resp h = Some (True, b, resp1, h)"
      using n by (simp add: drain_rx.simps [of _ E fd b resp h])
    then show ?thesis using Nil.prems(1) by fastforce
  next
    case (some f fs t)
    then show ?thesis using Nil.prems(1) by simp
  qed
next
  case (Cons f fs)
  obtain r resp1 b1 h1 where n: "can_bridge_format_next_rx Q E b WS_RESPONSE_MAX resp h = ((r, resp1), b1, h1)"
    by (metis prod.exhaust)
  have ok: "list_all frame_wf (contents (can_rx_queue b))" using Cons.prems(1,2) by simp
  from W ok Cons.prems(3) n show ?case
  proof (cases rule: next_rx_cases)
    case none
    then show ?thesis using Cons.prems(1) by simp
  next
    case (some g gs t)
    then have fg: "g = f" "gs = fs" using Cons.prems(1) by simp_all
    have len: "length resp1 \<le> 0xffff" using some(6) by (simp add: WS_RESPONSE_MAX_def)
    obtain r2 h2 where w: "send_websocket_frame E fd WS_OPCODE_TEXT (to_bytes resp1) h1 = (r2, h2)" by force
    obtain p1 where p1: "prefix p1 (ws_frame WS_OPCODE_TEXT (to_bytes resp1))" "sent fd h2 = sent fd h1 @ p1"
      "r2 = 0 \<longleftrightarrow> p1 = ws_frame WS_OPCODE_TEXT (to_bytes resp1)" and r2: "r2 \<le> 0"
      using sockets.send_websocket_frame_sent(2,3) [OF S w] len by auto
    have s1: "sent fd h1 = sent fd h" by (simp add: some(5))
    have step: "drain_rx (can_service Q E parse) E fd b resp h =
        (if r2 < 0 then Some (False, b1, resp1, h2) else drain_rx (can_service Q E parse) E fd b1 resp1 h2)"
      using n some(2) w by (simp add: drain_rx.simps [of _ E fd b resp h])
    have l: "list_all frame_wf fs" using Cons.prems(2) by simp
    obtain go_on b' resp' h' p ts where ih: "drain_rx (can_service Q E parse) E fd b1 resp1 h2 = Some (go_on, b', resp', h')"
      "length ts = length fs" "list_all (\<lambda>d. length d \<le> 0xffff) (rx_texts fs ts)" "sent fd h' = sent fd h2 @ p"
      "prefix p (text_frames (rx_texts fs ts))" "sends_work E fd \<longrightarrow> go_on" "go_on \<longrightarrow> p = text_frames (rx_texts fs ts) \<and> contents (can_rx_queue b') = []"
      using Cons.IH [OF some(4) [unfolded fg] l some(6), of h2] by blast
    let ?ts = "t # ts"
    have docs: "rx_texts (f # fs) ?ts = resp1 # rx_texts fs ts" using some(3) fg by simp
    have ts: "length ?ts = length (f # fs)" "list_all (\<lambda>d. length d \<le> 0xffff) (rx_texts (f # fs) ?ts)"
      unfolding docs using ih(2,3) len by simp_all
    show ?thesis
    proof (cases "r2 < 0")
      case True
      have "prefix p1 (text_frames (rx_texts (f # fs) ?ts))" unfolding docs using p1(1) by simp
      moreover have "drain_rx (can_service Q E parse) E fd b resp h = Some (False, b1, resp1, h2)" using step True by simp
      moreover have "sent fd h2 = sent fd h @ p1" using p1(2) s1 by simp
      moreover have "\<not> sends_work E fd" using send_frame_works [of E fd "to_bytes resp1" WS_OPCODE_TEXT h1] len w True by auto
      ultimately show ?thesis using ts by blast
    next
      case False
      then have "p1 = ws_frame WS_OPCODE_TEXT (to_bytes resp1)" using p1(3) r2 by simp
      then have "sent fd h' = sent fd h @ (ws_frame WS_OPCODE_TEXT (to_bytes resp1) @ p)"
        "prefix (ws_frame WS_OPCODE_TEXT (to_bytes resp1) @ p) (text_frames (rx_texts (f # fs) ?ts))"
        "go_on \<longrightarrow> ws_frame WS_OPCODE_TEXT (to_bytes resp1) @ p = text_frames (rx_texts (f # fs) ?ts) \<and>
          contents (can_rx_queue b') = []"
        unfolding docs using p1(2) s1 ih(4,5,7) by simp_all
      moreover have "drain_rx (can_service Q E parse) E fd b resp h = Some (go_on, b', resp', h')" using step False ih(1) by simp
      ultimately show ?thesis using ts ih(6) by blast
    qed
  qed
qed

text \<open>
  C39: what the bus delivered reaches the browser. Draining the receive queue into the WebSocket sends the frames of
  the queue in order, each as one text frame with its \<open>can.rx\<close> document and a time stamp; if the session goes on
  the client has read exactly those documents and the queue is empty. The session goes on if no send fails; after one
  that does, the client has a prefix of the frames.
\<close>

theorem can_rx_over_websocket:
  assumes "can_world Q contents E parse" and "sockets E" and "list_all frame_wf (contents (can_rx_queue b))"
    and "length resp < WS_RESPONSE_MAX"
  shows "\<exists>go_on b' resp' h' p ts. drain_rx (can_service Q E parse) E fd b resp h = Some (go_on, b', resp', h') \<and>
    length ts = length (contents (can_rx_queue b)) \<and> sent fd h' = sent fd h @ p \<and>
    prefix p (text_frames (rx_texts (contents (can_rx_queue b)) ts)) \<and> (sends_work E fd \<longrightarrow> go_on) \<and>
    (go_on \<longrightarrow> ws_texts (length ts) p = Some (rx_texts (contents (can_rx_queue b)) ts) \<and>
      contents (can_rx_queue b') = [])"
proof -
  obtain go_on b' resp' h' p ts where d: "drain_rx (can_service Q E parse) E fd b resp h = Some (go_on, b', resp', h')"
    "length ts = length (contents (can_rx_queue b))"
    "list_all (\<lambda>d. length d \<le> 0xffff) (rx_texts (contents (can_rx_queue b)) ts)"
    "sent fd h' = sent fd h @ p" "prefix p (text_frames (rx_texts (contents (can_rx_queue b)) ts))"
    "sends_work E fd \<longrightarrow> go_on" "go_on \<longrightarrow> p = text_frames (rx_texts (contents (can_rx_queue b)) ts) \<and> contents (can_rx_queue b') = []"
    using drain_rx_texts [OF assms(1,2) refl assms(3,4), of fd h] by blast
  have "length (rx_texts (contents (can_rx_queue b)) ts) = length ts" using d(2) by (simp add: rx_texts_def)
  then have "ws_texts (length ts) (text_frames (rx_texts (contents (can_rx_queue b)) ts)) =
      Some (rx_texts (contents (can_rx_queue b)) ts)"
    using ws_texts_frames [OF d(3)] by simp
  then show ?thesis using d by blast
qed

theorem can_rx_over_websocket_witness:
  "\<exists>b' resp' h' p ts. drain_rx (can_service (list_msgq CAN_QUEUE_LEN) (board (\<lambda>h. [])) ref_parse) (board (\<lambda>h. [])) 4
      (demo_bridge\<lparr>can_rx_queue := [demo_rx, demo_rx]\<rparr>) [] [] = Some (True, b', resp', h') \<and>
    sent 4 h' = p \<and> length ts = 2 \<and> ws_texts 2 p = Some (rx_texts [demo_rx, demo_rx] ts)"
proof -
  let ?svc = "can_service (list_msgq CAN_QUEUE_LEN) (board (\<lambda>h. [])) ref_parse"
    and ?b = "demo_bridge\<lparr>can_rx_queue := [demo_rx, demo_rx]\<rparr>"
  have f: "list_all frame_wf (can_rx_queue ?b)" by code_simp
  have l: "length ([] :: string) < WS_RESPONSE_MAX" by (simp add: WS_RESPONSE_MAX_def)
  obtain go_on b' resp' h' p ts where d: "drain_rx ?svc (board (\<lambda>h. [])) 4 ?b [] [] = Some (go_on, b', resp', h')"
    "length ts = length (can_rx_queue ?b)" "sent 4 h' = sent 4 [] @ p"
    "sends_work (board (\<lambda>h. [])) 4 \<longrightarrow> go_on" "go_on \<longrightarrow> ws_texts (length ts) p = Some (rx_texts (can_rx_queue ?b) ts) \<and> can_rx_queue b' = []"
    using can_rx_over_websocket [OF board_world.can_world_axioms board_sockets.sockets_axioms f l] by blast
  have "go_on" using d(4) board_sends_work by simp
  moreover have t: "length ts = 2" and q: "can_rx_queue ?b = [demo_rx, demo_rx]" using d(2) by simp_all
  ultimately have "drain_rx ?svc (board (\<lambda>h. [])) 4 ?b [] [] = Some (True, b', resp', h') \<and> sent 4 h' = p \<and>
      ws_texts 2 p = Some (rx_texts [demo_rx, demo_rx] ts)"
    using d(1,3,5) by (simp only: sent_Nil append_Nil simp_thms)
  then show ?thesis using t by blast
qed

section \<open>The user page from one client to another\<close>

text \<open>
  C40: a page that one client has put is what the next client gets. When the answer to the first began with 201, then
  whatever else is done that does not write the page, a second connection that asks for it is sent the header with
  its length followed by the very bytes of the body, or a part of these, or that there is no page; and where nothing
  fails while it is served, all of the header and the body.
\<close>

theorem put_then_get:
  assumes P: "ws_peer E fd1 data1" and G: "ws_peer E fd2 data2" and S: "page_store E p0"
    and put: "well_formed_head head1" "data1 = recvd fd1 h @ head1 @ body"
      "request_words (to_chars head1) = Some (''PUT'', ''/user/index.html'')"
      "header_field (to_chars head1) ''Content-Length'' = Some (dec (length body))" "length body \<le> 524288"
    and served: "handle_client svc E index_html fd1 st h = Some (st1, h1)"
      "sent fd1 h1 = sent fd1 h @ p1" "prefix (to_bytes ''HTTP/1.0 201'') p1"
    and between: "extends (\<lambda>c. \<forall>q. page_step q c = q) h1 h2"
    and get: "well_formed_head head2" "data2 = recvd fd2 h2 @ head2"
      "request_words (to_chars head2) = Some (''GET'', target)" "target = ''/user'' \<or> target = ''/user/''"
  shows "\<exists>st3 h3 p2. handle_client svc E index_html fd2 st2 h2 = Some (st3, h3) \<and> sent fd2 h3 = sent fd2 h2 @ p2 \<and>
    (prefix p2 (to_bytes (text_header ''200 OK'' text_html (length body)) @ body) \<or> prefix p2 (to_bytes user_not_found)) \<and>
    (fs_readable E (http_storage st2) \<and> sends_work E fd2 \<longrightarrow>
      p2 = to_bytes (text_header ''200 OK'' text_html (length body)) @ body)"
proof -
  have L: "littlefs E" using S by (rule page_store.axioms)
  obtain st' h' p where w: "handle_client svc E index_html fd1 st h = Some (st', h')" "sent fd1 h' = sent fd1 h @ p"
    "page p0 h' = body \<or> prefix p (text_response ''500 Internal Server Error'' ''user page write failed'')"
    using ws_peer.put_request [OF P L put, of svc index_html st p0] by blast
  have "h' = h1" "p = p1" using w(1,2) served(1,2) by simp_all
  moreover have "\<not> prefix p1 (text_response ''500 Internal Server Error'' ''user page write failed'')"
  proof
    assume "prefix p1 (text_response ''500 Internal Server Error'' ''user page write failed'')"
    then have "prefix (to_bytes ''HTTP/1.0 201'') (text_response ''500 Internal Server Error'' ''user page write failed'')"
      using served(3) by (rule prefix_order.trans [rotated])
    then have "byte_of_char (CHR ''2'') = byte_of_char (CHR ''5'')" by (simp add: text_response_def text_header_def)
    from arg_cong [OF this, of char_of_byte] show False by simp
  qed
  ultimately have "page p0 h1 = body" using w(3) by simp
  moreover have "page p0 h2 = page p0 h1" using between by (rule extends_keeps) simp
  ultimately have b: "page p0 h2 = body" by simp
  have d: "data2 = recvd fd2 h2 @ head2 @ []" using get(2) by simp
  show ?thesis
    using ws_peer.get_request [OF G S get(1) d get(3,4), of svc index_html st2] put(5) unfolding b by auto
qed

theorem put_then_get_witness:
  "\<exists>st1 h1 st3 h3.
    handle_client (can_service (list_msgq CAN_QUEUE_LEN) demo_site ref_parse) demo_site ''page'' 4 demo_http [] = Some (st1, h1) \<and>
    handle_client (can_service (list_msgq CAN_QUEUE_LEN) demo_site ref_parse) demo_site ''page'' 5 demo_http h1 = Some (st3, h3) \<and>
    sent 5 h3 = to_bytes (text_header ''200 OK'' text_html 5) @ to_bytes ''hello''"
proof -
  let ?svc = "can_service (list_msgq CAN_QUEUE_LEN) demo_site ref_parse"
  have d1: "demo_streams 4 = recvd 4 [] @ demo_put @ to_bytes ''hello''" by (simp add: demo_streams_def)
  have l: "length (to_bytes ''hello'') \<le> 524288" by simp
  obtain st1 h1 p1 where p: "handle_client ?svc demo_site ''page'' 4 demo_http [] = Some (st1, h1)"
    "sent 4 h1 = sent 4 [] @ p1" "p1 = text_response ''201 Created'' ''user page written''"
    using ws_peer.put_request [OF demo_site_facts(1,4) demo_heads(1) d1 demo_heads(3,5) l, of ?svc "''page''" demo_http "[]"]
      demo_site_works(1,3) by blast
  have c: "recvd 5 h1 = []" "sent 5 h1 = []"
    using client_outcome [OF demo_site_facts(2,3), of ?svc "''page''" 4 demo_http "[]"] p(1) by auto
  have p1: "prefix (to_bytes ''HTTP/1.0 201'') p1" unfolding p(3) by (simp add: text_response_def text_header_def)
  have d2: "demo_streams 5 = recvd 5 h1 @ demo_get" using c by (simp add: demo_streams_def)
  have t: "''/user/'' = ''/user'' \<or> ''/user/'' = ''/user/''" by simp
  obtain st3 h3 p2 where g: "handle_client ?svc demo_site ''page'' 5 demo_http h1 = Some (st3, h3)" "sent 5 h3 = sent 5 h1 @ p2"
    "fs_readable demo_site (http_storage demo_http) \<and> sends_work demo_site 5 \<longrightarrow>
      p2 = to_bytes (text_header ''200 OK'' text_html (length (to_bytes ''hello''))) @ to_bytes ''hello''"
    using put_then_get [OF demo_site_facts(1,1,3) demo_heads(1) d1 demo_heads(3,5) l p(1,2) p1 extends_refl
      demo_heads(2) d2 demo_heads(4) t] by blast
  have "p2 = to_bytes (text_header ''200 OK'' text_html (length (to_bytes ''hello''))) @ to_bytes ''hello''"
    using g(3) demo_site_works(2,3) by blast
  moreover have "length (to_bytes ''hello'') = 5" by simp
  ultimately have "sent 5 h3 = to_bytes (text_header ''200 OK'' text_html 5) @ to_bytes ''hello''"
    using g(2) c(2) by (metis append_Nil)
  then show ?thesis using p(1) g(1) by blast
qed

end
